(* ===== verification/Prelude.thy ===== *)
theory Prelude
  imports Main "HOL-Library.Word"
begin

unbundle bit_operations_syntax

text \<open>
  Shared vocabulary of the development: the machine integer types of the C sources, the
  byte-buffer operations that stand for \<open>memcpy\<close> and pointer arithmetic, and the generic
  facts on lists, words and powers of two that the component theories use.
\<close>

type_synonym byte = "8 word"
type_synonym u32 = "32 word"
type_synonym u64 = "64 word"

named_theorems len_simps \<open>lengths of the buffers the C code declares\<close>

section \<open>Buffers\<close>

text \<open>
  A C buffer is the list of its cells and a pointer into it is the suffix it points at:
  \<open>p + n\<close> is \<^term>\<open>drop n p\<close>. \<open>memcpy dst off src\<close> is \<open>memcpy(&dst[off], src, len src)\<close>. It
  keeps the length of \<open>dst\<close> exactly when the copy stays inside \<open>dst\<close>; a copy that does not fit
  makes the list longer, so "the length never changes" is the absence of a buffer overflow.
\<close>

definition memcpy :: "'a list \<Rightarrow> nat \<Rightarrow> 'a list \<Rightarrow> 'a list" where
  "memcpy dst off src = take off dst @ src @ drop (off + length src) dst"

lemma length_memcpy [simp]:
  "off + length src \<le> length dst \<Longrightarrow> length (memcpy dst off src) = length dst"
  by (simp add: memcpy_def)

lemma memcpy_0_full: "length src = length dst \<Longrightarrow> memcpy dst 0 src = src"
  by (simp add: memcpy_def)

lemma take_memcpy_prefix: "n \<le> off \<Longrightarrow> off \<le> length dst \<Longrightarrow> take n (memcpy dst off src) = take n dst"
  by (simp add: memcpy_def)

lemma take_memcpy_end:
  "off \<le> length dst \<Longrightarrow> n = off + length src \<Longrightarrow> take n (memcpy dst off src) = take off dst @ src"
  by (simp add: memcpy_def)

lemma memcpy_Nil [simp]: "memcpy dst off [] = dst"
  by (simp add: memcpy_def)

section \<open>Lists\<close>

lemma nths_explicit_8:
  "length xs = 8 \<Longrightarrow> xs = [xs ! 0, xs ! 1, xs ! 2, xs ! 3, xs ! 4, xs ! 5, xs ! 6, xs ! 7]"
  by (rule nth_equalityI) (auto simp: less_Suc_eq numeral_eq_Suc)

lemma drop_take_append_self: "n \<le> length xs \<Longrightarrow> take n xs @ drop n xs = xs"
  by simp

lemma take_drop_split: "n \<le> m \<Longrightarrow> take m xs = take n xs @ take (m - n) (drop n xs)"
  by (metis append_take_drop_id le_add_diff_inverse take_add)

section \<open>Powers of two\<close>

definition is_pow2 :: "nat \<Rightarrow> bool" where
  "is_pow2 n \<longleftrightarrow> (\<exists>k. n = 2 ^ k)"

lemma is_pow2_I [intro]: "is_pow2 (2 ^ k)"
  by (auto simp: is_pow2_def)

lemma is_pow2_1 [simp]: "is_pow2 (Suc 0)" "is_pow2 1"
  by (auto simp: is_pow2_def intro: exI [of _ 0])

lemma is_pow2_pos [dest]: "is_pow2 n \<Longrightarrow> 0 < n"
  by (auto simp: is_pow2_def)

lemma is_pow2_mult: "is_pow2 a \<Longrightarrow> is_pow2 b \<Longrightarrow> is_pow2 (a * b)"
  by (auto simp: is_pow2_def simp flip: power_add)

lemma is_pow2_double [simp]: "is_pow2 (2 * n) \<longleftrightarrow> is_pow2 n"
proof
  assume "is_pow2 (2 * n)"
  then obtain k where k: "2 * n = 2 ^ k" by (auto simp: is_pow2_def)
  then have "k \<noteq> 0" by (cases k) auto
  then obtain j where "k = Suc j" using not0_implies_Suc by blast
  with k show "is_pow2 n" by (auto simp: is_pow2_def)
next
  assume "is_pow2 n"
  then obtain k where "n = 2 ^ k" by (auto simp: is_pow2_def)
  then have "2 * n = 2 ^ Suc k" by simp
  then show "is_pow2 (2 * n)" unfolding is_pow2_def by blast
qed

lemma pow2_dvd: "is_pow2 a \<Longrightarrow> is_pow2 b \<Longrightarrow> a \<le> b \<Longrightarrow> a dvd b"
  by (auto simp: is_pow2_def le_imp_power_dvd power_increasing_iff)

lemma pow2_less_double:
  assumes "is_pow2 a" "is_pow2 b" "a < b"
  shows "2 * a \<le> b"
proof -
  obtain i j where ij: "a = 2 ^ i" "b = 2 ^ j" using assms by (auto simp: is_pow2_def)
  with assms(3) have "Suc i \<le> j" by (simp add: power_strict_increasing_iff)
  then have "(2 :: nat) ^ Suc i \<le> 2 ^ j" by (intro power_increasing) auto
  then show ?thesis by (simp add: ij)
qed

lemma pow2_unique:
  assumes "is_pow2 a" "is_pow2 b" "a < 2 * b" "b < 2 * a"
  shows "a = b"
proof -
  obtain i j where ij: "a = 2 ^ i" "b = 2 ^ j" using assms by (auto simp: is_pow2_def)
  with assms have "(2::nat) ^ i < 2 ^ Suc j" "(2::nat) ^ j < 2 ^ Suc i" by auto
  then have "i < Suc j" "j < Suc i" by (auto simp only: power_strict_increasing_iff)
  with ij show ?thesis by simp
qed

text \<open>The largest power of two that is at most \<open>n\<close> (1 for 0): the reference for the bit tricks
  of \<open>blake3_impl.h\<close> and the shape of the hash tree.\<close>

fun floor_pow2 :: "nat \<Rightarrow> nat" where
  "floor_pow2 n = (if n \<le> 1 then 1 else 2 * floor_pow2 (n div 2))"

declare floor_pow2.simps [simp del]

lemma is_pow2_floor_pow2 [simp]: "is_pow2 (floor_pow2 n)"
proof (induction n rule: floor_pow2.induct)
  case (1 n)
  then show ?case by (cases "n \<le> 1") (simp_all add: floor_pow2.simps [of n])
qed

lemma floor_pow2_pos [simp]: "0 < floor_pow2 n"
  using is_pow2_floor_pow2 by (rule is_pow2_pos)

lemma floor_pow2_bounds:
  assumes "0 < n"
  shows "floor_pow2 n \<le> n \<and> n < 2 * floor_pow2 n"
  using assms
proof (induction n rule: floor_pow2.induct)
  case (1 n)
  show ?case
  proof (cases "n \<le> 1")
    case True
    with 1 show ?thesis by (simp add: floor_pow2.simps [of n])
  next
    case False
    then have "0 < n div 2" by simp
    with 1(1) [OF False] have "floor_pow2 (n div 2) \<le> n div 2 \<and> n div 2 < 2 * floor_pow2 (n div 2)"
      by blast
    then show ?thesis unfolding floor_pow2.simps [of n] using False by auto
  qed
qed

lemma floor_pow2_le: "0 < n \<Longrightarrow> floor_pow2 n \<le> n"
  and floor_pow2_gt: "0 < n \<Longrightarrow> n < 2 * floor_pow2 n"
  using floor_pow2_bounds by auto

lemma floor_pow2_eq:
  assumes "is_pow2 p" "p \<le> n" "n < 2 * p"
  shows "floor_pow2 n = p"
proof -
  have "0 < n" using assms by auto
  then have "floor_pow2 n \<le> n" "n < 2 * floor_pow2 n" by (simp_all add: floor_pow2_bounds)
  then show ?thesis using assms by (intro pow2_unique) auto
qed

lemma floor_pow2_pow2 [simp]: "is_pow2 p \<Longrightarrow> floor_pow2 p = p"
  by (rule floor_pow2_eq) auto

section \<open>Words\<close>

lemma bit_word_nat: "bit x n \<longleftrightarrow> odd (unat x div 2 ^ n)" for x :: "'a::len word"
proof -
  have "bit x n \<longleftrightarrow> bit (unat x) n" by (simp add: bit_unsigned_iff)
  then show ?thesis by (simp only: bit_iff_odd [of "unat x"])
qed

lemma bit_unat: "bit (unat x) = bit x" for x :: "'a::len word"
  by (simp add: fun_eq_iff bit_unsigned_iff)

lemma bit_top_iff:
  fixes x :: "'a::len word"
  assumes "unat x < 2 ^ Suc n"
  shows "bit x n \<longleftrightarrow> 2 ^ n \<le> unat x"
proof -
  have "unat x div 2 ^ n < 2" using assms by (simp add: less_mult_imp_div_less)
  moreover have "unat x div 2 ^ n = 0 \<longleftrightarrow> unat x < 2 ^ n" by (simp add: div_eq_0_iff)
  ultimately show ?thesis unfolding bit_word_nat
    by (metis One_nat_def dvd_0_right less_2_cases_iff not_less odd_one)
qed

lemma bit_small: "unat x < 2 ^ n \<Longrightarrow> \<not> bit x n" for x :: "'a::len word"
  by (simp add: bit_word_nat)

lemma unat_drop_bit_div: "unat (drop_bit k x) = unat x div 2 ^ k" for x :: "'a::len word"
  by (simp only: unat_drop_bit_eq drop_bit_nat_def)

lemma drop_bit_eq_0_iff: "drop_bit k x = 0 \<longleftrightarrow> unat x < 2 ^ k" for x :: "'a::len word"
proof -
  have "drop_bit k x = 0 \<longleftrightarrow> unat (drop_bit k x) = 0" by (simp add: unat_eq_zero)
  then show ?thesis by (simp add: unat_drop_bit_div div_eq_0_iff)
qed

end
