(* ===== verification/Blake3_Impl.thy ===== *)
theory Blake3_Impl
  imports Prelude
begin

unbundle bit_operations_syntax

text \<open>
  The inline helpers and constants of \<open>blake3_impl.h\<close> and \<open>blake3.h\<close>: flag values, the IV and
  the message schedule, the bit tricks (\<open>highest_one\<close>, \<open>popcnt\<close>,
  \<open>round_down_to_power_of_2\<close>) in both their compiler-builtin and their plain C variants, and the
  little-endian loads and stores. The lemmas show that the two variants of each bit trick agree
  and compute the highest set bit and the number of set bits, that rounding down is the
  largest power of two below its argument, and that loads and stores are inverse to each other.
\<close>

section \<open>Constants\<close>

text \<open>\<open>enum blake3_flags\<close>; every use is or-ed into a \<open>uint8_t\<close>.\<close>

definition CHUNK_START :: byte where "CHUNK_START = 1"
definition CHUNK_END :: byte where "CHUNK_END = 2"
definition PARENT :: byte where "PARENT = 4"
definition ROOT :: byte where "ROOT = 8"
definition KEYED_HASH :: byte where "KEYED_HASH = 16"
definition DERIVE_KEY_CONTEXT :: byte where "DERIVE_KEY_CONTEXT = 32"
definition DERIVE_KEY_MATERIAL :: byte where "DERIVE_KEY_MATERIAL = 64"

text \<open>The sizes of \<open>blake3.h\<close>.\<close>

abbreviation (input) BLAKE3_KEY_LEN :: nat where "BLAKE3_KEY_LEN \<equiv> 32"
abbreviation (input) BLAKE3_OUT_LEN :: nat where "BLAKE3_OUT_LEN \<equiv> 32"
abbreviation (input) BLAKE3_BLOCK_LEN :: nat where "BLAKE3_BLOCK_LEN \<equiv> 64"
abbreviation (input) BLAKE3_CHUNK_LEN :: nat where "BLAKE3_CHUNK_LEN \<equiv> 1024"
abbreviation (input) BLAKE3_MAX_DEPTH :: nat where "BLAKE3_MAX_DEPTH \<equiv> 54"

definition IV :: "u32 list" where
  "IV = [0x6A09E667, 0xBB67AE85, 0x3C6EF372, 0xA54FF53A,
         0x510E527F, 0x9B05688C, 0x1F83D9AB, 0x5BE0CD19]"

definition MSG_SCHEDULE :: "nat list list" where
  "MSG_SCHEDULE = [
    [0, 1, 2, 3, 4, 5, 6, 7, 8, 9, 10, 11, 12, 13, 14, 15],
    [2, 6, 3, 10, 7, 0, 4, 13, 1, 11, 12, 5, 9, 14, 15, 8],
    [3, 4, 10, 12, 13, 2, 7, 14, 6, 5, 9, 0, 11, 15, 8, 1],
    [10, 7, 12, 9, 14, 3, 13, 15, 4, 0, 11, 2, 5, 8, 1, 6],
    [12, 13, 9, 11, 15, 10, 14, 8, 7, 2, 5, 3, 0, 1, 6, 4],
    [9, 14, 11, 5, 8, 12, 15, 1, 13, 3, 0, 10, 2, 6, 4, 7],
    [11, 15, 5, 0, 1, 9, 8, 6, 14, 10, 2, 12, 3, 4, 7, 13]]"

section \<open>Bit tricks\<close>

text \<open>
  \<open>__builtin_clzll\<close> counts the leading zero bits of a nonzero 64-bit value: \<open>clz_below n x\<close>
  looks at the bits below \<open>n\<close>, from the top down.
\<close>

fun clz_below :: "nat \<Rightarrow> u64 \<Rightarrow> nat" where
  "clz_below 0 x = 0"
| "clz_below (Suc n) x = (if bit x n then 0 else Suc (clz_below n x))"

definition builtin_clzll :: "u64 \<Rightarrow> nat" where
  "builtin_clzll x = clz_below 64 x"

text \<open>\<open>highest_one\<close>, first with the GCC builtin, then the branch for other compilers.\<close>

definition highest_one :: "u64 \<Rightarrow> nat" where
  "highest_one x = 63 XOR builtin_clzll x"

definition highest_one_generic :: "u64 \<Rightarrow> nat" where
  "highest_one_generic x =
     (let (x, c) = (if x AND 0xffffffff00000000 \<noteq> 0 then (drop_bit 32 x, 32) else (x, 0));
          (x, c) = (if x AND 0x00000000ffff0000 \<noteq> 0 then (drop_bit 16 x, c + 16) else (x, c));
          (x, c) = (if x AND 0x000000000000ff00 \<noteq> 0 then (drop_bit 8 x, c + 8) else (x, c));
          (x, c) = (if x AND 0x00000000000000f0 \<noteq> 0 then (drop_bit 4 x, c + 4) else (x, c));
          (x, c) = (if x AND 0x000000000000000c \<noteq> 0 then (drop_bit 2 x, c + 2) else (x, c));
          c = (if x AND 0x0000000000000002 \<noteq> 0 then c + 1 else c)
      in c)"

text \<open>\<open>popcnt\<close>: \<open>__builtin_popcountll\<close> is the number of set bits; the other branch clears the
  lowest set bit until none is left.\<close>

definition popcnt :: "u64 \<Rightarrow> nat" where
  "popcnt x = length (filter (bit x) [0..<64])"

lemma word_and_minus_one_less:
  fixes x :: u64
  assumes "x \<noteq> 0"
  shows "unat (x AND (x - 1)) < unat x"
proof -
  have "unat (x AND (x - 1)) \<le> unat (x - 1)"
    by (simp add: word_and_le1 flip: word_le_nat_alt)
  also have "\<dots> < unat x" using assms by (simp add: unat_minus_one unat_gt_0)
  finally show ?thesis .
qed

function popcnt_loop :: "nat \<Rightarrow> u64 \<Rightarrow> nat" where
  "popcnt_loop count x = (if x \<noteq> 0 then popcnt_loop (count + 1) (x AND (x - 1)) else count)"
  by pat_completeness auto
termination
  by (relation "measure (\<lambda>(count, x). unat x)") (auto simp: word_and_minus_one_less)

declare popcnt_loop.simps [simp del]

definition popcnt_generic :: "u64 \<Rightarrow> nat" where
  "popcnt_generic x = popcnt_loop 0 x"

definition round_down_to_power_of_2 :: "u64 \<Rightarrow> u64" where
  "round_down_to_power_of_2 x = push_bit (highest_one (x OR 1)) 1"

definition counter_low :: "u64 \<Rightarrow> u32" where
  "counter_low counter = ucast counter"

definition counter_high :: "u64 \<Rightarrow> u32" where
  "counter_high counter = ucast (drop_bit 32 counter)"

section \<open>Loads and stores\<close>

definition load32 :: "byte list \<Rightarrow> u32" where
  "load32 p = push_bit 0 (ucast (p ! 0)) OR push_bit 8 (ucast (p ! 1)) OR
              push_bit 16 (ucast (p ! 2)) OR push_bit 24 (ucast (p ! 3))"

definition load_key_words :: "byte list \<Rightarrow> u32 list" where
  "load_key_words key =
     [load32 (drop (0 * 4) key), load32 (drop (1 * 4) key), load32 (drop (2 * 4) key),
      load32 (drop (3 * 4) key), load32 (drop (4 * 4) key), load32 (drop (5 * 4) key),
      load32 (drop (6 * 4) key), load32 (drop (7 * 4) key)]"

definition load_block_words :: "byte list \<Rightarrow> u32 list" where
  "load_block_words block = map (\<lambda>i. load32 (drop (i * 4) block)) [0..<16]"

definition store32 :: "u32 \<Rightarrow> byte list" where
  "store32 w = [ucast (drop_bit 0 w), ucast (drop_bit 8 w), ucast (drop_bit 16 w), ucast (drop_bit 24 w)]"

definition store_cv_words :: "u32 list \<Rightarrow> byte list" where
  "store_cv_words cv = store32 (cv ! 0) @ store32 (cv ! 1) @ store32 (cv ! 2) @ store32 (cv ! 3) @
     store32 (cv ! 4) @ store32 (cv ! 5) @ store32 (cv ! 6) @ store32 (cv ! 7)"

section \<open>Lemmas: constants and lengths\<close>

lemma length_IV [simp, len_simps]: "length IV = 8"
  by (simp add: IV_def)

lemma length_MSG_SCHEDULE [simp, len_simps]: "length MSG_SCHEDULE = 7"
  by (simp add: MSG_SCHEDULE_def)

lemma MSG_SCHEDULE_rows: "row \<in> set MSG_SCHEDULE \<Longrightarrow> length row = 16 \<and> (\<forall>i \<in> set row. i < 16)"
  by (auto simp: MSG_SCHEDULE_def)

lemma length_MSG_SCHEDULE_row [simp]: "r < 7 \<Longrightarrow> length (MSG_SCHEDULE ! r) = 16"
  using MSG_SCHEDULE_rows [of "MSG_SCHEDULE ! r"] by simp

lemma MSG_SCHEDULE_less [simp]: "r < 7 \<Longrightarrow> i < 16 \<Longrightarrow> MSG_SCHEDULE ! r ! i < 16"
  using MSG_SCHEDULE_rows [of "MSG_SCHEDULE ! r"] by (simp add: nth_mem)

lemma length_load_key_words [simp, len_simps]: "length (load_key_words key) = 8"
  by (simp add: load_key_words_def)

lemma length_load_block_words [simp, len_simps]: "length (load_block_words block) = 16"
  by (simp add: load_block_words_def)

lemma length_store32 [simp, len_simps]: "length (store32 w) = 4"
  by (simp add: store32_def)

lemma length_store_cv_words [simp, len_simps]: "length (store_cv_words cv) = 32"
  by (simp add: store_cv_words_def)

section \<open>Lemmas: loads and stores\<close>

lemma load32_store32 [simp]: "load32 (store32 w @ rest) = w"
proof (rule bit_word_eqI)
  fix n assume "n < LENGTH(32)"
  then have n: "n < 32" by simp
  consider "n < 8" | "8 \<le> n \<and> n < 16" | "16 \<le> n \<and> n < 24" | "24 \<le> n \<and> n < 32"
    using n by linarith
  then show "bit (load32 (store32 w @ rest)) n \<longleftrightarrow> bit w n"
    by cases (auto simp: load32_def store32_def bit_simps)
qed

lemma store32_load32:
  assumes "length p = 4"
  shows "store32 (load32 p) = p"
proof -
  obtain a b c d where p: "p = [a, b, c, d]"
    using assms by (auto simp: numeral_eq_Suc length_Suc_conv)
  have "ucast (drop_bit 0 (load32 p)) = a"
    by (rule bit_word_eqI) (auto simp: p load32_def bit_simps)
  moreover have "ucast (drop_bit 8 (load32 p)) = b"
    by (rule bit_word_eqI) (auto simp: p load32_def bit_simps dest: bit_imp_le_length)
  moreover have "ucast (drop_bit 16 (load32 p)) = c"
    by (rule bit_word_eqI) (auto simp: p load32_def bit_simps dest: bit_imp_le_length)
  moreover have "ucast (drop_bit 24 (load32 p)) = d"
    by (rule bit_word_eqI) (auto simp: p load32_def bit_simps dest: bit_imp_le_length)
  ultimately show ?thesis by (simp add: store32_def p)
qed

lemma load_key_words_store_cv_words:
  assumes "length cv = 8"
  shows "load_key_words (store_cv_words cv) = cv"
proof -
  have "load_key_words (store_cv_words cv) =
      [cv ! 0, cv ! 1, cv ! 2, cv ! 3, cv ! 4, cv ! 5, cv ! 6, cv ! 7]"
    by (simp add: load_key_words_def store_cv_words_def load32_store32 [where rest = "[]", simplified])
  then show ?thesis using nths_explicit_8 [OF assms] by simp
qed

section \<open>Lemmas: bit tricks\<close>

lemma clz_below_bounds:
  assumes "unat x < 2 ^ n" "x \<noteq> 0"
  shows "clz_below n x < n \<and> 2 ^ (n - 1 - clz_below n x) \<le> unat x \<and> unat x < 2 ^ (n - clz_below n x)"
  using assms
proof (induction n)
  case 0
  then show ?case by (simp add: unat_eq_zero)
next
  case (Suc n)
  show ?case
  proof (cases "bit x n")
    case True
    with Suc.prems show ?thesis by (simp add: bit_top_iff)
  next
    case False
    with Suc.prems have "unat x < 2 ^ n" by (simp add: bit_top_iff not_le)
    with Suc show ?thesis using False by auto
  qed
qed

lemma xor_63: "c < 64 \<Longrightarrow> (63::nat) XOR c = 63 - c"
proof -
  have "\<forall>c \<in> set [0..<64]. (63::nat) XOR c = 63 - c" by code_simp
  then show "c < 64 \<Longrightarrow> (63::nat) XOR c = 63 - c" by simp
qed

lemma highest_one_bounds:
  assumes "x \<noteq> 0"
  shows "2 ^ highest_one x \<le> unat x \<and> unat x < 2 ^ Suc (highest_one x)"
proof -
  have "unat x < 2 ^ 64" using unsigned_less [of x] by simp
  note c = clz_below_bounds [OF this assms]
  then have "64 - clz_below 64 x = Suc (63 - clz_below 64 x)" by arith
  with c show ?thesis by (simp add: highest_one_def builtin_clzll_def xor_63)
qed

lemma highest_one_eqI:
  assumes "2 ^ c \<le> unat x" "unat x < 2 ^ Suc c"
  shows "highest_one x = c"
proof -
  have "x \<noteq> 0" using assms by (auto simp: unat_eq_zero)
  note h = highest_one_bounds [OF this]
  have "2 ^ c < (2::nat) ^ Suc (highest_one x)" "2 ^ highest_one x < (2::nat) ^ Suc c"
    using h assms by linarith+
  then show ?thesis by (auto simp only: power_strict_increasing_iff)
qed

lemma and_high_mask:
  fixes x :: u64
  assumes "unat x < 2 ^ (k + k)"
  shows "x AND push_bit k (mask k) = 0 \<longleftrightarrow> unat x < 2 ^ k"
proof -
  have big: "\<not> bit x (k + n)" if "k \<le> n" for n
    by (rule bit_small) (use assms that in \<open>meson add_left_mono less_le_trans one_le_numeral power_increasing\<close>)
  have "x AND push_bit k (mask k) = 0 \<longleftrightarrow> (\<forall>n. \<not> bit x (k + n))"
  proof
    assume z: "x AND push_bit k (mask k) = 0"
    show "\<forall>n. \<not> bit x (k + n)"
    proof
      fix n
      have "\<not> bit (x AND push_bit k (mask k)) (k + n)" by (simp add: z)
      then show "\<not> bit x (k + n)" using big [of n]
        by (cases "k \<le> n") (auto simp: bit_simps dest: bit_imp_le_length)
    qed
  next
    assume "\<forall>n. \<not> bit x (k + n)"
    then have "\<not> bit x n" if "k \<le> n" for n using that by (metis le_add_diff_inverse)
    then show "x AND push_bit k (mask k) = 0"
      by (intro bit_word_eqI) (auto simp: bit_simps)
  qed
  also have "\<dots> \<longleftrightarrow> drop_bit k x = 0"
  proof
    assume "\<forall>n. \<not> bit x (k + n)"
    then show "drop_bit k x = 0" by (intro bit_word_eqI) (simp add: bit_simps)
  next
    assume "drop_bit k x = 0"
    then have "\<not> bit (drop_bit k x) n" for n by simp
    then show "\<forall>n. \<not> bit x (k + n)" by (simp add: bit_drop_bit_eq)
  qed
  finally show ?thesis by (simp add: drop_bit_eq_0_iff)
qed

text \<open>The loop invariant of the shifting cascade.\<close>

definition high_part :: "u64 \<Rightarrow> nat \<Rightarrow> u64 \<times> nat \<Rightarrow> bool" where
  "high_part x0 j s \<longleftrightarrow> (case s of (x, c) \<Rightarrow> 0 < unat x \<and> unat x < 2 ^ j \<and> unat x = unat x0 div 2 ^ c)"

lemma high_part_step:
  assumes "high_part x0 (k + k) (x, c)" "m = push_bit k (mask k)"
  shows "high_part x0 k (if x AND m \<noteq> 0 then (drop_bit k x, c + k) else (x, c))"
proof (cases "x AND m = 0")
  case True
  with assms show ?thesis by (auto simp: high_part_def and_high_mask)
next
  case False
  with assms have x: "2 ^ k \<le> unat x" "unat x < 2 ^ k * 2 ^ k" "unat x = unat x0 div 2 ^ c"
    by (auto simp: high_part_def and_high_mask power_add)
  have "0 < unat x div 2 ^ k" using x(1) by (simp add: div_greater_zero_iff)
  moreover have "unat x div 2 ^ k < 2 ^ k" using x(2) by (simp add: less_mult_imp_div_less)
  moreover have "unat x div 2 ^ k = unat x0 div 2 ^ (c + k)"
    using x(3) by (simp add: div_mult2_eq power_add)
  ultimately show ?thesis using False by (simp add: high_part_def unat_drop_bit_div)
qed

lemma high_part_final:
  assumes "high_part x0 1 (x, c)"
  shows "2 ^ c \<le> unat x0 \<and> unat x0 < 2 ^ Suc c"
proof -
  have q: "unat x0 div 2 ^ c = 1" using assms by (auto simp: high_part_def)
  have "unat x0 = 2 ^ c * (unat x0 div 2 ^ c) + unat x0 mod 2 ^ c" by simp
  moreover have "unat x0 mod 2 ^ c < 2 ^ c" by simp
  ultimately show ?thesis unfolding q power_Suc by linarith
qed

lemma highest_one_generic_eq: "x \<noteq> 0 \<Longrightarrow> highest_one_generic x = highest_one x"
proof -
  assume x: "x \<noteq> 0"
  have h0: "high_part x (32 + 32) (x, 0)"
    using x unsigned_less [of x] by (simp add: high_part_def unat_gt_0)
  obtain x1 c1 where e1: "(if x AND 0xffffffff00000000 \<noteq> 0 then (drop_bit 32 x, 32) else (x, 0)) = (x1, c1::nat)"
    by (meson surj_pair)
  have h1: "high_part x (16 + 16) (x1, c1)"
    using high_part_step [OF h0, where m = "0xffffffff00000000"]
    unfolding add_0 e1 by (simp add: mask_eq_exp_minus_1)
  obtain x2 c2 where e2: "(if x1 AND 0xffff0000 \<noteq> 0 then (drop_bit 16 x1, c1 + 16) else (x1, c1)) = (x2, c2)"
    by (meson surj_pair)
  have h2: "high_part x (8 + 8) (x2, c2)"
    using high_part_step [OF h1, where m = "0xffff0000"] unfolding e2 by (simp add: mask_eq_exp_minus_1)
  obtain x3 c3 where e3: "(if x2 AND 0xff00 \<noteq> 0 then (drop_bit 8 x2, c2 + 8) else (x2, c2)) = (x3, c3)"
    by (meson surj_pair)
  have h3: "high_part x (4 + 4) (x3, c3)"
    using high_part_step [OF h2, where m = "0xff00"] unfolding e3 by (simp add: mask_eq_exp_minus_1)
  obtain x4 c4 where e4: "(if x3 AND 0xf0 \<noteq> 0 then (drop_bit 4 x3, c3 + 4) else (x3, c3)) = (x4, c4)"
    by (meson surj_pair)
  have h4: "high_part x (2 + 2) (x4, c4)"
    using high_part_step [OF h3, where m = "0xf0"] unfolding e4 by (simp add: mask_eq_exp_minus_1)
  obtain x5 c5 where e5: "(if x4 AND 0xc \<noteq> 0 then (drop_bit 2 x4, c4 + 2) else (x4, c4)) = (x5, c5)"
    by (meson surj_pair)
  have h5: "high_part x (1 + 1) (x5, c5)"
    using high_part_step [OF h4, where m = "0xc"] unfolding e5 by (simp add: mask_eq_exp_minus_1 numeral_2_eq_2)
  have "high_part x 1 (if x5 AND 2 \<noteq> 0 then (drop_bit 1 x5, c5 + 1) else (x5, c5))"
    using high_part_step [OF h5, where m = "2"] by (simp add: mask_eq_exp_minus_1)
  moreover have "highest_one_generic x = (if x5 AND 2 \<noteq> 0 then c5 + 1 else c5)"
    by (simp only: highest_one_generic_def Let_def e1 e2 e3 e4 e5 prod.case)
  ultimately obtain y where "high_part x 1 (y, highest_one_generic x)"
    by (cases "x5 AND 2 = 0") auto
  then show ?thesis using high_part_final highest_one_eqI by metis
qed

lemma unat_push_bit_1: "n < 64 \<Longrightarrow> unat (push_bit n (1::u64)) = 2 ^ n"
  by (simp add: push_bit_of_1 unsigned_of_nat [of "2 ^ n", simplified] take_bit_eq_mod)

lemma unat_or_1: "unat (x OR 1) = (if odd (unat x) then unat x else Suc (unat x))" for x :: u64
proof -
  have "unat (x OR 1) = unat x OR 1" by (simp only: unsigned_or_eq unsigned_1)
  then show ?thesis by (simp only: or_one_eq [of "unat x"]) simp
qed

lemma round_down_to_power_of_2_eq: "unat (round_down_to_power_of_2 x) = floor_pow2 (unat x)"
proof -
  have nz: "x OR 1 \<noteq> 0"
    using unat_or_1 [of x] by (auto simp: unat_eq_zero split: if_splits)
  let ?h = "highest_one (x OR 1)"
  have b: "2 ^ ?h \<le> unat (x OR 1)" "unat (x OR 1) < 2 ^ Suc ?h"
    using highest_one_bounds [OF nz] by auto
  have "unat (x OR 1) < 2 ^ 64" using unsigned_less [of "x OR 1"] by simp
  with b(1) have "(2::nat) ^ ?h < 2 ^ 64" by linarith
  then have "?h < 64" by (simp only: power_strict_increasing_iff)
  then have u: "unat (round_down_to_power_of_2 x) = 2 ^ ?h"
    unfolding round_down_to_power_of_2_def by (rule unat_push_bit_1)
  have "floor_pow2 (unat x) = 2 ^ ?h"
  proof (cases "unat x = 0")
    case True
    with unat_or_1 [of x] b have "(2::nat) ^ ?h = 1" by (simp add: le_Suc_eq)
    with True show ?thesis by (simp add: floor_pow2.simps)
  next
    case False
    have "2 ^ ?h \<noteq> Suc (unat x)" if "even (unat x)"
      using that False by (cases "?h") (simp, metis dvd_triv_left even_Suc power_Suc)
    then have "2 ^ ?h \<le> unat x" using b(1) unat_or_1 [of x] by (auto split: if_splits)
    then show ?thesis
      by (rule floor_pow2_eq [OF is_pow2_I]) (use b unat_or_1 [of x] in \<open>auto split: if_splits\<close>)
  qed
  with u show ?thesis by simp
qed

section \<open>popcount\<close>

fun pop :: "nat \<Rightarrow> nat" where
  "pop n = (if n = 0 then 0 else n mod 2 + pop (n div 2))"

declare pop.simps [simp del]

lemma pop_0 [simp]: "pop 0 = 0"
  by (simp add: pop.simps)

lemma pop_double: "pop (2 * n) = pop n"
  by (cases "n = 0") (simp_all add: pop.simps [of "2 * n"])

lemma pop_Suc_double: "pop (Suc (2 * n)) = Suc (pop n)"
  by (simp add: pop.simps [of "Suc (2 * n)"])

lemma pop_filter: "n < 2 ^ k \<Longrightarrow> length (filter (bit n) [0..<k]) = pop n"
proof (induction k arbitrary: n)
  case 0
  then show ?case by simp
next
  case (Suc k)
  have "[0..<Suc k] = 0 # map Suc [0..<k]" by (metis upt_conv_Cons map_Suc_upt zero_less_Suc)
  then have "length (filter (bit n) [0..<Suc k]) =
      n mod 2 + length (filter (bit (n div 2)) [0..<k])"
    by (simp add: filter_map comp_def bit_0 bit_Suc flip: odd_iff_mod_2_eq_one)
      (simp add: odd_iff_mod_2_eq_one)
  also have "\<dots> = n mod 2 + pop (n div 2)" using Suc by simp
  also have "\<dots> = pop n" by (simp add: pop.simps [of n])
  finally show ?case .
qed

lemma popcnt_pop: "popcnt x = pop (unat x)"
proof -
  have "unat x < 2 ^ 64" using unsigned_less [of x] by simp
  from pop_filter [OF this] show ?thesis by (simp add: popcnt_def bit_unat)
qed

lemma and_pred_double: "(2 * n) AND (2 * n - 1) = 2 * (n AND (n - 1))" if "0 < n" for n :: nat
proof -
  have "2 * n - 1 = Suc (2 * (n - 1))" using that by simp
  then show ?thesis
    by (simp add: and_rec [of "2 * n"])
qed

lemma pop_and_pred: "0 < n \<Longrightarrow> pop n = Suc (pop (n AND (n - 1)))"
proof (induction n rule: pop.induct)
  case (1 n)
  show ?case
  proof (cases "even n")
    case True
    then obtain m where m: "n = 2 * m" by auto
    with 1 show ?thesis using and_pred_double [of m] by (simp add: pop_double)
  next
    case False
    then obtain m where m: "n = Suc (2 * m)" by (metis oddE Suc_eq_plus1)
    have "n AND (n - 1) = 2 * m" by (simp add: m and_rec [of "Suc (2 * m)"])
    with m show ?thesis by (simp add: pop_double pop_Suc_double)
  qed
qed

lemma popcnt_loop_eq: "popcnt_loop count x = count + popcnt x"
proof (induction count x rule: popcnt_loop.induct)
  case (1 count x)
  show ?case
  proof (cases "x = 0")
    case True
    then show ?thesis by (simp add: popcnt_loop.simps popcnt_pop)
  next
    case False
    have "unat (x AND (x - 1)) = unat x AND (unat x - 1)"
      using False by (simp add: unsigned_and_eq unat_minus_one)
    then have "popcnt x = Suc (popcnt (x AND (x - 1)))"
      unfolding popcnt_pop using False by (simp add: pop_and_pred unat_gt_0)
    with 1 False show ?thesis by (simp add: popcnt_loop.simps [of count x])
  qed
qed

lemma popcnt_generic_eq: "popcnt_generic x = popcnt x"
  by (simp add: popcnt_generic_def popcnt_loop_eq)

section \<open>Properties\<close>

text \<open>C22. The portable branch of \<open>highest_one\<close>, a binary search with masks and shifts, computes what the
  count-leading-zeros branch computes: the index of the highest set bit.\<close>

theorem highest_one_branches_agree:
  assumes "x \<noteq> 0"
  shows "highest_one_generic x = highest_one x \<and> 2 ^ highest_one x \<le> unat x \<and> unat x < 2 ^ Suc (highest_one x)"
  using assms highest_one_generic_eq highest_one_bounds by auto

theorem highest_one_branches_agree_witness:
  "highest_one_generic 0x8000000000 = highest_one 0x8000000000 \<and> 2 ^ highest_one 0x8000000000 \<le> (2 ^ 39 :: nat)"
  using highest_one_branches_agree [of "0x8000000000"] by simp

text \<open>The portable branch of \<open>popcnt\<close>, which clears the lowest set bit until none is left, ends and
  counts the set bits.\<close>

theorem popcnt_branches_agree:
  "popcnt_generic x = length (filter (bit x) [0..<64])"
  by (simp add: popcnt_generic_eq popcnt_def)

text \<open>\<open>round_down_to_power_of_2\<close> returns the largest power of two that is at most its argument, and 1
  for 0.\<close>

theorem round_down_to_power_of_2_spec:
  "\<exists>k. unat (round_down_to_power_of_2 x) = 2 ^ k \<and>
     (if x = 0 then k = 0 else 2 ^ k \<le> unat x \<and> unat x < 2 ^ Suc k)"
proof -
  obtain k where k: "floor_pow2 (unat x) = 2 ^ k" using is_pow2_floor_pow2 by (auto simp: is_pow2_def)
  show ?thesis
  proof (cases "x = 0")
    case True
    then have "k = 0" using k by (cases k) (simp_all add: floor_pow2.simps [of 0])
    then show ?thesis using True k by (simp add: round_down_to_power_of_2_eq)
  next
    case False
    then have "0 < unat x" by (simp add: unat_gt_0)
    from floor_pow2_bounds [OF this] show ?thesis using False k
      by (intro exI [of _ k]) (simp add: round_down_to_power_of_2_eq)
  qed
qed


end
