(* ===== verification/Blake3_Portable.thy ===== *)
theory Blake3_Portable
  imports Blake3_Impl
begin

unbundle bit_operations_syntax

text \<open>
  The portable compression function, \<open>blake3_portable.c\<close>: the quarter round \<open>g\<close>, one round, the
  seven rounds over a block, the in-place and the extended-output compression, and
  \<open>hash_many\<close> over several inputs. A \<open>uint32_t state[16]\<close> that the C code mutates is a list of
  16 words passed along; a function that fills an output buffer returns the bytes it writes.
\<close>

section \<open>Operations\<close>

definition rotr32 :: "u32 \<Rightarrow> nat \<Rightarrow> u32" where
  "rotr32 w c = drop_bit c w OR push_bit (32 - c) w"

definition g :: "u32 list \<Rightarrow> nat \<Rightarrow> nat \<Rightarrow> nat \<Rightarrow> nat \<Rightarrow> u32 \<Rightarrow> u32 \<Rightarrow> u32 list" where
  "g state a b c d x y =
     (let state = state[a := state ! a + state ! b + x];
          state = state[d := rotr32 (state ! d XOR state ! a) 16];
          state = state[c := state ! c + state ! d];
          state = state[b := rotr32 (state ! b XOR state ! c) 12];
          state = state[a := state ! a + state ! b + y];
          state = state[d := rotr32 (state ! d XOR state ! a) 8];
          state = state[c := state ! c + state ! d];
          state = state[b := rotr32 (state ! b XOR state ! c) 7]
      in state)"

definition round_fn :: "u32 list \<Rightarrow> u32 list \<Rightarrow> nat \<Rightarrow> u32 list" where
  "round_fn state msg round =
     (let schedule = MSG_SCHEDULE ! round;
          state = g state 0 4 8 12 (msg ! (schedule ! 0)) (msg ! (schedule ! 1));
          state = g state 1 5 9 13 (msg ! (schedule ! 2)) (msg ! (schedule ! 3));
          state = g state 2 6 10 14 (msg ! (schedule ! 4)) (msg ! (schedule ! 5));
          state = g state 3 7 11 15 (msg ! (schedule ! 6)) (msg ! (schedule ! 7));
          state = g state 0 5 10 15 (msg ! (schedule ! 8)) (msg ! (schedule ! 9));
          state = g state 1 6 11 12 (msg ! (schedule ! 10)) (msg ! (schedule ! 11));
          state = g state 2 7 8 13 (msg ! (schedule ! 12)) (msg ! (schedule ! 13));
          state = g state 3 4 9 14 (msg ! (schedule ! 14)) (msg ! (schedule ! 15))
      in state)"

definition compress_pre :: "u32 list \<Rightarrow> byte list \<Rightarrow> byte \<Rightarrow> u64 \<Rightarrow> byte \<Rightarrow> u32 list" where
  "compress_pre cv block block_len counter flags =
     (let block_words = [
            load32 (drop (4 * 0) block), load32 (drop (4 * 1) block),
            load32 (drop (4 * 2) block), load32 (drop (4 * 3) block),
            load32 (drop (4 * 4) block), load32 (drop (4 * 5) block),
            load32 (drop (4 * 6) block), load32 (drop (4 * 7) block),
            load32 (drop (4 * 8) block), load32 (drop (4 * 9) block),
            load32 (drop (4 * 10) block), load32 (drop (4 * 11) block),
            load32 (drop (4 * 12) block), load32 (drop (4 * 13) block),
            load32 (drop (4 * 14) block), load32 (drop (4 * 15) block)];
          state = [
            cv ! 0, cv ! 1, cv ! 2, cv ! 3, cv ! 4, cv ! 5, cv ! 6, cv ! 7,
            IV ! 0, IV ! 1, IV ! 2, IV ! 3,
            counter_low counter, counter_high counter, ucast block_len, ucast flags];
          state = round_fn state block_words 0;
          state = round_fn state block_words 1;
          state = round_fn state block_words 2;
          state = round_fn state block_words 3;
          state = round_fn state block_words 4;
          state = round_fn state block_words 5;
          state = round_fn state block_words 6
      in state)"

definition blake3_compress_in_place_portable ::
    "u32 list \<Rightarrow> byte list \<Rightarrow> byte \<Rightarrow> u64 \<Rightarrow> byte \<Rightarrow> u32 list" where
  "blake3_compress_in_place_portable cv block block_len counter flags =
     (let state = compress_pre cv block block_len counter flags
      in [state ! 0 XOR state ! 8, state ! 1 XOR state ! 9,
          state ! 2 XOR state ! 10, state ! 3 XOR state ! 11,
          state ! 4 XOR state ! 12, state ! 5 XOR state ! 13,
          state ! 6 XOR state ! 14, state ! 7 XOR state ! 15])"

definition blake3_compress_xof_portable ::
    "u32 list \<Rightarrow> byte list \<Rightarrow> byte \<Rightarrow> u64 \<Rightarrow> byte \<Rightarrow> byte list" where
  "blake3_compress_xof_portable cv block block_len counter flags =
     (let state = compress_pre cv block block_len counter flags
      in store32 (state ! 0 XOR state ! 8) @ store32 (state ! 1 XOR state ! 9) @
         store32 (state ! 2 XOR state ! 10) @ store32 (state ! 3 XOR state ! 11) @
         store32 (state ! 4 XOR state ! 12) @ store32 (state ! 5 XOR state ! 13) @
         store32 (state ! 6 XOR state ! 14) @ store32 (state ! 7 XOR state ! 15) @
         store32 (state ! 8 XOR cv ! 0) @ store32 (state ! 9 XOR cv ! 1) @
         store32 (state ! 10 XOR cv ! 2) @ store32 (state ! 11 XOR cv ! 3) @
         store32 (state ! 12 XOR cv ! 4) @ store32 (state ! 13 XOR cv ! 5) @
         store32 (state ! 14 XOR cv ! 6) @ store32 (state ! 15 XOR cv ! 7))"

text \<open>The loop of \<open>hash_one_portable\<close>, on the number of blocks that are left.\<close>

fun hash_one_loop :: "nat \<Rightarrow> u32 list \<Rightarrow> byte list \<Rightarrow> u64 \<Rightarrow> byte \<Rightarrow> byte \<Rightarrow> byte \<Rightarrow> u32 list" where
  "hash_one_loop 0 cv input counter flags block_flags flags_end = cv"
| "hash_one_loop (Suc blocks) cv input counter flags block_flags flags_end =
     (let block_flags = (if Suc blocks = 1 then block_flags OR flags_end else block_flags);
          cv = blake3_compress_in_place_portable cv input (of_nat BLAKE3_BLOCK_LEN) counter block_flags
      in hash_one_loop blocks cv (drop BLAKE3_BLOCK_LEN input) counter flags flags flags_end)"

definition hash_one_portable ::
    "byte list \<Rightarrow> nat \<Rightarrow> u32 list \<Rightarrow> u64 \<Rightarrow> byte \<Rightarrow> byte \<Rightarrow> byte \<Rightarrow> byte list" where
  "hash_one_portable input blocks key counter flags flags_start flags_end =
     store_cv_words (hash_one_loop blocks key input counter flags (flags OR flags_start) flags_end)"

fun blake3_hash_many_portable ::
    "byte list list \<Rightarrow> nat \<Rightarrow> u32 list \<Rightarrow> u64 \<Rightarrow> bool \<Rightarrow> byte \<Rightarrow> byte \<Rightarrow> byte \<Rightarrow> byte list" where
  "blake3_hash_many_portable [] blocks key counter increment_counter flags flags_start flags_end = []"
| "blake3_hash_many_portable (input # inputs) blocks key counter increment_counter flags flags_start flags_end =
     hash_one_portable input blocks key counter flags flags_start flags_end @
     blake3_hash_many_portable inputs blocks key (if increment_counter then counter + 1 else counter)
       increment_counter flags flags_start flags_end"

section \<open>Lengths\<close>

lemma length_g [simp, len_simps]: "length (g state a b c d x y) = length state"
  by (simp add: g_def Let_def)

lemma length_round_fn [simp, len_simps]: "length (round_fn state msg r) = length state"
  by (simp add: round_fn_def Let_def)

lemma length_compress_pre [simp, len_simps]: "length (compress_pre cv block bl counter flags) = 16"
  by (simp add: compress_pre_def Let_def)

lemma length_compress_in_place_portable [simp, len_simps]:
  "length (blake3_compress_in_place_portable cv block bl counter flags) = 8"
  by (simp add: blake3_compress_in_place_portable_def Let_def)

lemma length_compress_xof_portable [simp, len_simps]:
  "length (blake3_compress_xof_portable cv block bl counter flags) = 64"
  by (simp add: blake3_compress_xof_portable_def Let_def)

lemma length_hash_one_loop [simp, len_simps]:
  "length key = 8 \<Longrightarrow> length (hash_one_loop n key input counter flags bf fe) = 8"
  by (induction n arbitrary: key input bf) (auto simp: Let_def)

lemma length_hash_one_portable [simp, len_simps]:
  "length (hash_one_portable input blocks key counter flags fs fe) = 32"
  by (simp add: hash_one_portable_def)

lemma length_hash_many_portable [simp, len_simps]:
  "length (blake3_hash_many_portable inputs blocks key counter inc flags fs fe) = 32 * length inputs"
  by (induction inputs arbitrary: counter) auto

section \<open>Compression\<close>

text \<open>The chaining value is the first half of the extended output.\<close>

lemma compress_xof_prefix:
  "take 32 (blake3_compress_xof_portable cv block bl counter flags) =
   store_cv_words (blake3_compress_in_place_portable cv block bl counter flags)"
  by (simp add: blake3_compress_xof_portable_def blake3_compress_in_place_portable_def
      store_cv_words_def Let_def)

text \<open>Only the first 64 bytes behind the block pointer are read.\<close>

lemma load32_take: "4 \<le> n \<Longrightarrow> load32 (take n p) = load32 p"
  by (simp add: load32_def)

lemma compress_pre_take:
  assumes "64 \<le> n"
  shows "compress_pre cv (take n block) bl counter flags = compress_pre cv block bl counter flags"
proof -
  have "load32 (drop (4 * i) (take n block)) = load32 (drop (4 * i) block)" if "i < 16" for i
    using assms that by (simp add: drop_take load32_take)
  from this [of 0] this [of 1] this [of 2] this [of 3] this [of 4] this [of 5] this [of 6]
    this [of 7] this [of 8] this [of 9] this [of 10] this [of 11] this [of 12] this [of 13]
    this [of 14] this [of 15]
  show ?thesis by (simp add: compress_pre_def)
qed

lemma compress_in_place_take:
  "64 \<le> n \<Longrightarrow> blake3_compress_in_place_portable cv (take n block) bl counter flags =
     blake3_compress_in_place_portable cv block bl counter flags"
  by (simp add: blake3_compress_in_place_portable_def compress_pre_take)

lemma compress_xof_take:
  "64 \<le> n \<Longrightarrow> blake3_compress_xof_portable cv (take n block) bl counter flags =
     blake3_compress_xof_portable cv block bl counter flags"
  by (simp add: blake3_compress_xof_portable_def compress_pre_take)

text \<open>\<open>compress_pre\<close> loads the block with sixteen separate loads, \<open>load_block_words\<close> in a loop.\<close>

lemma load_block_words_explicit:
  "load_block_words block = [
     load32 (drop (4 * 0) block), load32 (drop (4 * 1) block), load32 (drop (4 * 2) block),
     load32 (drop (4 * 3) block), load32 (drop (4 * 4) block), load32 (drop (4 * 5) block),
     load32 (drop (4 * 6) block), load32 (drop (4 * 7) block), load32 (drop (4 * 8) block),
     load32 (drop (4 * 9) block), load32 (drop (4 * 10) block), load32 (drop (4 * 11) block),
     load32 (drop (4 * 12) block), load32 (drop (4 * 13) block), load32 (drop (4 * 14) block),
     load32 (drop (4 * 15) block)]"
  by (simp add: load_block_words_def upt_rec)

text \<open>Hashing several inputs is hashing each, in order, with consecutive counters.\<close>

lemma hash_many_portable_append:
  "blake3_hash_many_portable (xs @ ys) blocks key counter inc flags fs fe =
     blake3_hash_many_portable xs blocks key counter inc flags fs fe @
     blake3_hash_many_portable ys blocks key
       (if inc then counter + of_nat (length xs) else counter) inc flags fs fe"
  by (induction xs arbitrary: counter) (auto simp: algebra_simps)

lemma hash_many_portable_nth:
  assumes "i < length inputs"
  shows "take 32 (drop (32 * i) (blake3_hash_many_portable inputs blocks key counter inc flags fs fe)) =
    hash_one_portable (inputs ! i) blocks key (if inc then counter + of_nat i else counter) flags fs fe"
  using assms
proof (induction inputs arbitrary: i counter)
  case Nil
  then show ?case by simp
next
  case (Cons input inputs)
  show ?case
  proof (cases i)
    case 0
    then show ?thesis by simp
  next
    case (Suc j)
    with Cons.prems have j: "j < length inputs" by simp
    show ?thesis using Cons.IH [OF j, of "if inc then counter + 1 else counter"] Suc
      by (auto simp: algebra_simps)
  qed
qed

end
