(* ===== verification/Blake3_Neon.thy ===== *)
theory Blake3_Neon
  imports Blake3_Portable
begin

unbundle bit_operations_syntax

text \<open>
  The four-way NEON implementation, \<open>blake3_neon.c\<close>. A \<open>uint32x4_t\<close> register is four 32-bit
  lanes; the intrinsics the file uses are modelled lane by lane (or byte by byte, little-endian,
  where the file reinterprets a register). The result is that hashing four inputs at once gives,
  for every lane, what the portable code gives, and so \<open>blake3_hash_many_neon\<close> equals
  \<open>blake3_hash_many_portable\<close> on every list of inputs.
\<close>

section \<open>Registers and intrinsics\<close>

datatype uint32x4 = V4 (lane0: u32) (lane1: u32) (lane2: u32) (lane3: u32)

fun lane :: "nat \<Rightarrow> uint32x4 \<Rightarrow> u32" where
  "lane k (V4 a b c d) = [a, b, c, d] ! k"

fun map4 :: "(u32 \<Rightarrow> u32) \<Rightarrow> uint32x4 \<Rightarrow> uint32x4" where
  "map4 f (V4 a b c d) = V4 (f a) (f b) (f c) (f d)"

fun zip4 :: "(u32 \<Rightarrow> u32 \<Rightarrow> u32) \<Rightarrow> uint32x4 \<Rightarrow> uint32x4 \<Rightarrow> uint32x4" where
  "zip4 f (V4 a b c d) (V4 a' b' c' d') = V4 (f a a') (f b b') (f c c') (f d d')"

definition vaddq_u32 :: "uint32x4 \<Rightarrow> uint32x4 \<Rightarrow> uint32x4" where "vaddq_u32 = zip4 (+)"
definition veorq_u32 :: "uint32x4 \<Rightarrow> uint32x4 \<Rightarrow> uint32x4" where "veorq_u32 = zip4 (XOR)"
definition vld1q_dup_u32 :: "u32 \<Rightarrow> uint32x4" where "vld1q_dup_u32 x = V4 x x x x"
definition vshlq_n_u32 :: "uint32x4 \<Rightarrow> nat \<Rightarrow> uint32x4" where "vshlq_n_u32 v n = map4 (push_bit n) v"

text \<open>Shift right and insert: the top \<open>n\<close> bits of the first operand stay.\<close>

definition vsriq_n_u32 :: "uint32x4 \<Rightarrow> uint32x4 \<Rightarrow> nat \<Rightarrow> uint32x4" where
  "vsriq_n_u32 a b n = zip4 (\<lambda>x y. (x AND push_bit (32 - n) (mask n)) OR drop_bit n y) a b"

text \<open>\<open>vrev32q_u16\<close> on the reinterpreted register swaps the two halves of every lane.\<close>

definition vrev32q_u16 :: "uint32x4 \<Rightarrow> uint32x4" where
  "vrev32q_u16 v = map4 (\<lambda>x. push_bit 16 (x AND 0xffff) OR drop_bit 16 x) v"

text \<open>Load and store of sixteen bytes; the target is little-endian (line 5 refuses others).\<close>

definition vld1q_u8 :: "byte list \<Rightarrow> uint32x4" where
  "vld1q_u8 p = V4 (load32 p) (load32 (drop 4 p)) (load32 (drop 8 p)) (load32 (drop 12 p))"

fun vst1q_u8 :: "uint32x4 \<Rightarrow> byte list" where
  "vst1q_u8 (V4 a b c d) = store32 a @ store32 b @ store32 c @ store32 d"

text \<open>The byte shuffle of a register with itself; the index list selects source bytes.\<close>

definition shuffle_bytes :: "uint32x4 \<Rightarrow> nat list \<Rightarrow> uint32x4" where
  "shuffle_bytes v idx = (let bs = vst1q_u8 v in vld1q_u8 (map (\<lambda>i. bs ! i) idx))"

fun vtrnq_u32 :: "uint32x4 \<Rightarrow> uint32x4 \<Rightarrow> uint32x4 \<times> uint32x4" where
  "vtrnq_u32 (V4 a b c d) (V4 a' b' c' d') = (V4 a a' c c', V4 b b' d d')"

fun vget_low_u32 :: "uint32x4 \<Rightarrow> u32 \<times> u32" where
  "vget_low_u32 (V4 a b c d) = (a, b)"

fun vget_high_u32 :: "uint32x4 \<Rightarrow> u32 \<times> u32" where
  "vget_high_u32 (V4 a b c d) = (c, d)"

fun vcombine_u32 :: "u32 \<times> u32 \<Rightarrow> u32 \<times> u32 \<Rightarrow> uint32x4" where
  "vcombine_u32 (a, b) (c, d) = V4 a b c d"

section \<open>Operations\<close>

definition loadu_128 :: "byte list \<Rightarrow> uint32x4" where "loadu_128 src = vld1q_u8 src"
definition storeu_128 :: "uint32x4 \<Rightarrow> byte list" where "storeu_128 src = vst1q_u8 src"
definition add_128 :: "uint32x4 \<Rightarrow> uint32x4 \<Rightarrow> uint32x4" where "add_128 a b = vaddq_u32 a b"
definition xor_128 :: "uint32x4 \<Rightarrow> uint32x4 \<Rightarrow> uint32x4" where "xor_128 a b = veorq_u32 a b"
definition set1_128 :: "u32 \<Rightarrow> uint32x4" where "set1_128 x = vld1q_dup_u32 x"
definition set4 :: "u32 \<Rightarrow> u32 \<Rightarrow> u32 \<Rightarrow> u32 \<Rightarrow> uint32x4" where "set4 a b c d = V4 a b c d"

definition rot16_128 :: "uint32x4 \<Rightarrow> uint32x4" where
  "rot16_128 x = vrev32q_u16 x"

definition rot12_128 :: "uint32x4 \<Rightarrow> uint32x4" where
  "rot12_128 x = vsriq_n_u32 (vshlq_n_u32 x (32 - 12)) x 12"

text \<open>\<open>rot8_128\<close> has a shuffle branch for Clang and GCC and a shift branch for other compilers.\<close>

definition rot8_128 :: "uint32x4 \<Rightarrow> uint32x4" where
  "rot8_128 x = shuffle_bytes x [1,2,3,0,5,6,7,4,9,10,11,8,13,14,15,12]"

definition rot8_128_generic :: "uint32x4 \<Rightarrow> uint32x4" where
  "rot8_128_generic x = vsriq_n_u32 (vshlq_n_u32 x (32 - 8)) x 8"

definition rot7_128 :: "uint32x4 \<Rightarrow> uint32x4" where
  "rot7_128 x = vsriq_n_u32 (vshlq_n_u32 x (32 - 7)) x 7"

text \<open>\<open>round_fn4\<close>: its first half mixes the columns, its second half the diagonals. \<open>s\<close> is the
  row of the message schedule.\<close>

definition round_fn4_columns :: "uint32x4 list \<Rightarrow> uint32x4 list \<Rightarrow> nat list \<Rightarrow> uint32x4 list" where
  "round_fn4_columns v m s =
     (let v = v[0 := add_128 (v ! 0) (m ! (s ! 0))];
          v = v[1 := add_128 (v ! 1) (m ! (s ! 2))];
          v = v[2 := add_128 (v ! 2) (m ! (s ! 4))];
          v = v[3 := add_128 (v ! 3) (m ! (s ! 6))];
          v = v[0 := add_128 (v ! 0) (v ! 4)];
          v = v[1 := add_128 (v ! 1) (v ! 5)];
          v = v[2 := add_128 (v ! 2) (v ! 6)];
          v = v[3 := add_128 (v ! 3) (v ! 7)];
          v = v[12 := xor_128 (v ! 12) (v ! 0)];
          v = v[13 := xor_128 (v ! 13) (v ! 1)];
          v = v[14 := xor_128 (v ! 14) (v ! 2)];
          v = v[15 := xor_128 (v ! 15) (v ! 3)];
          v = v[12 := rot16_128 (v ! 12)];
          v = v[13 := rot16_128 (v ! 13)];
          v = v[14 := rot16_128 (v ! 14)];
          v = v[15 := rot16_128 (v ! 15)];
          v = v[8 := add_128 (v ! 8) (v ! 12)];
          v = v[9 := add_128 (v ! 9) (v ! 13)];
          v = v[10 := add_128 (v ! 10) (v ! 14)];
          v = v[11 := add_128 (v ! 11) (v ! 15)];
          v = v[4 := xor_128 (v ! 4) (v ! 8)];
          v = v[5 := xor_128 (v ! 5) (v ! 9)];
          v = v[6 := xor_128 (v ! 6) (v ! 10)];
          v = v[7 := xor_128 (v ! 7) (v ! 11)];
          v = v[4 := rot12_128 (v ! 4)];
          v = v[5 := rot12_128 (v ! 5)];
          v = v[6 := rot12_128 (v ! 6)];
          v = v[7 := rot12_128 (v ! 7)];
          v = v[0 := add_128 (v ! 0) (m ! (s ! 1))];
          v = v[1 := add_128 (v ! 1) (m ! (s ! 3))];
          v = v[2 := add_128 (v ! 2) (m ! (s ! 5))];
          v = v[3 := add_128 (v ! 3) (m ! (s ! 7))];
          v = v[0 := add_128 (v ! 0) (v ! 4)];
          v = v[1 := add_128 (v ! 1) (v ! 5)];
          v = v[2 := add_128 (v ! 2) (v ! 6)];
          v = v[3 := add_128 (v ! 3) (v ! 7)];
          v = v[12 := xor_128 (v ! 12) (v ! 0)];
          v = v[13 := xor_128 (v ! 13) (v ! 1)];
          v = v[14 := xor_128 (v ! 14) (v ! 2)];
          v = v[15 := xor_128 (v ! 15) (v ! 3)];
          v = v[12 := rot8_128 (v ! 12)];
          v = v[13 := rot8_128 (v ! 13)];
          v = v[14 := rot8_128 (v ! 14)];
          v = v[15 := rot8_128 (v ! 15)];
          v = v[8 := add_128 (v ! 8) (v ! 12)];
          v = v[9 := add_128 (v ! 9) (v ! 13)];
          v = v[10 := add_128 (v ! 10) (v ! 14)];
          v = v[11 := add_128 (v ! 11) (v ! 15)];
          v = v[4 := xor_128 (v ! 4) (v ! 8)];
          v = v[5 := xor_128 (v ! 5) (v ! 9)];
          v = v[6 := xor_128 (v ! 6) (v ! 10)];
          v = v[7 := xor_128 (v ! 7) (v ! 11)];
          v = v[4 := rot7_128 (v ! 4)];
          v = v[5 := rot7_128 (v ! 5)];
          v = v[6 := rot7_128 (v ! 6)];
          v = v[7 := rot7_128 (v ! 7)]
      in v)"

definition round_fn4_diagonals :: "uint32x4 list \<Rightarrow> uint32x4 list \<Rightarrow> nat list \<Rightarrow> uint32x4 list" where
  "round_fn4_diagonals v m s =
     (let v = v[0 := add_128 (v ! 0) (m ! (s ! 8))];
          v = v[1 := add_128 (v ! 1) (m ! (s ! 10))];
          v = v[2 := add_128 (v ! 2) (m ! (s ! 12))];
          v = v[3 := add_128 (v ! 3) (m ! (s ! 14))];
          v = v[0 := add_128 (v ! 0) (v ! 5)];
          v = v[1 := add_128 (v ! 1) (v ! 6)];
          v = v[2 := add_128 (v ! 2) (v ! 7)];
          v = v[3 := add_128 (v ! 3) (v ! 4)];
          v = v[15 := xor_128 (v ! 15) (v ! 0)];
          v = v[12 := xor_128 (v ! 12) (v ! 1)];
          v = v[13 := xor_128 (v ! 13) (v ! 2)];
          v = v[14 := xor_128 (v ! 14) (v ! 3)];
          v = v[15 := rot16_128 (v ! 15)];
          v = v[12 := rot16_128 (v ! 12)];
          v = v[13 := rot16_128 (v ! 13)];
          v = v[14 := rot16_128 (v ! 14)];
          v = v[10 := add_128 (v ! 10) (v ! 15)];
          v = v[11 := add_128 (v ! 11) (v ! 12)];
          v = v[8 := add_128 (v ! 8) (v ! 13)];
          v = v[9 := add_128 (v ! 9) (v ! 14)];
          v = v[5 := xor_128 (v ! 5) (v ! 10)];
          v = v[6 := xor_128 (v ! 6) (v ! 11)];
          v = v[7 := xor_128 (v ! 7) (v ! 8)];
          v = v[4 := xor_128 (v ! 4) (v ! 9)];
          v = v[5 := rot12_128 (v ! 5)];
          v = v[6 := rot12_128 (v ! 6)];
          v = v[7 := rot12_128 (v ! 7)];
          v = v[4 := rot12_128 (v ! 4)];
          v = v[0 := add_128 (v ! 0) (m ! (s ! 9))];
          v = v[1 := add_128 (v ! 1) (m ! (s ! 11))];
          v = v[2 := add_128 (v ! 2) (m ! (s ! 13))];
          v = v[3 := add_128 (v ! 3) (m ! (s ! 15))];
          v = v[0 := add_128 (v ! 0) (v ! 5)];
          v = v[1 := add_128 (v ! 1) (v ! 6)];
          v = v[2 := add_128 (v ! 2) (v ! 7)];
          v = v[3 := add_128 (v ! 3) (v ! 4)];
          v = v[15 := xor_128 (v ! 15) (v ! 0)];
          v = v[12 := xor_128 (v ! 12) (v ! 1)];
          v = v[13 := xor_128 (v ! 13) (v ! 2)];
          v = v[14 := xor_128 (v ! 14) (v ! 3)];
          v = v[15 := rot8_128 (v ! 15)];
          v = v[12 := rot8_128 (v ! 12)];
          v = v[13 := rot8_128 (v ! 13)];
          v = v[14 := rot8_128 (v ! 14)];
          v = v[10 := add_128 (v ! 10) (v ! 15)];
          v = v[11 := add_128 (v ! 11) (v ! 12)];
          v = v[8 := add_128 (v ! 8) (v ! 13)];
          v = v[9 := add_128 (v ! 9) (v ! 14)];
          v = v[5 := xor_128 (v ! 5) (v ! 10)];
          v = v[6 := xor_128 (v ! 6) (v ! 11)];
          v = v[7 := xor_128 (v ! 7) (v ! 8)];
          v = v[4 := xor_128 (v ! 4) (v ! 9)];
          v = v[5 := rot7_128 (v ! 5)];
          v = v[6 := rot7_128 (v ! 6)];
          v = v[7 := rot7_128 (v ! 7)];
          v = v[4 := rot7_128 (v ! 4)]
      in v)"

definition round_fn4 :: "uint32x4 list \<Rightarrow> uint32x4 list \<Rightarrow> nat \<Rightarrow> uint32x4 list" where
  "round_fn4 v m r = round_fn4_diagonals (round_fn4_columns v m (MSG_SCHEDULE ! r)) m (MSG_SCHEDULE ! r)"

text \<open>\<open>transpose_vecs_128\<close> works on the four registers at an offset of an array.\<close>

definition transpose_vecs_128 :: "uint32x4 list \<Rightarrow> nat \<Rightarrow> uint32x4 list" where
  "transpose_vecs_128 vecs off =
     (let rows01 = vtrnq_u32 (vecs ! off) (vecs ! (off + 1));
          rows23 = vtrnq_u32 (vecs ! (off + 2)) (vecs ! (off + 3));
          vecs = vecs[off := vcombine_u32 (vget_low_u32 (fst rows01)) (vget_low_u32 (fst rows23))];
          vecs = vecs[off + 1 := vcombine_u32 (vget_low_u32 (snd rows01)) (vget_low_u32 (snd rows23))];
          vecs = vecs[off + 2 := vcombine_u32 (vget_high_u32 (fst rows01)) (vget_high_u32 (fst rows23))];
          vecs = vecs[off + 3 := vcombine_u32 (vget_high_u32 (snd rows01)) (vget_high_u32 (snd rows23))]
      in vecs)"

definition transpose_msg_vecs4 :: "byte list list \<Rightarrow> nat \<Rightarrow> uint32x4 list" where
  "transpose_msg_vecs4 inputs block_offset =
     (let out = [
            loadu_128 (drop (block_offset + 0 * 16) (inputs ! 0)),
            loadu_128 (drop (block_offset + 0 * 16) (inputs ! 1)),
            loadu_128 (drop (block_offset + 0 * 16) (inputs ! 2)),
            loadu_128 (drop (block_offset + 0 * 16) (inputs ! 3)),
            loadu_128 (drop (block_offset + 1 * 16) (inputs ! 0)),
            loadu_128 (drop (block_offset + 1 * 16) (inputs ! 1)),
            loadu_128 (drop (block_offset + 1 * 16) (inputs ! 2)),
            loadu_128 (drop (block_offset + 1 * 16) (inputs ! 3)),
            loadu_128 (drop (block_offset + 2 * 16) (inputs ! 0)),
            loadu_128 (drop (block_offset + 2 * 16) (inputs ! 1)),
            loadu_128 (drop (block_offset + 2 * 16) (inputs ! 2)),
            loadu_128 (drop (block_offset + 2 * 16) (inputs ! 3)),
            loadu_128 (drop (block_offset + 3 * 16) (inputs ! 0)),
            loadu_128 (drop (block_offset + 3 * 16) (inputs ! 1)),
            loadu_128 (drop (block_offset + 3 * 16) (inputs ! 2)),
            loadu_128 (drop (block_offset + 3 * 16) (inputs ! 3))];
          out = transpose_vecs_128 out 0;
          out = transpose_vecs_128 out 4;
          out = transpose_vecs_128 out 8;
          out = transpose_vecs_128 out 12
      in out)"

definition load_counters4 :: "u64 \<Rightarrow> bool \<Rightarrow> uint32x4 \<times> uint32x4" where
  "load_counters4 counter increment_counter =
     (let m = (if increment_counter then NOT 0 else 0) :: u64
      in (set4 (counter_low (counter + (m AND 0))) (counter_low (counter + (m AND 1)))
               (counter_low (counter + (m AND 2))) (counter_low (counter + (m AND 3))),
          set4 (counter_high (counter + (m AND 0))) (counter_high (counter + (m AND 1)))
               (counter_high (counter + (m AND 2))) (counter_high (counter + (m AND 3)))))"

text \<open>The body of the block loop of \<open>blake3_hash4_neon\<close>, and the loop from \<open>block\<close> on, with
  \<open>n\<close> iterations left.\<close>

definition hash4_block ::
    "byte list list \<Rightarrow> uint32x4 \<times> uint32x4 \<Rightarrow> nat \<Rightarrow> byte \<Rightarrow> uint32x4 list \<Rightarrow> uint32x4 list" where
  "hash4_block inputs counters block block_flags h_vecs =
     (let block_len_vec = set1_128 (of_nat BLAKE3_BLOCK_LEN);
          block_flags_vec = set1_128 (ucast block_flags);
          msg_vecs = transpose_msg_vecs4 inputs (block * BLAKE3_BLOCK_LEN);
          v = [h_vecs ! 0, h_vecs ! 1, h_vecs ! 2, h_vecs ! 3,
               h_vecs ! 4, h_vecs ! 5, h_vecs ! 6, h_vecs ! 7,
               set1_128 (IV ! 0), set1_128 (IV ! 1), set1_128 (IV ! 2), set1_128 (IV ! 3),
               fst counters, snd counters, block_len_vec, block_flags_vec];
          v = round_fn4 v msg_vecs 0;
          v = round_fn4 v msg_vecs 1;
          v = round_fn4 v msg_vecs 2;
          v = round_fn4 v msg_vecs 3;
          v = round_fn4 v msg_vecs 4;
          v = round_fn4 v msg_vecs 5;
          v = round_fn4 v msg_vecs 6
      in [xor_128 (v ! 0) (v ! 8), xor_128 (v ! 1) (v ! 9),
          xor_128 (v ! 2) (v ! 10), xor_128 (v ! 3) (v ! 11),
          xor_128 (v ! 4) (v ! 12), xor_128 (v ! 5) (v ! 13),
          xor_128 (v ! 6) (v ! 14), xor_128 (v ! 7) (v ! 15)])"

fun hash4_loop ::
    "nat \<Rightarrow> nat \<Rightarrow> byte list list \<Rightarrow> uint32x4 \<times> uint32x4 \<Rightarrow> byte \<Rightarrow> byte \<Rightarrow> byte \<Rightarrow> nat \<Rightarrow>
     uint32x4 list \<Rightarrow> uint32x4 list" where
  "hash4_loop 0 block inputs counters flags block_flags flags_end blocks h_vecs = h_vecs"
| "hash4_loop (Suc n) block inputs counters flags block_flags flags_end blocks h_vecs =
     (let block_flags = (if block + 1 = blocks then block_flags OR flags_end else block_flags);
          h_vecs = hash4_block inputs counters block block_flags h_vecs
      in hash4_loop n (block + 1) inputs counters flags flags flags_end blocks h_vecs)"

definition blake3_hash4_neon ::
    "byte list list \<Rightarrow> nat \<Rightarrow> u32 list \<Rightarrow> u64 \<Rightarrow> bool \<Rightarrow> byte \<Rightarrow> byte \<Rightarrow> byte \<Rightarrow> byte list" where
  "blake3_hash4_neon inputs blocks key counter increment_counter flags flags_start flags_end =
     (let h_vecs = [set1_128 (key ! 0), set1_128 (key ! 1), set1_128 (key ! 2), set1_128 (key ! 3),
                    set1_128 (key ! 4), set1_128 (key ! 5), set1_128 (key ! 6), set1_128 (key ! 7)];
          counters = load_counters4 counter increment_counter;
          h_vecs = hash4_loop blocks 0 inputs counters flags (flags OR flags_start) flags_end blocks h_vecs;
          h_vecs = transpose_vecs_128 h_vecs 0;
          h_vecs = transpose_vecs_128 h_vecs 4
      in storeu_128 (h_vecs ! 0) @ storeu_128 (h_vecs ! 4) @
         storeu_128 (h_vecs ! 1) @ storeu_128 (h_vecs ! 5) @
         storeu_128 (h_vecs ! 2) @ storeu_128 (h_vecs ! 6) @
         storeu_128 (h_vecs ! 3) @ storeu_128 (h_vecs ! 7))"

text \<open>\<open>hash_one_neon\<close> is the portable loop; its result is copied out as the memory image of the
  eight words, which on a little-endian target is each word's bytes, lowest first.\<close>

definition hash_one_neon ::
    "byte list \<Rightarrow> nat \<Rightarrow> u32 list \<Rightarrow> u64 \<Rightarrow> byte \<Rightarrow> byte \<Rightarrow> byte \<Rightarrow> byte list" where
  "hash_one_neon input blocks key counter flags flags_start flags_end =
     concat (map store32 (hash_one_loop blocks key input counter flags (flags OR flags_start) flags_end))"

fun blake3_hash_many_neon ::
    "byte list list \<Rightarrow> nat \<Rightarrow> u32 list \<Rightarrow> u64 \<Rightarrow> bool \<Rightarrow> byte \<Rightarrow> byte \<Rightarrow> byte \<Rightarrow> byte list" where
  "blake3_hash_many_neon (i0 # i1 # i2 # i3 # inputs) blocks key counter increment_counter flags flags_start flags_end =
     blake3_hash4_neon [i0, i1, i2, i3] blocks key counter increment_counter flags flags_start flags_end @
     blake3_hash_many_neon inputs blocks key (if increment_counter then counter + 4 else counter)
       increment_counter flags flags_start flags_end"
| "blake3_hash_many_neon (input # inputs) blocks key counter increment_counter flags flags_start flags_end =
     hash_one_neon input blocks key counter flags flags_start flags_end @
     blake3_hash_many_neon inputs blocks key (if increment_counter then counter + 1 else counter)
       increment_counter flags flags_start flags_end"
| "blake3_hash_many_neon [] blocks key counter increment_counter flags flags_start flags_end = []"

section \<open>Every lane of an operation\<close>

lemma less_4: "(k::nat) < 4 \<longleftrightarrow> k = 0 \<or> k = 1 \<or> k = 2 \<or> k = 3"
  by auto

lemma lane_map4: "k < 4 \<Longrightarrow> lane k (map4 f a) = f (lane k a)"
  by (cases a) (auto simp: less_4)

lemma lane_zip4: "k < 4 \<Longrightarrow> lane k (zip4 h a b) = h (lane k a) (lane k b)"
  by (cases a; cases b) (auto simp: less_4)

lemma shift_insert_rotr32:
  assumes "0 < n" "n < 32"
  shows "(push_bit (32 - n) x AND push_bit (32 - n) (mask n)) OR drop_bit n x = rotr32 x n"
  by (rule bit_eqI) (use assms in \<open>auto simp: rotr32_def bit_simps\<close>)

lemma rev16_rotr32: "push_bit 16 (x AND 0xffff) OR drop_bit 16 x = rotr32 x 16"
proof -
  have m: "(0xffff :: u32) = mask 16" by (simp add: mask_eq_exp_minus_1)
  show ?thesis unfolding m by (intro bit_eqI) (auto simp: rotr32_def bit_simps)
qed

lemma shuffle_rotr32:
  "load32 (ucast (drop_bit 8 x) # ucast (drop_bit 16 x) # ucast (drop_bit 24 x) # ucast x # rest) = rotr32 x 8"
proof (rule bit_word_eqI)
  fix n assume "n < LENGTH(32)"
  then have n: "n < 32" by simp
  consider "n < 8" | "8 \<le> n \<and> n < 16" | "16 \<le> n \<and> n < 24" | "24 \<le> n \<and> n < 32"
    using n by linarith
  then show "bit (load32 (ucast (drop_bit 8 x) # ucast (drop_bit 16 x) # ucast (drop_bit 24 x) # ucast x # rest)) n
      \<longleftrightarrow> bit (rotr32 x 8) n"
    by cases (auto simp: load32_def rotr32_def bit_simps dest: bit_imp_le_length)
qed

lemma lane_add_128: "k < 4 \<Longrightarrow> lane k (add_128 a b) = lane k a + lane k b"
  by (simp add: add_128_def vaddq_u32_def lane_zip4)

lemma lane_xor_128: "k < 4 \<Longrightarrow> lane k (xor_128 a b) = lane k a XOR lane k b"
  by (simp add: xor_128_def veorq_u32_def lane_zip4)

lemma lane_set1_128: "k < 4 \<Longrightarrow> lane k (set1_128 x) = x"
  by (auto simp: set1_128_def vld1q_dup_u32_def less_4)

lemma lane_rot16_128: "k < 4 \<Longrightarrow> lane k (rot16_128 a) = rotr32 (lane k a) 16"
  by (simp only: rot16_128_def vrev32q_u16_def lane_map4 rev16_rotr32)

lemma lane_rot12_128: "k < 4 \<Longrightarrow> lane k (rot12_128 a) = rotr32 (lane k a) 12"
  using shift_insert_rotr32 [of 12]
  by (simp add: rot12_128_def vsriq_n_u32_def vshlq_n_u32_def lane_map4 lane_zip4)

lemma lane_rot8_128_generic: "k < 4 \<Longrightarrow> lane k (rot8_128_generic a) = rotr32 (lane k a) 8"
  using shift_insert_rotr32 [of 8]
  by (simp add: rot8_128_generic_def vsriq_n_u32_def vshlq_n_u32_def lane_map4 lane_zip4)

lemma lane_rot7_128: "k < 4 \<Longrightarrow> lane k (rot7_128 a) = rotr32 (lane k a) 7"
  using shift_insert_rotr32 [of 7]
  by (simp add: rot7_128_def vsriq_n_u32_def vshlq_n_u32_def lane_map4 lane_zip4)

lemma rot8_128_lanes: "rot8_128 (V4 a b c d) = V4 (rotr32 a 8) (rotr32 b 8) (rotr32 c 8) (rotr32 d 8)"
  by (simp add: rot8_128_def shuffle_bytes_def vld1q_u8_def store32_def shuffle_rotr32)

lemma lane_rot8_128: "k < 4 \<Longrightarrow> lane k (rot8_128 a) = rotr32 (lane k a) 8"
  by (cases a) (auto simp: rot8_128_lanes less_4)

lemmas lane_ops = lane_add_128 lane_xor_128 lane_set1_128 lane_rot16_128 lane_rot12_128 lane_rot8_128 lane_rot7_128


section \<open>Rounds, lane by lane\<close>

lemma list_16:
  assumes "length v = 16"
  obtains v0 v1 v2 v3 v4 v5 v6 v7 v8 v9 v10 v11 v12 v13 v14 v15
  where "v = [v0, v1, v2, v3, v4, v5, v6, v7, v8, v9, v10, v11, v12, v13, v14, v15]"
  using assms by (auto simp: numeral_eq_Suc length_Suc_conv)

lemma length_round_fn4 [simp, len_simps]:
  assumes "length v = 16"
  shows "length (round_fn4_columns v m s) = 16" "length (round_fn4_diagonals v m s) = 16"
    and "length (round_fn4 v m r) = 16"
proof -
  have c: "length (round_fn4_columns v m s) = 16" if "length v = 16" for v s
    by (rule list_16 [OF that]) (simp add: round_fn4_columns_def Let_def cong: let_weak_cong)
  have d: "length (round_fn4_diagonals v m s) = 16" if "length v = 16" for v s
    by (rule list_16 [OF that]) (simp add: round_fn4_diagonals_def Let_def cong: let_weak_cong)
  show "length (round_fn4_columns v m s) = 16" "length (round_fn4_diagonals v m s) = 16"
    "length (round_fn4 v m r) = 16"
    using assms by (simp_all add: c d round_fn4_def)
qed

lemma round_fn4_columns_lane:
  assumes "length v = 16" "length m = 16" "k < 4" "\<forall>i < 16. s ! i < 16"
  shows "map (lane k) (round_fn4_columns v m s) =
    (let state = map (lane k) v; msg = map (lane k) m;
         state = g state 0 4 8 12 (msg ! (s ! 0)) (msg ! (s ! 1));
         state = g state 1 5 9 13 (msg ! (s ! 2)) (msg ! (s ! 3));
         state = g state 2 6 10 14 (msg ! (s ! 4)) (msg ! (s ! 5))
      in g state 3 7 11 15 (msg ! (s ! 6)) (msg ! (s ! 7)))"
proof -
  obtain v0 v1 v2 v3 v4 v5 v6 v7 v8 v9 v10 v11 v12 v13 v14 v15
    where "v = [v0, v1, v2, v3, v4, v5, v6, v7, v8, v9, v10, v11, v12, v13, v14, v15]"
    using list_16 [OF assms(1)] .
  then show ?thesis unfolding round_fn4_columns_def g_def
    using assms by (simp add: Let_def lane_ops ac_simps cong: let_weak_cong)
qed

lemma round_fn4_diagonals_lane:
  assumes "length v = 16" "length m = 16" "k < 4" "\<forall>i < 16. s ! i < 16"
  shows "map (lane k) (round_fn4_diagonals v m s) =
    (let state = map (lane k) v; msg = map (lane k) m;
         state = g state 0 5 10 15 (msg ! (s ! 8)) (msg ! (s ! 9));
         state = g state 1 6 11 12 (msg ! (s ! 10)) (msg ! (s ! 11));
         state = g state 2 7 8 13 (msg ! (s ! 12)) (msg ! (s ! 13))
      in g state 3 4 9 14 (msg ! (s ! 14)) (msg ! (s ! 15)))"
proof -
  obtain v0 v1 v2 v3 v4 v5 v6 v7 v8 v9 v10 v11 v12 v13 v14 v15
    where "v = [v0, v1, v2, v3, v4, v5, v6, v7, v8, v9, v10, v11, v12, v13, v14, v15]"
    using list_16 [OF assms(1)] .
  then show ?thesis unfolding round_fn4_diagonals_def g_def
    using assms by (simp add: Let_def lane_ops ac_simps cong: let_weak_cong)
qed

lemma round_fn4_lane:
  assumes "length v = 16" "length m = 16" "k < 4" "r < 7"
  shows "map (lane k) (round_fn4 v m r) = round_fn (map (lane k) v) (map (lane k) m) r"
proof -
  have "\<forall>i < 16. (MSG_SCHEDULE ! r) ! i < 16" using assms(4) MSG_SCHEDULE_less by blast
  then show ?thesis using assms
    by (simp only: round_fn4_def round_fn_def round_fn4_columns_lane round_fn4_diagonals_lane length_round_fn4 Let_def)
qed

section \<open>Four inputs at once\<close>

lemma transpose_msg_vecs4_lane:
  assumes "length inputs = 4" "k < 4"
  shows "map (lane k) (transpose_msg_vecs4 inputs off) = load_block_words (drop off (inputs ! k))"
proof -
  consider "k = 0" | "k = 1" | "k = 2" | "k = 3" using assms(2) by linarith
  then show ?thesis
    by cases (simp_all add: transpose_msg_vecs4_def transpose_vecs_128_def loadu_128_def vld1q_u8_def
        load_block_words_explicit Let_def add.commute cong: let_weak_cong)
qed

lemma length_transpose_vecs_128 [simp, len_simps]: "length (transpose_vecs_128 vecs off) = length vecs"
  by (simp add: transpose_vecs_128_def Let_def)

lemma length_transpose_msg_vecs4 [simp, len_simps]: "length (transpose_msg_vecs4 inputs off) = 16"
  by (simp add: transpose_msg_vecs4_def Let_def)

lemma hash4_block_lane:
  assumes "length inputs = 4" "k < 4" "length h = 8"
    "lane k (fst counters) = counter_low counter" "lane k (snd counters) = counter_high counter"
  shows "map (lane k) (hash4_block inputs counters block bf h) =
    blake3_compress_in_place_portable (map (lane k) h) (drop (block * 64) (inputs ! k)) 64 counter bf"
proof -
  define m where "m = transpose_msg_vecs4 inputs (block * 64)"
  define v where "v = [h ! 0, h ! 1, h ! 2, h ! 3, h ! 4, h ! 5, h ! 6, h ! 7,
     set1_128 (IV ! 0), set1_128 (IV ! 1), set1_128 (IV ! 2), set1_128 (IV ! 3),
     fst counters, snd counters, set1_128 (of_nat 64), set1_128 (ucast bf)]"
  define w where "w = round_fn4 (round_fn4 (round_fn4 (round_fn4 (round_fn4 (round_fn4 (round_fn4 v m 0) m 1) m 2) m 3) m 4) m 5) m 6"
  have len: "length v = 16" "length m = 16" "length w = 16" by (simp_all add: v_def m_def w_def)
  have "map (lane k) w = compress_pre (map (lane k) h) (drop (block * 64) (inputs ! k)) 64 counter bf"
    using assms len(1,2)
    by (simp add: w_def round_fn4_lane compress_pre_def Let_def v_def m_def transpose_msg_vecs4_lane
        load_block_words_explicit lane_ops)
  moreover have "map (lane k) w ! i = lane k (w ! i)" if "i < 16" for i using that len by simp
  moreover have "hash4_block inputs counters block bf h =
      [xor_128 (w ! 0) (w ! 8), xor_128 (w ! 1) (w ! 9), xor_128 (w ! 2) (w ! 10), xor_128 (w ! 3) (w ! 11),
       xor_128 (w ! 4) (w ! 12), xor_128 (w ! 5) (w ! 13), xor_128 (w ! 6) (w ! 14), xor_128 (w ! 7) (w ! 15)]"
    by (simp add: hash4_block_def w_def v_def m_def Let_def)
  ultimately show ?thesis using assms(2)
    by (simp add: blake3_compress_in_place_portable_def lane_ops Let_def)
qed

lemma length_hash4_block [simp, len_simps]: "length (hash4_block inputs counters block bf h) = 8"
  by (simp add: hash4_block_def Let_def)

lemma hash4_loop_lane:
  assumes "length inputs = 4" "k < 4" "length h = 8" "block + n = blocks"
    "lane k (fst counters) = counter_low counter" "lane k (snd counters) = counter_high counter"
  shows "map (lane k) (hash4_loop n block inputs counters flags bf fe blocks h) =
    hash_one_loop n (map (lane k) h) (drop (block * 64) (inputs ! k)) counter flags bf fe"
  using assms
proof (induction n arbitrary: block bf h)
  case (Suc n)
  then have "block + 1 = blocks \<longleftrightarrow> Suc n = 1" by auto
  with Suc show ?case by (simp add: Let_def hash4_block_lane add.commute)
qed simp

lemma length_hash4_loop [simp, len_simps]:
  "length h = 8 \<Longrightarrow> length (hash4_loop n block inputs counters flags bf fe blocks h) = 8"
  by (induction n arbitrary: block bf h) (auto simp: Let_def)

lemma load_counters4_lane:
  assumes "k < 4"
  shows "lane k (fst (load_counters4 counter inc)) = counter_low (if inc then counter + of_nat k else counter)"
    "lane k (snd (load_counters4 counter inc)) = counter_high (if inc then counter + of_nat k else counter)"
proof -
  consider "k = 0" | "k = 1" | "k = 2" | "k = 3" using assms by linarith
  then show "lane k (fst (load_counters4 counter inc)) = counter_low (if inc then counter + of_nat k else counter)"
    "lane k (snd (load_counters4 counter inc)) = counter_high (if inc then counter + of_nat k else counter)"
    by (cases; simp add: load_counters4_def set4_def)+
qed

lemma lane_split: "v = V4 (lane 0 v) (lane 1 v) (lane 2 v) (lane 3 v)"
  by (cases v) simp

lemma transpose_store:
  assumes "length h = 8"
  shows "(let h = transpose_vecs_128 h 0; h = transpose_vecs_128 h 4 in
      storeu_128 (h ! 0) @ storeu_128 (h ! 4) @ storeu_128 (h ! 1) @ storeu_128 (h ! 5) @
      storeu_128 (h ! 2) @ storeu_128 (h ! 6) @ storeu_128 (h ! 3) @ storeu_128 (h ! 7)) =
    concat (map (\<lambda>k. store_cv_words (map (lane k) h)) [0, 1, 2, 3])"
proof -
  obtain h0 h1 h2 h3 h4 h5 h6 h7 where h: "h = [h0, h1, h2, h3, h4, h5, h6, h7]"
    using assms by (auto simp: numeral_eq_Suc length_Suc_conv)
  show ?thesis unfolding h
    by (cases h0; cases h1; cases h2; cases h3; cases h4; cases h5; cases h6; cases h7)
       (simp add: transpose_vecs_128_def storeu_128_def store_cv_words_def Let_def cong: let_weak_cong)
qed

lemma hash4_neon_eq:
  assumes "length inputs = 4" "length key = 8"
  shows "blake3_hash4_neon inputs blocks key counter inc flags fs fe =
    blake3_hash_many_portable inputs blocks key counter inc flags fs fe"
proof -
  obtain i0 i1 i2 i3 where i: "inputs = [i0, i1, i2, i3]"
    using assms(1) by (auto simp: numeral_eq_Suc length_Suc_conv)
  define h where "h = [set1_128 (key ! 0), set1_128 (key ! 1), set1_128 (key ! 2), set1_128 (key ! 3),
                    set1_128 (key ! 4), set1_128 (key ! 5), set1_128 (key ! 6), set1_128 (key ! 7)]"
  define w where "w = hash4_loop blocks 0 inputs (load_counters4 counter inc) flags (flags OR fs) fe blocks h"
  have key: "map (lane k) h = key" if "k < 4" for k
    using that nths_explicit_8 [OF assms(2)] by (simp add: h_def lane_ops)
  have "length w = 8" by (simp add: w_def h_def)
  moreover have "store_cv_words (map (lane k) w) =
      hash_one_portable (inputs ! k) blocks key (if inc then counter + of_nat k else counter) flags fs fe" if "k < 4" for k
    using hash4_loop_lane [OF assms(1) that _ _ load_counters4_lane(1) [OF that] load_counters4_lane(2) [OF that],
        of h 0 blocks] key [OF that]
    by (simp add: w_def hash_one_portable_def h_def)
  ultimately show ?thesis
    using transpose_store [of w]
    by (auto simp: blake3_hash4_neon_def Let_def w_def h_def i algebra_simps)
qed

lemma hash_one_neon_eq:
  assumes "length key = 8"
  shows "hash_one_neon input blocks key counter flags fs fe = hash_one_portable input blocks key counter flags fs fe"
proof -
  define cv where "cv = hash_one_loop blocks key input counter flags (flags OR fs) fe"
  have "length cv = 8" using assms by (simp add: cv_def)
  then obtain c0 c1 c2 c3 c4 c5 c6 c7 where "cv = [c0, c1, c2, c3, c4, c5, c6, c7]"
    by (auto simp: numeral_eq_Suc length_Suc_conv)
  then have "concat (map store32 cv) = store_cv_words cv" by (simp add: store_cv_words_def)
  then show ?thesis by (simp add: hash_one_neon_def hash_one_portable_def cv_def)
qed

lemma hash_many_neon_eq:
  assumes "length key = 8"
  shows "blake3_hash_many_neon inputs blocks key counter inc flags fs fe =
    blake3_hash_many_portable inputs blocks key counter inc flags fs fe"
  using assms
proof (induction inputs blocks key counter inc flags fs fe rule: blake3_hash_many_neon.induct)
  case (1 i0 i1 i2 i3 inputs blocks key counter inc flags fs fe)
  have "blake3_hash_many_portable (i0 # i1 # i2 # i3 # inputs) blocks key counter inc flags fs fe =
      blake3_hash_many_portable [i0, i1, i2, i3] blocks key counter inc flags fs fe @
      blake3_hash_many_portable inputs blocks key (if inc then counter + 4 else counter) inc flags fs fe"
    using hash_many_portable_append [of "[i0, i1, i2, i3]" inputs] by simp
  with 1 show ?case by (simp only: blake3_hash_many_neon.simps) (simp add: hash4_neon_eq)
qed (simp_all add: hash_one_neon_eq)

section \<open>Properties\<close>

text \<open>C11. The NEON implementation agrees with the portable one: for any number of inputs, any number of
  blocks, and with or without an incremented counter, \<open>blake3_hash_many_neon\<close> writes what
  \<open>blake3_hash_many_portable\<close> writes, and so entry \<open>i\<close> of its output is the hash of input \<open>i\<close>.\<close>

theorem neon_agrees_with_portable:
  assumes "length key = 8"
  shows "blake3_hash_many_neon inputs blocks key counter inc flags fs fe =
      blake3_hash_many_portable inputs blocks key counter inc flags fs fe"
    (is "?neon = _")
  using assms by (rule hash_many_neon_eq)

theorem neon_agrees_with_portable_witness:
  "blake3_hash_many_neon (map (\<lambda>i. replicate 128 (of_nat i)) [0..<9]) 2 IV 3 True 0 1 2 =
    blake3_hash_many_portable (map (\<lambda>i. replicate 128 (of_nat i)) [0..<9]) 2 IV 3 True 0 1 2"
  by (rule neon_agrees_with_portable) (simp add: IV_def)

text \<open>Every rotation of a NEON register, the byte shuffle for compilers that have it and the shifts
  for those that have not, rotates every lane as the portable \<open>rotr32\<close> does.\<close>

theorem neon_rotations:
  assumes "k < 4"
  shows "lane k (rot16_128 v) = rotr32 (lane k v) 16 \<and> lane k (rot12_128 v) = rotr32 (lane k v) 12 \<and>
    lane k (rot8_128 v) = rotr32 (lane k v) 8 \<and> rot8_128_generic v = rot8_128 v \<and>
    lane k (rot7_128 v) = rotr32 (lane k v) 7"
proof -
  have "rot8_128_generic v = rot8_128 v"
    using lane_rot8_128 [of _ v] lane_rot8_128_generic [of _ v]
    by (subst lane_split [of "rot8_128 v"], subst lane_split [of "rot8_128_generic v"]) simp
  then show ?thesis using assms by (simp add: lane_ops)
qed

theorem neon_rotations_witness: "lane 2 (rot7_128 (V4 1 2 3 4)) = rotr32 3 7"
  using neon_rotations [of 2 "V4 1 2 3 4"] by simp

end
