(* ===== verification/Blake3_Dispatch.thy ===== *)
theory Blake3_Dispatch
  imports Blake3_Neon
begin

unbundle bit_operations_syntax

text \<open>
  Choosing an implementation at run time, \<open>blake3_dispatch.c\<close>. A \<open>platform\<close> collects what the
  preprocessor and the processor decide: the configuration macros, what \<open>cpuid\<close> and \<open>xgetbv\<close>
  report, and the hand-written x86 assembly routines, whose code is not C and which are therefore
  parameters. \<open>asm_agrees\<close> states what the C code relies on: on well-formed arguments an assembly
  routine computes what the portable routine computes. The locale \<open>blake3_platform\<close> is the
  interface the tree hash is proved against; it is interpreted on the portable and on the NEON
  configuration, whose laws are proved from the code.
\<close>

section \<open>Platforms\<close>

type_synonym compress_in_place_fn = "u32 list \<Rightarrow> byte list \<Rightarrow> byte \<Rightarrow> u64 \<Rightarrow> byte \<Rightarrow> u32 list"
type_synonym compress_xof_fn = "u32 list \<Rightarrow> byte list \<Rightarrow> byte \<Rightarrow> u64 \<Rightarrow> byte \<Rightarrow> byte list"
type_synonym hash_many_fn =
  "byte list list \<Rightarrow> nat \<Rightarrow> u32 list \<Rightarrow> u64 \<Rightarrow> bool \<Rightarrow> byte \<Rightarrow> byte \<Rightarrow> byte \<Rightarrow> byte list"

text \<open>\<open>uninit n\<close> is what \<open>n\<close> bytes of uninitialised stack memory happen to hold.\<close>

record platform =
  is_x86 :: bool
  is_amd64 :: bool
  is_win32 :: bool
  use_neon :: bool
  no_sse2 :: bool
  no_sse41 :: bool
  no_avx2 :: bool
  no_avx512 :: bool
  cpuidex :: "u32 \<Rightarrow> u32 \<Rightarrow> u32 list"
  xgetbv :: u64
  compress_in_place_avx512 :: compress_in_place_fn
  compress_in_place_sse41 :: compress_in_place_fn
  compress_in_place_sse2 :: compress_in_place_fn
  compress_xof_avx512 :: compress_xof_fn
  compress_xof_sse41 :: compress_xof_fn
  compress_xof_sse2 :: compress_xof_fn
  xof_many_avx512 :: "u32 list \<Rightarrow> byte list \<Rightarrow> byte \<Rightarrow> u64 \<Rightarrow> byte \<Rightarrow> nat \<Rightarrow> byte list"
  hash_many_avx512 :: hash_many_fn
  hash_many_avx2 :: hash_many_fn
  hash_many_sse41 :: hash_many_fn
  hash_many_sse2 :: hash_many_fn
  uninit :: "nat \<Rightarrow> byte list"

definition MAX_SIMD_DEGREE :: "platform \<Rightarrow> nat" where
  "MAX_SIMD_DEGREE P = (if is_x86 P then 16 else if use_neon P then 4 else 1)"

definition MAX_SIMD_DEGREE_OR_2 :: "platform \<Rightarrow> nat" where
  "MAX_SIMD_DEGREE_OR_2 P = (if MAX_SIMD_DEGREE P > 2 then MAX_SIMD_DEGREE P else 2)"

section \<open>Processor features\<close>

definition SSE2 :: u32 where "SSE2 = push_bit 0 1"
definition SSSE3 :: u32 where "SSSE3 = push_bit 1 1"
definition SSE41 :: u32 where "SSE41 = push_bit 2 1"
definition AVX :: u32 where "AVX = push_bit 3 1"
definition AVX2 :: u32 where "AVX2 = push_bit 4 1"
definition AVX512F :: u32 where "AVX512F = push_bit 5 1"
definition AVX512VL :: u32 where "AVX512VL = push_bit 6 1"
definition UNDEFINED :: u32 where "UNDEFINED = push_bit 30 1"

lemmas cpu_feature_defs = SSE2_def SSSE3_def SSE41_def AVX_def AVX2_def AVX512F_def AVX512VL_def UNDEFINED_def

text \<open>\<open>get_cpu_features\<close> takes the cell \<open>g_cpu_features\<close> and returns the features with the
  updated cell. The test \<open>max_id \<ge> 7\<close> is on an \<open>int\<close>. \<open>detect_features\<close> is its \<open>IS_X86\<close>
  branch up to the store.\<close>

definition detect_features :: "platform \<Rightarrow> u32" where
  "detect_features P =
     (let features = 0;
          regs = cpuidex P 0 0;
          max_id = sint (regs ! 0);
          regs = cpuidex P 1 0;
          ecx = regs ! 2; edx = regs ! 3;
          features = (if is_amd64 P \<or> edx AND push_bit 26 1 \<noteq> 0 then features OR SSE2 else features);
          features = (if ecx AND push_bit 9 1 \<noteq> 0 then features OR SSSE3 else features);
          features = (if ecx AND push_bit 19 1 \<noteq> 0 then features OR SSE41 else features)
      in if ecx AND push_bit 27 1 \<noteq> 0 then
           let m = xgetbv P
           in if m AND 6 = 6 then
                let features = (if ecx AND push_bit 28 1 \<noteq> 0 then features OR AVX else features)
                in if max_id \<ge> 7 then
                     let regs = cpuidex P 7 0;
                         ebx = regs ! 1;
                         features = (if ebx AND push_bit 5 1 \<noteq> 0 then features OR AVX2 else features)
                     in if m AND 224 = 224 then
                          let features = (if ebx AND push_bit 31 1 \<noteq> 0 then features OR AVX512VL else features);
                              features = (if ebx AND push_bit 16 1 \<noteq> 0 then features OR AVX512F else features)
                          in features
                        else features
                   else features
              else features
         else features)"

definition get_cpu_features :: "platform \<Rightarrow> u32 \<Rightarrow> u32 \<times> u32" where
  "get_cpu_features P g_cpu_features =
     (let features = g_cpu_features
      in if features \<noteq> UNDEFINED then (features, g_cpu_features)
         else if is_x86 P then (let features = detect_features P in (features, features))
         else (0, g_cpu_features))"

text \<open>The dispatching functions ask for the features on every call. By \<open>get_cpu_features_cached\<close>
  below every call returns the same value, which is \<open>cpu_features\<close>.\<close>

definition cpu_features :: "platform \<Rightarrow> u32" where
  "cpu_features P = fst (get_cpu_features P UNDEFINED)"

section \<open>Dispatch\<close>

definition blake3_compress_in_place ::
    "platform \<Rightarrow> u32 list \<Rightarrow> byte list \<Rightarrow> byte \<Rightarrow> u64 \<Rightarrow> byte \<Rightarrow> u32 list" where
  "blake3_compress_in_place P cv block block_len counter flags =
     (let features = cpu_features P
      in if is_x86 P \<and> \<not> no_avx512 P \<and> features AND AVX512VL \<noteq> 0 then
           compress_in_place_avx512 P cv block block_len counter flags
         else if is_x86 P \<and> \<not> no_sse41 P \<and> features AND SSE41 \<noteq> 0 then
           compress_in_place_sse41 P cv block block_len counter flags
         else if is_x86 P \<and> \<not> no_sse2 P \<and> features AND SSE2 \<noteq> 0 then
           compress_in_place_sse2 P cv block block_len counter flags
         else blake3_compress_in_place_portable cv block block_len counter flags)"

definition blake3_compress_xof ::
    "platform \<Rightarrow> u32 list \<Rightarrow> byte list \<Rightarrow> byte \<Rightarrow> u64 \<Rightarrow> byte \<Rightarrow> byte list" where
  "blake3_compress_xof P cv block block_len counter flags =
     (let features = cpu_features P
      in if is_x86 P \<and> \<not> no_avx512 P \<and> features AND AVX512VL \<noteq> 0 then
           compress_xof_avx512 P cv block block_len counter flags
         else if is_x86 P \<and> \<not> no_sse41 P \<and> features AND SSE41 \<noteq> 0 then
           compress_xof_sse41 P cv block block_len counter flags
         else if is_x86 P \<and> \<not> no_sse2 P \<and> features AND SSE2 \<noteq> 0 then
           compress_xof_sse2 P cv block block_len counter flags
         else blake3_compress_xof_portable cv block block_len counter flags)"

text \<open>The \<open>for\<close> loop of \<open>blake3_xof_many\<close>, from \<open>i\<close> on with \<open>n\<close> blocks left.\<close>

fun xof_many_loop ::
    "platform \<Rightarrow> nat \<Rightarrow> nat \<Rightarrow> u32 list \<Rightarrow> byte list \<Rightarrow> byte \<Rightarrow> u64 \<Rightarrow> byte \<Rightarrow> byte list" where
  "xof_many_loop P 0 i cv block block_len counter flags = []"
| "xof_many_loop P (Suc n) i cv block block_len counter flags =
     blake3_compress_xof P cv block block_len (counter + of_nat i) flags @
     xof_many_loop P n (i + 1) cv block block_len counter flags"

definition blake3_xof_many ::
    "platform \<Rightarrow> u32 list \<Rightarrow> byte list \<Rightarrow> byte \<Rightarrow> u64 \<Rightarrow> byte \<Rightarrow> nat \<Rightarrow> byte list" where
  "blake3_xof_many P cv block block_len counter flags outblocks =
     (if outblocks = 0 then []
      else let features = cpu_features P
      in if is_x86 P \<and> \<not> is_win32 P \<and> \<not> no_avx512 P \<and> features AND AVX512VL \<noteq> 0 then
           xof_many_avx512 P cv block block_len counter flags outblocks
         else xof_many_loop P outblocks 0 cv block block_len counter flags)"

definition blake3_hash_many :: "platform \<Rightarrow> hash_many_fn" where
  "blake3_hash_many P inputs blocks key counter increment_counter flags flags_start flags_end =
     (let features = cpu_features P
      in if is_x86 P \<and> \<not> no_avx512 P \<and> features AND (AVX512F OR AVX512VL) = AVX512F OR AVX512VL then
           hash_many_avx512 P inputs blocks key counter increment_counter flags flags_start flags_end
         else if is_x86 P \<and> \<not> no_avx2 P \<and> features AND AVX2 \<noteq> 0 then
           hash_many_avx2 P inputs blocks key counter increment_counter flags flags_start flags_end
         else if is_x86 P \<and> \<not> no_sse41 P \<and> features AND SSE41 \<noteq> 0 then
           hash_many_sse41 P inputs blocks key counter increment_counter flags flags_start flags_end
         else if is_x86 P \<and> \<not> no_sse2 P \<and> features AND SSE2 \<noteq> 0 then
           hash_many_sse2 P inputs blocks key counter increment_counter flags flags_start flags_end
         else if use_neon P then
           blake3_hash_many_neon inputs blocks key counter increment_counter flags flags_start flags_end
         else blake3_hash_many_portable inputs blocks key counter increment_counter flags flags_start flags_end)"

definition blake3_simd_degree :: "platform \<Rightarrow> nat" where
  "blake3_simd_degree P =
     (let features = cpu_features P
      in if is_x86 P \<and> \<not> no_avx512 P \<and> features AND (AVX512F OR AVX512VL) = AVX512F OR AVX512VL then 16
         else if is_x86 P \<and> \<not> no_avx2 P \<and> features AND AVX2 \<noteq> 0 then 8
         else if is_x86 P \<and> \<not> no_sse41 P \<and> features AND SSE41 \<noteq> 0 then 4
         else if is_x86 P \<and> \<not> no_sse2 P \<and> features AND SSE2 \<noteq> 0 then 4
         else if use_neon P then 4
         else 1)"

section \<open>The feature cache\<close>

lemma detect_features_defined: "detect_features P AND UNDEFINED = 0"
proof -
  have d: "((x OR y) AND UNDEFINED = 0) = (x AND UNDEFINED = 0 \<and> y AND UNDEFINED = 0)" for x y :: u32
    by (auto simp: bit_eq_iff bit_simps)
  have "SSE2 AND UNDEFINED = 0" "SSSE3 AND UNDEFINED = 0" "SSE41 AND UNDEFINED = 0" "AVX AND UNDEFINED = 0"
    "AVX2 AND UNDEFINED = 0" "AVX512F AND UNDEFINED = 0" "AVX512VL AND UNDEFINED = 0"
    by (simp_all add: cpu_feature_defs)
  then show ?thesis by (simp add: detect_features_def Let_def d)
qed

lemma detect_features_neq: "detect_features P \<noteq> UNDEFINED"
  using detect_features_defined [of P] by (auto simp: UNDEFINED_def)

lemma get_cpu_features_cached:
  assumes "cell = UNDEFINED \<or> cell = snd (get_cpu_features P UNDEFINED)"
  shows "fst (get_cpu_features P cell) = cpu_features P"
    and "snd (get_cpu_features P cell) = snd (get_cpu_features P UNDEFINED)"
  using assms detect_features_neq [of P]
  by (auto simp: cpu_features_def get_cpu_features_def Let_def split: if_splits)

section \<open>SIMD degree\<close>

lemma simd_degree_cases:
  "blake3_simd_degree P \<in> {1, 4, 8, 16}"
  by (simp add: blake3_simd_degree_def Let_def)

lemma simd_degree_pos [simp]: "1 \<le> blake3_simd_degree P" "blake3_simd_degree P \<noteq> 0"
  using simd_degree_cases [of P] by auto

lemma simd_degree_pow2: "is_pow2 (blake3_simd_degree P)"
  using simd_degree_cases [of P] is_pow2_I [of 0] is_pow2_I [of 2] is_pow2_I [of 3] is_pow2_I [of 4] by auto

lemma simd_degree_le_MAX: "blake3_simd_degree P \<le> MAX_SIMD_DEGREE P"
  by (simp add: blake3_simd_degree_def MAX_SIMD_DEGREE_def Let_def)

section \<open>What the assembly routines promise\<close>

definition compress_in_place_ok :: "compress_in_place_fn \<Rightarrow> bool" where
  "compress_in_place_ok f \<longleftrightarrow> (\<forall>cv block block_len counter flags. length cv = 8 \<longrightarrow> 64 \<le> length block \<longrightarrow>
     f cv block block_len counter flags = blake3_compress_in_place_portable cv block block_len counter flags)"

definition compress_xof_ok :: "compress_xof_fn \<Rightarrow> bool" where
  "compress_xof_ok f \<longleftrightarrow> (\<forall>cv block block_len counter flags. length cv = 8 \<longrightarrow> 64 \<le> length block \<longrightarrow>
     f cv block block_len counter flags = blake3_compress_xof_portable cv block block_len counter flags)"

definition hash_many_ok :: "hash_many_fn \<Rightarrow> bool" where
  "hash_many_ok f \<longleftrightarrow> (\<forall>inputs blocks key counter inc flags fs fe.
     length key = 8 \<longrightarrow> (\<forall>input \<in> set inputs. 64 * blocks \<le> length input) \<longrightarrow>
     f inputs blocks key counter inc flags fs fe =
     blake3_hash_many_portable inputs blocks key counter inc flags fs fe)"

definition xof_blocks :: "u32 list \<Rightarrow> byte list \<Rightarrow> byte \<Rightarrow> u64 \<Rightarrow> byte \<Rightarrow> nat \<Rightarrow> byte list" where
  "xof_blocks cv block block_len counter flags n =
     concat (map (\<lambda>i. blake3_compress_xof_portable cv block block_len (counter + of_nat i) flags) [0..<n])"

definition asm_agrees :: "platform \<Rightarrow> bool" where
  "asm_agrees P \<longleftrightarrow>
     compress_in_place_ok (compress_in_place_avx512 P) \<and>
     compress_in_place_ok (compress_in_place_sse41 P) \<and>
     compress_in_place_ok (compress_in_place_sse2 P) \<and>
     compress_xof_ok (compress_xof_avx512 P) \<and>
     compress_xof_ok (compress_xof_sse41 P) \<and>
     compress_xof_ok (compress_xof_sse2 P) \<and>
     (\<forall>cv block block_len counter flags n. length cv = 8 \<longrightarrow> 64 \<le> length block \<longrightarrow> 0 < n \<longrightarrow>
        xof_many_avx512 P cv block block_len counter flags n = xof_blocks cv block block_len counter flags n) \<and>
     hash_many_ok (hash_many_avx512 P) \<and> hash_many_ok (hash_many_avx2 P) \<and>
     hash_many_ok (hash_many_sse41 P) \<and> hash_many_ok (hash_many_sse2 P) \<and>
     (\<forall>n. length (uninit P n) = n)"

section \<open>The interface of the compression layer\<close>

text \<open>What the tree hash relies on: the dispatched operations compute the portable functions on
  well-formed arguments, and a local array has the length it is declared with.\<close>

locale blake3_platform =
  fixes P :: platform
  assumes compress_in_place_eq: "length cv = 8 \<Longrightarrow> 64 \<le> length block \<Longrightarrow>
      blake3_compress_in_place P cv block bl counter flags =
      blake3_compress_in_place_portable cv block bl counter flags"
    and compress_xof_eq: "length cv = 8 \<Longrightarrow> 64 \<le> length block \<Longrightarrow>
      blake3_compress_xof P cv block bl counter flags = blake3_compress_xof_portable cv block bl counter flags"
    and xof_many_eq: "length cv = 8 \<Longrightarrow> 64 \<le> length block \<Longrightarrow>
      blake3_xof_many P cv block bl counter flags n = xof_blocks cv block bl counter flags n"
    and hash_many_eq: "length key = 8 \<Longrightarrow> (\<forall>input \<in> set inputs. 64 * blocks \<le> length input) \<Longrightarrow>
      blake3_hash_many P inputs blocks key counter inc flags fs fe =
      blake3_hash_many_portable inputs blocks key counter inc flags fs fe"
    and length_uninit: "length (uninit P n) = n"

text \<open>A platform whose assembly routines keep their promise has the interface.\<close>

locale asm_platform =
  fixes P :: platform
  assumes asm: "asm_agrees P"
begin

lemma asm_compress_in_place:
  assumes "length cv = 8" "64 \<le> length block"
  shows "blake3_compress_in_place P cv block bl counter flags =
    blake3_compress_in_place_portable cv block bl counter flags"
  using asm assms by (simp add: blake3_compress_in_place_def asm_agrees_def compress_in_place_ok_def Let_def)

lemma asm_compress_xof:
  assumes "length cv = 8" "64 \<le> length block"
  shows "blake3_compress_xof P cv block bl counter flags =
    blake3_compress_xof_portable cv block bl counter flags"
  using asm assms by (simp add: blake3_compress_xof_def asm_agrees_def compress_xof_ok_def Let_def)

lemma asm_xof_many_loop:
  assumes "length cv = 8" "64 \<le> length block"
  shows "xof_many_loop P n i cv block bl counter flags =
    concat (map (\<lambda>j. blake3_compress_xof_portable cv block bl (counter + of_nat j) flags) [i..<i + n])"
proof (induction n arbitrary: i)
  case (Suc n)
  then show ?case using assms by (simp add: asm_compress_xof upt_conv_Cons del: upt_Suc)
qed simp

lemma asm_xof_many:
  assumes "length cv = 8" "64 \<le> length block"
  shows "blake3_xof_many P cv block bl counter flags n = xof_blocks cv block bl counter flags n"
  using asm assms asm_xof_many_loop [OF assms, of n 0 bl counter flags]
  by (simp add: blake3_xof_many_def asm_agrees_def xof_blocks_def Let_def)

lemma asm_hash_many:
  assumes "length key = 8" "\<forall>input \<in> set inputs. 64 * blocks \<le> length input"
  shows "blake3_hash_many P inputs blocks key counter inc flags fs fe =
    blake3_hash_many_portable inputs blocks key counter inc flags fs fe"
  using asm assms by (simp add: blake3_hash_many_def asm_agrees_def hash_many_ok_def hash_many_neon_eq Let_def)

lemma asm_length_uninit: "length (uninit P n) = n"
  using asm by (simp add: asm_agrees_def)

end

sublocale asm_platform \<subseteq> blake3_platform P
  by unfold_locales (fact asm_compress_in_place asm_compress_xof asm_xof_many asm_hash_many asm_length_uninit)+

lemma asm_agrees_platform: "asm_agrees P \<Longrightarrow> blake3_platform P"
  by (intro blake3_platform.intro)
     (simp_all add: asm_platform.asm_compress_in_place asm_platform.asm_compress_xof
      asm_platform.asm_xof_many asm_platform.asm_hash_many asm_platform.asm_length_uninit asm_platform.intro)

section \<open>The configurations without assembly\<close>

text \<open>Configurations 2 (arm64, NEON) and 3 (portable C) of the \<open>dune\<close> file of the library link no
  assembly: its fields are filled with the portable routines and never called.\<close>

definition no_asm_platform :: "bool \<Rightarrow> platform" where
  "no_asm_platform neon =
     \<lparr>is_x86 = False, is_amd64 = False, is_win32 = False, use_neon = neon,
      no_sse2 = True, no_sse41 = True, no_avx2 = True, no_avx512 = True,
      cpuidex = (\<lambda>_ _. [0, 0, 0, 0]), xgetbv = 0,
      compress_in_place_avx512 = blake3_compress_in_place_portable,
      compress_in_place_sse41 = blake3_compress_in_place_portable,
      compress_in_place_sse2 = blake3_compress_in_place_portable,
      compress_xof_avx512 = blake3_compress_xof_portable,
      compress_xof_sse41 = blake3_compress_xof_portable,
      compress_xof_sse2 = blake3_compress_xof_portable,
      xof_many_avx512 = xof_blocks,
      hash_many_avx512 = blake3_hash_many_portable,
      hash_many_avx2 = blake3_hash_many_portable,
      hash_many_sse41 = blake3_hash_many_portable,
      hash_many_sse2 = blake3_hash_many_portable,
      uninit = (\<lambda>n. replicate n 0)\<rparr>"

definition portable_platform :: platform where "portable_platform = no_asm_platform False"
definition neon_platform :: platform where "neon_platform = no_asm_platform True"

lemma no_asm_platform_agrees: "asm_agrees (no_asm_platform neon)"
  by (simp add: asm_agrees_def no_asm_platform_def compress_in_place_ok_def compress_xof_ok_def hash_many_ok_def)

lemma portable_platform_agrees: "asm_agrees portable_platform"
  and neon_platform_agrees: "asm_agrees neon_platform"
  by (simp_all add: portable_platform_def neon_platform_def no_asm_platform_agrees)

lemma simd_degree_portable: "blake3_simd_degree portable_platform = 1"
  and simd_degree_neon: "blake3_simd_degree neon_platform = 4"
  by (simp_all add: portable_platform_def neon_platform_def no_asm_platform_def blake3_simd_degree_def Let_def)

interpretation portable: asm_platform portable_platform
  by unfold_locales (fact portable_platform_agrees)

interpretation neon: asm_platform neon_platform
  by unfold_locales (fact neon_platform_agrees)

section \<open>Properties\<close>



text \<open>The processor features are detected once: from the initial cell, every later call returns the
  value of the first and leaves the cell unchanged (the detected set is never the sentinel
  \<open>UNDEFINED\<close>), so all dispatching functions of a process see the same features.\<close>

theorem cpu_features_stable:
  "(let (f, cell) = get_cpu_features P UNDEFINED in get_cpu_features P cell = (f, cell)) \<and>
   detect_features P \<noteq> UNDEFINED"
  using get_cpu_features_cached [of "snd (get_cpu_features P UNDEFINED)" P] detect_features_neq [of P]
  by (auto simp: cpu_features_def prod_eq_iff split: prod.splits)

text \<open>The SIMD degree is a power of two between 1 and \<open>MAX_SIMD_DEGREE\<close>, the size of the arrays that
  hold one entry per lane.\<close>

theorem simd_degree_spec:
  "blake3_simd_degree P \<in> {1, 4, 8, 16} \<and> blake3_simd_degree P \<le> MAX_SIMD_DEGREE P"
  using simd_degree_cases simd_degree_le_MAX by blast

end
