(* ===== verification/Blake3_Output.thy ===== *)
theory Blake3_Output
  imports Blake3_Dispatch
begin

unbundle bit_operations_syntax

text \<open>
  The \<open>output_t\<close> objects of \<open>blake3.c\<close>: the arguments of a compression that is still to be done,
  either for a chaining value or, at the root, for output bytes of any length from any position.
  The extended output is specified byte by byte (\<open>xof_byte\<close>), and \<open>output_root_bytes\<close>, with its
  partial first block, its run of whole blocks and its partial last block, is proved to produce
  exactly that stretch of the stream.
\<close>

section \<open>Operations\<close>

record output_t =
  input_cv :: "u32 list"
  ot_counter :: u64
  ot_block :: "byte list"
  ot_block_len :: byte
  ot_flags :: byte

definition make_output :: "u32 list \<Rightarrow> byte list \<Rightarrow> byte \<Rightarrow> u64 \<Rightarrow> byte \<Rightarrow> output_t" where
  "make_output cv block block_len counter flags =
     \<lparr>input_cv = take 8 cv, ot_counter = counter, ot_block = take BLAKE3_BLOCK_LEN block,
      ot_block_len = block_len, ot_flags = flags\<rparr>"

definition output_chaining_value :: "platform \<Rightarrow> output_t \<Rightarrow> byte list" where
  "output_chaining_value P self =
     (let cv_words = input_cv self;
          cv_words = blake3_compress_in_place P cv_words (ot_block self) (ot_block_len self)
                       (ot_counter self) (ot_flags self)
      in store_cv_words cv_words)"

text \<open>The bytes written to \<open>out\<close>, in order; \<open>out\<close> and \<open>out_len\<close> advance together.\<close>

definition output_root_bytes :: "platform \<Rightarrow> output_t \<Rightarrow> u64 \<Rightarrow> nat \<Rightarrow> byte list" where
  "output_root_bytes P self seek out_len =
     (if out_len = 0 then []
      else let output_block_counter = seek div 64;
               offset_within_block = unat (seek mod 64);
               (out1, out_len, output_block_counter) =
                 (if offset_within_block \<noteq> 0 then
                    let wide_buf = blake3_compress_xof P (input_cv self) (ot_block self) (ot_block_len self)
                                     output_block_counter (ot_flags self OR ROOT);
                        available_bytes = 64 - offset_within_block;
                        bytes = (if out_len > available_bytes then available_bytes else out_len)
                    in (take bytes (drop offset_within_block wide_buf), out_len - bytes, output_block_counter + 1)
                  else ([], out_len, output_block_counter));
               out2 = (if out_len div 64 \<noteq> 0 then
                         blake3_xof_many P (input_cv self) (ot_block self) (ot_block_len self)
                           output_block_counter (ot_flags self OR ROOT) (out_len div 64)
                       else []);
               output_block_counter = output_block_counter + of_nat (out_len div 64);
               out_len = out_len - unat ((of_nat out_len :: u64) AND - 64);
               out3 = (if out_len \<noteq> 0 then
                         let wide_buf = blake3_compress_xof P (input_cv self) (ot_block self) (ot_block_len self)
                                          output_block_counter (ot_flags self OR ROOT)
                         in take out_len wide_buf
                       else [])
           in out1 @ out2 @ out3)"

definition parent_output :: "byte list \<Rightarrow> u32 list \<Rightarrow> byte \<Rightarrow> output_t" where
  "parent_output block key flags =
     make_output key block (of_nat BLAKE3_BLOCK_LEN) 0 (flags OR PARENT)"

section \<open>Specification\<close>

text \<open>The chaining value of an output, and byte \<open>i\<close> of the extended output of a root.\<close>

definition output_cv :: "output_t \<Rightarrow> byte list" where
  "output_cv ot = store_cv_words (blake3_compress_in_place_portable (input_cv ot) (ot_block ot)
     (ot_block_len ot) (ot_counter ot) (ot_flags ot))"

definition xof_block :: "output_t \<Rightarrow> nat \<Rightarrow> byte list" where
  "xof_block ot n = blake3_compress_xof_portable (input_cv ot) (ot_block ot) (ot_block_len ot)
     (of_nat n) (ot_flags ot OR ROOT)"

definition xof_byte :: "output_t \<Rightarrow> nat \<Rightarrow> byte" where
  "xof_byte ot i = xof_block ot (i div 64) ! (i mod 64)"

definition output_wf :: "output_t \<Rightarrow> bool" where
  "output_wf ot \<longleftrightarrow> length (input_cv ot) = 8 \<and> length (ot_block ot) = 64"

section \<open>Lemmas\<close>

lemma output_wf_make_output: "length cv = 8 \<Longrightarrow> 64 \<le> length block \<Longrightarrow> output_wf (make_output cv block bl c f)"
  by (simp add: output_wf_def make_output_def)

lemma output_wf_parent_output: "length key = 8 \<Longrightarrow> 64 \<le> length block \<Longrightarrow> output_wf (parent_output block key f)"
  by (simp add: parent_output_def output_wf_make_output)

lemma length_output_cv [simp, len_simps]: "length (output_cv ot) = 32"
  by (simp add: output_cv_def)

lemma length_xof_block [simp, len_simps]: "length (xof_block ot n) = 64"
  by (simp add: xof_block_def)

lemma parent_output_take: "parent_output (take 64 block) key f = parent_output block key f"
  by (simp add: parent_output_def make_output_def)

text \<open>Whole blocks, and parts of one block, of the extended output.\<close>

lemma xof_bytes_in_block:
  assumes "k + n \<le> 64"
  shows "map (xof_byte ot) [64 * b + k..<64 * b + k + n] = take n (drop k (xof_block ot b))"
proof (rule nth_equalityI)
  fix i assume "i < length (map (xof_byte ot) [64 * b + k..<64 * b + k + n])"
  then have "i < n" by simp
  moreover from this have "(64 * b + k + i) div 64 = b" "(64 * b + k + i) mod 64 = k + i"
    using assms by (simp_all add: add.assoc)
  ultimately show "map (xof_byte ot) [64 * b + k..<64 * b + k + n] ! i = take n (drop k (xof_block ot b)) ! i"
    using assms by (simp add: xof_byte_def)
qed (use assms in simp)

lemma xof_bytes_blocks:
  "map (xof_byte ot) [64 * b..<64 * (b + n)] = concat (map (xof_block ot) [b..<b + n])"
proof (induction n)
  case (Suc n)
  have "[64 * b..<64 * (b + Suc n)] = [64 * b..<64 * (b + n)] @ [64 * (b + n)..<64 * (b + n) + 64]"
    using upt_add_eq_append [of "64 * b" "64 * (b + n)" 64] by (simp add: algebra_simps)
  then show ?case using Suc xof_bytes_in_block [of 0 64 ot "b + n"] by (simp add: algebra_simps)
qed simp

lemma unat_and_minus_64:
  assumes "n < 2 ^ 64"
  shows "unat ((of_nat n :: u64) AND - 64) = 64 * (n div 64)"
proof -
  have m: "(- 64 :: u64) = NOT (mask 6)" by (simp add: mask_eq_exp_minus_1)
  have "(of_nat n :: u64) AND NOT (mask 6) = push_bit 6 (drop_bit 6 (of_nat n))"
    by (rule bit_word_eqI) (auto simp: bit_simps)
  then have "unat ((of_nat n :: u64) AND - 64) = unat (push_bit 6 (drop_bit 6 (of_nat n :: u64)))"
    by (simp only: m)
  also have "\<dots> = 64 * (n div 64)"
  proof -
    have "unat (drop_bit 6 (of_nat n :: u64)) = n div 64"
      using assms by (simp add: unat_drop_bit_div unat_of_nat)
    moreover have "64 * (n div 64) < 2 ^ 64" using assms by simp
    ultimately show ?thesis by (simp add: push_bit_eq_mult unat_word_ariths)
  qed
  finally show ?thesis .
qed


context blake3_platform
begin

lemma output_chaining_value_eq: "output_wf ot \<Longrightarrow> output_chaining_value P ot = output_cv ot"
  by (simp add: output_chaining_value_def output_cv_def output_wf_def compress_in_place_eq)

lemma xof_blocks_eq:
  "xof_blocks (input_cv ot) (ot_block ot) (ot_block_len ot) (of_nat b) (ot_flags ot OR ROOT) n =
   map (xof_byte ot) [64 * b..<64 * (b + n)]"
proof -
  have "map (xof_block ot) [b..<b + n] = map (\<lambda>i. xof_block ot (b + i)) [0..<n]"
    by (rule nth_equalityI) auto
  then show ?thesis
    by (simp only: xof_bytes_blocks) (simp add: xof_blocks_def xof_block_def)
qed

text \<open>The whole blocks and the partial block at the end, from block \<open>b\<close> on.\<close>

lemma root_bytes_aligned:
  assumes "output_wf ot" "n < 2 ^ 64"
  shows "(if n div 64 \<noteq> 0 then blake3_xof_many P (input_cv ot) (ot_block ot) (ot_block_len ot)
             (of_nat b) (ot_flags ot OR ROOT) (n div 64) else []) @
         (if n - unat ((of_nat n :: u64) AND - 64) \<noteq> 0 then
            take (n - unat ((of_nat n :: u64) AND - 64))
              (blake3_compress_xof P (input_cv ot) (ot_block ot) (ot_block_len ot)
                (of_nat b + of_nat (n div 64)) (ot_flags ot OR ROOT)) else []) =
         map (xof_byte ot) [64 * b..<64 * b + n]"
proof -
  have r: "n - unat ((of_nat n :: u64) AND - 64) = n mod 64"
    using assms(2) by (simp add: unat_and_minus_64 minus_mult_div_eq_mod)
  have "[64 * b..<64 * b + n] = [64 * b..<64 * (b + n div 64)] @
      [64 * (b + n div 64) + 0..<64 * (b + n div 64) + 0 + n mod 64]"
    using upt_add_eq_append [of "64 * b" "64 * (b + n div 64)" "n mod 64"] mult_div_mod_eq [of 64 n]
    by (simp add: algebra_simps)
  moreover have "blake3_xof_many P (input_cv ot) (ot_block ot) (ot_block_len ot)
      (of_nat b) (ot_flags ot OR ROOT) (n div 64) = map (xof_byte ot) [64 * b..<64 * (b + n div 64)]"
    using assms(1) by (simp add: output_wf_def xof_many_eq xof_blocks_eq)
  moreover have "take (n mod 64) (blake3_compress_xof P (input_cv ot) (ot_block ot) (ot_block_len ot)
      (of_nat b + of_nat (n div 64)) (ot_flags ot OR ROOT)) =
      map (xof_byte ot) [64 * (b + n div 64) + 0..<64 * (b + n div 64) + 0 + n mod 64]"
    using assms(1) by (subst xof_bytes_in_block) (simp_all add: output_wf_def compress_xof_eq xof_block_def)
  ultimately show ?thesis unfolding r by auto
qed

lemma output_root_bytes_eq:
  assumes "output_wf ot" "n < 2 ^ 64"
  shows "output_root_bytes P ot seek n = map (xof_byte ot) [unat seek..<unat seek + n]"
proof -
  define b k where "b = unat seek div 64" and "k = unat seek mod 64"
  have s: "unat seek = 64 * b + k" and k: "k < 64" by (simp_all add: b_def k_def)
  have kb: "unat (seek mod 64) = k" "seek div 64 = of_nat b"
    by (simp_all add: k_def b_def unat_mod unat_div_distrib word_arith_nat_defs(6) unat_of_nat)
  show ?thesis
  proof (cases "k = 0 \<or> n = 0")
    case True
    then show ?thesis using root_bytes_aligned [OF assms, of b] assms s
      by (auto simp: output_root_bytes_def kb Let_def)
  next
    case False
    define m where "m = (if n > 64 - k then 64 - k else n)"
    have m: "k + m \<le> 64" "m \<le> n" "n - m = 0 \<or> k + m = 64" using k by (auto simp: m_def)
    have first: "take m (drop k (blake3_compress_xof P (input_cv ot) (ot_block ot) (ot_block_len ot)
        (of_nat b) (ot_flags ot OR ROOT))) = map (xof_byte ot) [unat seek..<unat seek + m]"
      unfolding s using assms(1) m by (subst xof_bytes_in_block) (simp_all add: output_wf_def compress_xof_eq xof_block_def)
    have rest: "map (xof_byte ot) [64 * Suc b..<64 * Suc b + (n - m)] =
        map (xof_byte ot) [unat seek + m..<unat seek + n]"
    proof (cases "n - m = 0")
      case False
      then have "64 * Suc b = unat seek + m" "64 * Suc b + (n - m) = unat seek + n"
        using m by (simp_all add: s)
      then show ?thesis by simp
    qed (use m in simp)
    have split: "[unat seek..<unat seek + n] = [unat seek..<unat seek + m] @ [unat seek + m..<unat seek + n]"
      using upt_add_eq_append [of "unat seek" "unat seek + m" "n - m"] m by simp
    define n' where "n' = n - m"
    have n': "n' < 2 ^ 64" using assms(2) by (simp add: n'_def)
    have c: "of_nat b + 1 = (of_nat (Suc b) :: u64)" by simp
    have "output_root_bytes P ot seek n = take m (drop k (blake3_compress_xof P (input_cv ot) (ot_block ot) (ot_block_len ot)
        (of_nat b) (ot_flags ot OR ROOT))) @ map (xof_byte ot) [64 * Suc b..<64 * Suc b + n']"
      using root_bytes_aligned [OF assms(1) n', of "Suc b", symmetric] False
      by (simp add: output_root_bytes_def kb Let_def m_def [symmetric] n'_def [symmetric] c del: of_nat_Suc)
    then show ?thesis by (simp only: first rest split n'_def map_append)
  qed
qed

end

section \<open>Properties\<close>

text \<open>C18. \<open>output_root_bytes\<close> writes exactly the bytes from \<open>seek\<close> on of the extended output stream, for
  every position, aligned or not, and every length: the partial first block, the whole blocks and
  the partial last block join without gap or overlap.\<close>

theorem output_root_bytes_spec:
  assumes "asm_agrees P" "length (input_cv ot) = 8" "length (ot_block ot) = 64" "n < 2 ^ 64"
  shows "output_root_bytes P ot seek n = map (xof_byte ot) [unat seek..<unat seek + n]"
  using assms by (intro blake3_platform.output_root_bytes_eq asm_agrees_platform) (simp_all add: output_wf_def)

theorem output_root_bytes_spec_witness:
  "output_root_bytes neon_platform (make_output IV (replicate 64 0) 0 0 11) 100 150 =
    map (xof_byte (make_output IV (replicate 64 0) 0 0 11)) [100..<250]"
  using output_root_bytes_spec [OF neon_platform_agrees, of "make_output IV (replicate 64 0) 0 0 11" 150 100]
  by (simp add: make_output_def IV_def)

end
