(* ===== verification/Blake3_Spec.thy ===== *)
theory Blake3_Spec
  imports Blake3_Output
begin

unbundle bit_operations_syntax

text \<open>
  The reference definition of BLAKE3, as its specification gives it and independent of the way
  \<open>blake3.c\<close> computes it: a chunk is a chain of block compressions, the tree over the chunks has
  at every node the largest complete left subtree that leaves at least one byte on the right, and
  the output is the extended output of the root. It is the abstract side of the refinement theorems
  on chunks, subtrees and hashers.
\<close>

section \<open>Chunks\<close>

definition start_flag :: "nat \<Rightarrow> byte" where
  "start_flag k = (if k = 0 then CHUNK_START else 0)"

text \<open>The chaining value after the first \<open>k\<close> blocks of a chunk, all of them whole.\<close>

primrec chunk_cv :: "u32 list \<Rightarrow> byte \<Rightarrow> u64 \<Rightarrow> byte list \<Rightarrow> nat \<Rightarrow> u32 list" where
  "chunk_cv key flags counter bs 0 = key"
| "chunk_cv key flags counter bs (Suc k) =
     blake3_compress_in_place_portable (chunk_cv key flags counter bs k) (take 64 (drop (64 * k) bs)) 64
       counter (flags OR start_flag k)"

text \<open>The last block of a chunk is never empty, unless the chunk is; it is padded with zeros.\<close>

definition chunk_output :: "u32 list \<Rightarrow> byte \<Rightarrow> u64 \<Rightarrow> byte list \<Rightarrow> output_t" where
  "chunk_output key flags counter bs =
     (let k = (length bs - 1) div 64; rest = drop (64 * k) bs
      in \<lparr>input_cv = chunk_cv key flags counter bs k, ot_counter = counter,
          ot_block = rest @ replicate (64 - length rest) 0, ot_block_len = of_nat (length rest),
          ot_flags = flags OR start_flag k OR CHUNK_END\<rparr>)"

section \<open>The tree\<close>

definition left_len :: "nat \<Rightarrow> nat" where
  "left_len n = 1024 * floor_pow2 ((n - 1) div 1024)"

lemma left_len_bounds:
  assumes "1024 < n"
  shows "1024 \<le> left_len n" "left_len n < n"
proof -
  have p: "0 < (n - 1) div 1024" using assms by (simp add: div_greater_zero_iff)
  from floor_pow2_le [OF p] have "left_len n \<le> 1024 * ((n - 1) div 1024)" by (simp add: left_len_def)
  also have "\<dots> \<le> n - 1" by simp
  finally show "left_len n < n" using assms by simp
  show "1024 \<le> left_len n" using is_pow2_pos [OF is_pow2_floor_pow2] by (simp add: left_len_def Suc_le_eq)
qed

function tree_output :: "u32 list \<Rightarrow> byte \<Rightarrow> u64 \<Rightarrow> byte list \<Rightarrow> output_t" where
  "tree_output key flags counter bs =
     (if length bs \<le> 1024 then chunk_output key flags counter bs
      else let l = left_len (length bs)
           in parent_output
                (output_cv (tree_output key flags counter (take l bs)) @
                 output_cv (tree_output key flags (counter + of_nat (l div 1024)) (drop l bs))) key flags)"
  by pat_completeness auto
termination
proof (relation "measure (\<lambda>(key, flags, counter, bs). length bs)", goal_cases)
  case (2 key flags counter bs l)
  then show ?case using left_len_bounds [of "length bs"] by simp
next
  case (3 key flags counter bs l)
  then show ?case using left_len_bounds [of "length bs"] by simp
qed simp

declare tree_output.simps [simp del]

text \<open>\<open>n\<close> bytes of output from position \<open>s\<close>, for a key and the flags of a mode.\<close>

definition blake3_xof :: "u32 list \<Rightarrow> byte \<Rightarrow> byte list \<Rightarrow> nat \<Rightarrow> nat \<Rightarrow> byte list" where
  "blake3_xof key flags bs s n = map (xof_byte (tree_output key flags 0 bs)) [s..<s + n]"

section \<open>Lemmas\<close>

lemma length_chunk_cv [simp, len_simps]: "length key = 8 \<Longrightarrow> length (chunk_cv key flags counter bs k) = 8"
  by (cases k) simp_all

lemma chunk_cv_append:
  "64 * k \<le> length bs \<Longrightarrow> chunk_cv key flags counter (bs @ ys) k = chunk_cv key flags counter bs k"
  by (induction k) simp_all

lemma chunk_cv_take:
  assumes "64 * k \<le> n"
  shows "chunk_cv key flags counter (take n bs) k = chunk_cv key flags counter bs k"
  using assms by (induction k) (simp_all add: drop_take min_def)

lemma output_wf_chunk_output: "length key = 8 \<Longrightarrow> length bs \<le> 1024 \<Longrightarrow> output_wf (chunk_output key flags counter bs)"
  by (auto simp: output_wf_def chunk_output_def Let_def)

lemma output_wf_tree_output: "length key = 8 \<Longrightarrow> output_wf (tree_output key flags counter bs)"
  by (subst tree_output.simps) (simp add: output_wf_chunk_output output_wf_parent_output Let_def)

lemma tree_output_chunk: "length bs \<le> 1024 \<Longrightarrow> tree_output key flags counter bs = chunk_output key flags counter bs"
  by (simp add: tree_output.simps)

text \<open>A full chunk is what \<open>hash_many\<close> computes over sixteen blocks.\<close>

lemma hash_one_loop_chunk:
  assumes "64 * (k + Suc n) = 1024" "length bs = 1024"
  shows "hash_one_loop (Suc n) (chunk_cv key flags counter bs k) (drop (64 * k) bs) counter flags
      (flags OR start_flag k) CHUNK_END =
    blake3_compress_in_place_portable (chunk_cv key flags counter bs 15) (drop 960 bs) 64 counter
      (flags OR start_flag 15 OR CHUNK_END)"
  using assms
proof (induction n arbitrary: k)
  case 0
  then have "k = 15" by simp
  then show ?case by (simp add: or.assoc)
next
  case (Suc n)
  have "start_flag (Suc k) = 0" by (simp add: start_flag_def)
  then show ?case using Suc.IH [of "Suc k"] Suc.prems
    by (simp add: Let_def compress_in_place_take add.commute)
qed

lemma hash_one_loop_take:
  "64 * n \<le> m \<Longrightarrow> hash_one_loop n cv (take m input) counter flags bf fe = hash_one_loop n cv input counter flags bf fe"
proof (induction n arbitrary: cv input m bf)
  case (Suc n)
  then show ?case by (simp add: Let_def compress_in_place_take drop_take)
qed simp

lemma hash_one_chunk:
  assumes "1024 \<le> length input"
  shows "hash_one_portable input 16 key counter flags CHUNK_START CHUNK_END =
    output_cv (chunk_output key flags counter (take 1024 input))"
proof -
  define bs where "bs = take 1024 input"
  have len: "length bs = 1024" using assms by (simp add: bs_def)
  have "hash_one_loop 16 key input counter flags (flags OR CHUNK_START) CHUNK_END =
      hash_one_loop 16 key bs counter flags (flags OR CHUNK_START) CHUNK_END"
    by (simp add: bs_def hash_one_loop_take)
  also have "\<dots> = blake3_compress_in_place_portable (chunk_cv key flags counter bs 15) (drop 960 bs) 64 counter
      (flags OR start_flag 15 OR CHUNK_END)"
    using hash_one_loop_chunk [of 0 15 bs key flags counter] len by (simp add: start_flag_def)
  finally show ?thesis
    by (simp add: hash_one_portable_def output_cv_def chunk_output_def len bs_def [symmetric])
qed

text \<open>A parent is what \<open>hash_many\<close> computes over one block.\<close>

lemma hash_one_parent:
  assumes "64 \<le> length input" "length key = 8"
  shows "hash_one_portable input 1 key 0 (flags OR PARENT) 0 0 = output_cv (parent_output input key flags)"
  using assms by (simp add: hash_one_portable_def output_cv_def parent_output_def make_output_def
      compress_in_place_take)

end
