(* ===== verification/Blake3_Chunk.thy ===== *)
theory Blake3_Chunk
  imports Blake3_Spec
begin

unbundle bit_operations_syntax

text \<open>
  The incremental chunk state of \<open>blake3.c\<close>: up to 1024 bytes fed in pieces, of which all whole
  blocks but the last are compressed and the rest waits in a 64-byte buffer. \<open>chunk_rep\<close> relates a
  state to the bytes it stands for; updating keeps it, and the output of the state is the
  reference output of those bytes, whatever the pieces were.
\<close>

section \<open>Operations\<close>

record blake3_chunk_state =
  cs_cv :: "u32 list"
  chunk_counter :: u64
  buf :: "byte list"
  buf_len :: byte
  blocks_compressed :: byte
  cs_flags :: byte

definition chunk_state_init :: "u32 list \<Rightarrow> byte \<Rightarrow> blake3_chunk_state" where
  "chunk_state_init key flags =
     \<lparr>cs_cv = take 8 key, chunk_counter = 0, buf = replicate BLAKE3_BLOCK_LEN 0, buf_len = 0,
      blocks_compressed = 0, cs_flags = flags\<rparr>"

definition chunk_state_reset :: "blake3_chunk_state \<Rightarrow> u32 list \<Rightarrow> u64 \<Rightarrow> blake3_chunk_state" where
  "chunk_state_reset self key counter =
     self\<lparr>cs_cv := take 8 key, chunk_counter := counter, blocks_compressed := 0,
          buf := replicate BLAKE3_BLOCK_LEN 0, buf_len := 0\<rparr>"

definition chunk_state_len :: "blake3_chunk_state \<Rightarrow> nat" where
  "chunk_state_len self = BLAKE3_BLOCK_LEN * unat (blocks_compressed self) + unat (buf_len self)"

text \<open>Returns the new state and the number of bytes taken.\<close>

definition chunk_state_fill_buf :: "blake3_chunk_state \<Rightarrow> byte list \<Rightarrow> nat \<Rightarrow> blake3_chunk_state \<times> nat" where
  "chunk_state_fill_buf self input input_len =
     (let take_n = BLAKE3_BLOCK_LEN - unat (buf_len self);
          take_n = (if take_n > input_len then input_len else take_n);
          self = self\<lparr>buf := memcpy (buf self) (unat (buf_len self)) (take take_n input),
                      buf_len := buf_len self + of_nat take_n\<rparr>
      in (self, take_n))"

definition chunk_state_maybe_start_flag :: "blake3_chunk_state \<Rightarrow> byte" where
  "chunk_state_maybe_start_flag self = (if blocks_compressed self = 0 then CHUNK_START else 0)"

text \<open>The \<open>while\<close> loop of \<open>chunk_state_update\<close>: whole blocks straight from the input. It returns
  the state with the input pointer and length that are left.\<close>

function chunk_state_update_loop ::
    "platform \<Rightarrow> blake3_chunk_state \<Rightarrow> byte list \<Rightarrow> nat \<Rightarrow> blake3_chunk_state \<times> byte list \<times> nat" where
  "chunk_state_update_loop P self input input_len =
     (if input_len > BLAKE3_BLOCK_LEN then
        let self = self\<lparr>cs_cv := blake3_compress_in_place P (cs_cv self) input (of_nat BLAKE3_BLOCK_LEN)
                          (chunk_counter self) (cs_flags self OR chunk_state_maybe_start_flag self),
                        blocks_compressed := blocks_compressed self + 1\<rparr>
        in chunk_state_update_loop P self (drop BLAKE3_BLOCK_LEN input) (input_len - BLAKE3_BLOCK_LEN)
      else (self, input, input_len))"
  by pat_completeness auto
termination by (relation "measure (\<lambda>(P, self, input, input_len). input_len)") auto

declare chunk_state_update_loop.simps [simp del]

definition chunk_state_update ::
    "platform \<Rightarrow> blake3_chunk_state \<Rightarrow> byte list \<Rightarrow> nat \<Rightarrow> blake3_chunk_state" where
  "chunk_state_update P self input input_len =
     (let (self, input, input_len) =
            (if buf_len self > 0 then
               let (self, take_n) = chunk_state_fill_buf self input input_len;
                   input = drop take_n input;
                   input_len = input_len - take_n
               in if input_len > 0 then
                    let self = self\<lparr>cs_cv := blake3_compress_in_place P (cs_cv self) (buf self)
                                      (of_nat BLAKE3_BLOCK_LEN) (chunk_counter self)
                                      (cs_flags self OR chunk_state_maybe_start_flag self)\<rparr>;
                        self = self\<lparr>blocks_compressed := blocks_compressed self + 1, buf_len := 0,
                                    buf := replicate BLAKE3_BLOCK_LEN 0\<rparr>
                    in (self, input, input_len)
                  else (self, input, input_len)
             else (self, input, input_len));
          (self, input, input_len) = chunk_state_update_loop P self input input_len
      in fst (chunk_state_fill_buf self input input_len))"

definition chunk_state_output :: "blake3_chunk_state \<Rightarrow> output_t" where
  "chunk_state_output self =
     (let block_flags = cs_flags self OR chunk_state_maybe_start_flag self OR CHUNK_END
      in make_output (cs_cv self) (buf self) (buf_len self) (chunk_counter self) block_flags)"

section \<open>The bytes a state stands for\<close>

text \<open>\<open>chunk_at k bs self\<close>: the first \<open>k\<close> blocks of \<open>bs\<close> are compressed and the rest, at most one
  block, is in the buffer. In a \<open>chunk_rep\<close> the buffer is empty only if there are no bytes at all.\<close>

definition chunk_at :: "u32 list \<Rightarrow> byte \<Rightarrow> u64 \<Rightarrow> nat \<Rightarrow> byte list \<Rightarrow> blake3_chunk_state \<Rightarrow> bool" where
  "chunk_at key flags counter k bs self \<longleftrightarrow>
     k < 16 \<and> 64 * k \<le> length bs \<and> length bs \<le> 64 * k + 64 \<and>
     cs_cv self = chunk_cv key flags counter bs k \<and> chunk_counter self = counter \<and>
     buf self = drop (64 * k) bs @ replicate (64 - (length bs - 64 * k)) 0 \<and>
     unat (buf_len self) = length bs - 64 * k \<and> unat (blocks_compressed self) = k \<and>
     cs_flags self = flags"

definition chunk_rep :: "u32 list \<Rightarrow> byte \<Rightarrow> u64 \<Rightarrow> byte list \<Rightarrow> blake3_chunk_state \<Rightarrow> bool" where
  "chunk_rep key flags counter bs self \<longleftrightarrow>
     chunk_at key flags counter ((length bs - 1) div 64) bs self"

lemma chunk_at_fields:
  assumes "chunk_at key flags counter k bs self"
  shows "k < 16" "64 * k \<le> length bs" "length bs \<le> 64 * k + 64" "length bs \<le> 1024"
    "cs_cv self = chunk_cv key flags counter bs k" "chunk_counter self = counter"
    "buf self = drop (64 * k) bs @ replicate (64 - (length bs - 64 * k)) 0"
    "unat (buf_len self) = length bs - 64 * k" "unat (blocks_compressed self) = k" "cs_flags self = flags"
  using assms by (simp_all add: chunk_at_def)

lemma chunk_rep_at:
  assumes "chunk_at key flags counter k bs self" "64 * k < length bs \<or> bs = []"
  shows "chunk_rep key flags counter bs self"
proof -
  have "k = (length bs - 1) div 64"
    using assms(2) chunk_at_fields(1,2,3) [OF assms(1)] by (cases "bs = []") auto
  then show ?thesis using assms(1) by (simp add: chunk_rep_def)
qed

lemma chunk_rep_length: "chunk_rep key flags counter bs self \<Longrightarrow> length bs \<le> 1024"
  unfolding chunk_rep_def by (rule chunk_at_fields)

lemma chunk_rep_counter: "chunk_rep key flags counter bs self \<Longrightarrow> chunk_counter self = counter"
  unfolding chunk_rep_def by (rule chunk_at_fields)

lemma chunk_rep_flags: "chunk_rep key flags counter bs self \<Longrightarrow> cs_flags self = flags"
  unfolding chunk_rep_def by (rule chunk_at_fields)

lemma chunk_rep_init:
  assumes "length key = 8"
  shows "chunk_rep key flags counter [] ((chunk_state_init key flags)\<lparr>chunk_counter := counter\<rparr>)"
  using assms by (simp add: chunk_rep_def chunk_at_def chunk_state_init_def)

lemma chunk_rep_reset:
  assumes "length key = 8"
  shows "chunk_rep key (cs_flags self) counter [] (chunk_state_reset self key counter)"
  using assms by (cases self) (simp add: chunk_rep_def chunk_at_def chunk_state_reset_def)

lemma chunk_state_len_rep: "chunk_rep key flags counter bs self \<Longrightarrow> chunk_state_len self = length bs"
  unfolding chunk_rep_def by (frule chunk_at_fields(2)) (simp add: chunk_state_len_def chunk_at_fields)

lemma maybe_start_flag_at: "chunk_at key flags counter k bs self \<Longrightarrow> chunk_state_maybe_start_flag self = start_flag k"
  using chunk_at_fields(9) [of key flags counter k bs self]
  by (auto simp: chunk_state_maybe_start_flag_def start_flag_def unat_eq_0)

lemma chunk_state_output_rep:
  assumes "chunk_rep key flags counter bs self" "length key = 8"
  shows "chunk_state_output self = chunk_output key flags counter bs"
proof -
  define k where "k = (length bs - 1) div 64"
  from assms(1) have c: "chunk_at key flags counter k bs self" by (simp add: chunk_rep_def k_def)
  have "buf_len self = of_nat (length (drop (64 * k) bs))"
  proof -
    have "of_nat (unat (buf_len self)) = buf_len self" by simp
    then show ?thesis by (simp only: chunk_at_fields(8) [OF c] length_drop)
  qed
  then show ?thesis using chunk_at_fields [OF c] assms(2) maybe_start_flag_at [OF c]
    by (simp add: chunk_state_output_def chunk_output_def make_output_def k_def [simplified, symmetric] Let_def
        or.assoc del: of_nat_diff)
qed

section \<open>Updating\<close>

text \<open>Filling the buffer appends what fits.\<close>

lemma fill_buf_at:
  assumes c: "chunk_at key flags counter k bs self" and n: "n \<le> length input"
    and m: "m = min n (64 * k + 64 - length bs)"
  shows "snd (chunk_state_fill_buf self input n) = m"
    and "chunk_at key flags counter k (bs @ take m input) (fst (chunk_state_fill_buf self input n))"
proof -
  note f = chunk_at_fields [OF c]
  have m': "m \<le> n" "length bs + m \<le> 64 * k + 64" "length (take m input) = m" using f(3) n by (auto simp: m)
  have tk: "(if 64 - unat (buf_len self) > n then n else 64 - unat (buf_len self)) = m"
    using f(2,3,8) by (auto simp: m)
  show "snd (chunk_state_fill_buf self input n) = m"
    using tk by (simp add: chunk_state_fill_buf_def Let_def)
  have buf: "memcpy (buf self) (unat (buf_len self)) (take m input) =
      drop (64 * k) (bs @ take m input) @ replicate (64 - (length (bs @ take m input) - 64 * k)) 0"
    using f(2,3) m' by (simp add: f(7,8) memcpy_def)
  have "unat (of_nat m :: byte) = m" using m' f(2,3) by (simp add: unat_of_nat)
  then have len: "unat (buf_len self + of_nat m) = length (bs @ take m input) - 64 * k"
    using f(2,3) m' by (simp add: unat_word_ariths f(8))
  have cv: "chunk_cv key flags counter (bs @ take m input) k = chunk_cv key flags counter bs k"
    using f(2) by (rule chunk_cv_append)
  have "fst (chunk_state_fill_buf self input n) =
      self\<lparr>buf := memcpy (buf self) (unat (buf_len self)) (take m input), buf_len := buf_len self + of_nat m\<rparr>"
    unfolding chunk_state_fill_buf_def Let_def tk by simp
  then show "chunk_at key flags counter k (bs @ take m input) (fst (chunk_state_fill_buf self input n))"
    using f(1-6,9,10) m' buf len cv by (simp add: chunk_at_def)
qed

context blake3_platform
begin

text \<open>Compressing a full buffer.\<close>

lemma compress_buf_at:
  assumes c: "chunk_at key flags counter k bs self" and key: "length key = 8"
    and len: "length bs = 64 * k + 64" and k: "Suc k < 16"
  shows "chunk_at key flags counter (Suc k) bs
    (self\<lparr>cs_cv := blake3_compress_in_place P (cs_cv self) (buf self) 64 (chunk_counter self)
            (cs_flags self OR chunk_state_maybe_start_flag self),
         blocks_compressed := blocks_compressed self + 1, buf_len := 0, buf := replicate 64 0\<rparr>)"
proof -
  note f = chunk_at_fields [OF c]
  have "unat (blocks_compressed self + 1) = Suc k"
    using f(9) k by (simp add: unat_word_ariths)
  moreover have "chunk_cv key flags counter bs (Suc k) =
      blake3_compress_in_place P (cs_cv self) (buf self) 64 (chunk_counter self)
        (cs_flags self OR chunk_state_maybe_start_flag self)"
    using f len key by (simp add: compress_in_place_eq maybe_start_flag_at [OF c])
  ultimately show ?thesis using f len k by (simp add: chunk_at_def del: chunk_cv.simps)
qed

text \<open>Whole blocks from the input, while the buffer is empty.\<close>

lemma update_loop_at:
  assumes "chunk_at key flags counter k bs self" "length key = 8" "length bs = 64 * k"
    "n \<le> length input" "length bs + n \<le> 1024"
  shows "\<exists>k' m. m \<le> n \<and> n - m \<le> 64 \<and> (0 < n \<longrightarrow> m < n) \<and>
    snd (chunk_state_update_loop P self input n) = (drop m input, n - m) \<and>
    length (bs @ take m input) = 64 * k' \<and>
    chunk_at key flags counter k' (bs @ take m input) (fst (chunk_state_update_loop P self input n))"
  using assms
proof (induction n arbitrary: k bs self input rule: less_induct)
  case (less n)
  show ?case
  proof (cases "n > 64")
    case False
    then show ?thesis using less.prems
      by - (rule exI [of _ k], rule exI [of _ 0], simp add: chunk_state_update_loop.simps)
  next
    case True
    note f = chunk_at_fields [OF less.prems(1)]
    define self' where "self' = self\<lparr>cs_cv := blake3_compress_in_place P (cs_cv self) input 64
       (chunk_counter self) (cs_flags self OR chunk_state_maybe_start_flag self),
       blocks_compressed := blocks_compressed self + 1\<rparr>"
    define bs' where "bs' = bs @ take 64 input"
    have step: "chunk_state_update_loop P self input n = chunk_state_update_loop P self' (drop 64 input) (n - 64)"
      using True by (subst chunk_state_update_loop.simps) (simp add: self'_def)
    have k: "Suc k < 16" and len: "length bs' = 64 * Suc k" using less.prems True by (simp_all add: bs'_def)
    have "unat (blocks_compressed self + 1) = Suc k"
      using f(9) k by (simp add: unat_word_ariths)
    moreover have "chunk_cv key flags counter bs' (Suc k) =
        blake3_compress_in_place P (cs_cv self) input 64 (chunk_counter self)
          (cs_flags self OR chunk_state_maybe_start_flag self)"
      using f less.prems True
      by (simp add: bs'_def compress_in_place_eq maybe_start_flag_at [OF less.prems(1)] chunk_cv_append
          compress_in_place_take)
    ultimately have "chunk_at key flags counter (Suc k) bs' self'"
      using f len k less.prems(3) by (simp add: chunk_at_def self'_def del: chunk_cv.simps)
    moreover have "n - 64 < n" "n - 64 \<le> length (drop 64 input)" "length bs' + (n - 64) \<le> 1024"
      using True less.prems(3-5) len by simp_all
    ultimately have "\<exists>k' m. m \<le> n - 64 \<and> n - 64 - m \<le> 64 \<and> (0 < n - 64 \<longrightarrow> m < n - 64) \<and>
      snd (chunk_state_update_loop P self' (drop 64 input) (n - 64)) = (drop m (drop 64 input), n - 64 - m) \<and>
      length (bs' @ take m (drop 64 input)) = 64 * k' \<and>
      chunk_at key flags counter k' (bs' @ take m (drop 64 input)) (fst (chunk_state_update_loop P self' (drop 64 input) (n - 64)))"
      using less.IH less.prems(2) len by blast
    then obtain k' m where "m \<le> n - 64" "n - 64 - m \<le> 64" "m < n - 64"
      "snd (chunk_state_update_loop P self' (drop 64 input) (n - 64)) = (drop m (drop 64 input), n - 64 - m)"
      "length (bs' @ take m (drop 64 input)) = 64 * k'"
      "chunk_at key flags counter k' (bs' @ take m (drop 64 input)) (fst (chunk_state_update_loop P self' (drop 64 input) (n - 64)))"
      using True by auto
    moreover have "bs' @ take m (drop 64 input) = bs @ take (64 + m) input"
      by (simp add: bs'_def take_add)
    ultimately show ?thesis unfolding step using True
      by - (rule exI [of _ k'], rule exI [of _ "64 + m"], simp add: add.commute less_diff_conv)
  qed
qed

lemma chunk_state_update_empty_buf:
  assumes c: "chunk_at key flags counter k bs self" and key: "length key = 8" and len: "length bs = 64 * k"
    and n: "n \<le> length input" "length bs + n \<le> 1024" "0 < n \<or> bs = []"
  shows "chunk_rep key flags counter (bs @ take n input)
    (let (self, input, n) = chunk_state_update_loop P self input n in fst (chunk_state_fill_buf self input n))"
proof -
  obtain k' m where l: "m \<le> n" "n - m \<le> 64" "0 < n \<longrightarrow> m < n"
    "snd (chunk_state_update_loop P self input n) = (drop m input, n - m)"
    "length (bs @ take m input) = 64 * k'"
    "chunk_at key flags counter k' (bs @ take m input) (fst (chunk_state_update_loop P self input n))"
    using update_loop_at [OF c key len n(1,2)] by auto
  define self' where "self' = fst (chunk_state_update_loop P self input n)"
  have e: "chunk_state_update_loop P self input n = (self', drop m input, n - m)"
    using l(4) by (simp add: self'_def prod_eq_iff)
  have "n - m = min (n - m) (64 * k' + 64 - length (bs @ take m input))" using l(2,5) by simp
  from fill_buf_at(2) [OF l(6) _ this, of "drop m input"] n(1)
  have "chunk_at key flags counter k' ((bs @ take m input) @ take (n - m) (drop m input))
      (fst (chunk_state_fill_buf self' (drop m input) (n - m)))"
    by (simp add: self'_def)
  moreover have "(bs @ take m input) @ take (n - m) (drop m input) = bs @ take n input"
    using l(1) by (simp flip: take_add)
  ultimately have "chunk_at key flags counter k' (bs @ take n input)
      (fst (chunk_state_fill_buf self' (drop m input) (n - m)))" by simp
  moreover have "64 * k' < length (bs @ take n input) \<or> bs @ take n input = []"
    using n l by auto
  ultimately show ?thesis by (simp add: e chunk_rep_at)
qed

lemma chunk_state_update_rep:
  assumes r: "chunk_rep key flags counter bs self" and key: "length key = 8"
    and n: "n \<le> length input" "length bs + n \<le> 1024"
  shows "chunk_rep key flags counter (bs @ take n input) (chunk_state_update P self input n)"
proof -
  define k where "k = (length bs - 1) div 64"
  from r have c: "chunk_at key flags counter k bs self" by (simp add: chunk_rep_def k_def)
  note f = chunk_at_fields [OF c]
  show ?thesis
  proof (cases "bs = []")
    case True
    then have "buf_len self = 0" "length bs = 64 * k" using f(2,8) by (simp_all add: unat_eq_0)
    then show ?thesis using chunk_state_update_empty_buf [OF c key _ n] True
      by (simp add: chunk_state_update_def Let_def)
  next
    case False
    then have pos: "64 * k < length bs"
      using div_times_less_eq_dividend [of "length bs - 1" 64] by (cases bs) (auto simp: k_def)
    then have b: "0 < buf_len self" using f(8) by (simp add: word_less_nat_alt)
    define m where "m = min n (64 * k + 64 - length bs)"
    define self1 where "self1 = fst (chunk_state_fill_buf self input n)"
    from fill_buf_at [OF c n(1) m_def]
    have e: "chunk_state_fill_buf self input n = (self1, m)"
      and c1: "chunk_at key flags counter k (bs @ take m input) self1"
      by (simp_all add: self1_def prod_eq_iff)
    show ?thesis
    proof (cases "n - m = 0")
      case True
      then have "m = n" by (simp add: m_def)
      then have "chunk_state_update P self input n =
          fst (chunk_state_fill_buf self1 (drop n input) 0)"
        using b e by (simp add: chunk_state_update_def chunk_state_update_loop.simps)
      moreover have "chunk_at key flags counter k (bs @ take n input) (fst (chunk_state_fill_buf self1 (drop n input) 0))"
        using fill_buf_at(2) [OF c1, of 0 "drop n input"] \<open>m = n\<close> by simp
      moreover have "64 * k < length (bs @ take n input)" using pos by simp
      ultimately show ?thesis by (simp add: chunk_rep_at)
    next
      case False
      define bs' where "bs' = bs @ take m input"
      have len: "length bs' = 64 * k + 64" and m: "m < n" using False f(3) n(1) by (auto simp: bs'_def m_def min_def split: if_splits)
      then have k: "Suc k < 16" using n m by (auto simp: bs'_def)
      note c2 = compress_buf_at [OF c1 [folded bs'_def] key len k]
      have "chunk_rep key flags counter (bs' @ take (n - m) (drop m input)) (chunk_state_update P self input n)"
        using chunk_state_update_empty_buf [OF c2 key, of "n - m" "drop m input"] n len m b e
        by (simp add: chunk_state_update_def bs'_def)
      moreover have "bs' @ take (n - m) (drop m input) = bs @ take n input"
        using m by (simp add: bs'_def flip: take_add)
      ultimately show ?thesis by simp
    qed
  qed
qed

end

section \<open>Properties\<close>

lemma chunk_state_updates_rep:
  assumes "blake3_platform P" "length key = 8" "chunk_rep key flags counter bs self"
    and "length bs + length (concat pieces) \<le> 1024"
  shows "chunk_rep key flags counter (bs @ concat pieces)
    (fold (\<lambda>p cs. chunk_state_update P cs p (length p)) pieces self)"
  using assms(3,4)
proof (induction pieces arbitrary: bs self)
  case (Cons p pieces)
  have "chunk_rep key flags counter (bs @ p) (chunk_state_update P self p (length p))"
    using blake3_platform.chunk_state_update_rep [OF assms(1) Cons.prems(1) assms(2), of "length p" p] Cons.prems(2)
    by simp
  from Cons.IH [OF this] show ?case using Cons.prems(2) by simp
qed simp

text \<open>C19. However a chunk of at most 1024 bytes is cut into pieces, feeding the pieces to a fresh chunk
  state gives the reference output of the whole chunk: the chaining over all its blocks, the last
  block padded with zeros, with the start and the end flag in the right places.\<close>

theorem chunk_state_spec:
  assumes "asm_agrees P" "length key = 8" "length (concat pieces) \<le> 1024"
  shows "chunk_state_output (fold (\<lambda>p cs. chunk_state_update P cs p (length p)) pieces
      ((chunk_state_init key flags)\<lparr>chunk_counter := counter\<rparr>)) =
    chunk_output key flags counter (concat pieces)"
proof (rule chunk_state_output_rep)
  show "chunk_rep key flags counter (concat pieces) (fold (\<lambda>p cs. chunk_state_update P cs p (length p)) pieces
      ((chunk_state_init key flags)\<lparr>chunk_counter := counter\<rparr>))"
    using chunk_state_updates_rep [OF asm_agrees_platform [OF assms(1)] assms(2) chunk_rep_init [OF assms(2)]] assms(3)
    by simp
qed fact

theorem chunk_state_spec_witness:
  "chunk_state_output (fold (\<lambda>p cs. chunk_state_update neon_platform cs p (length p))
      [replicate 70 1, [], [2, 3], replicate 300 4] ((chunk_state_init IV 0)\<lparr>chunk_counter := 5\<rparr>)) =
    chunk_output IV 0 5 (replicate 70 1 @ [2, 3] @ replicate 300 4)"
  using chunk_state_spec [OF neon_platform_agrees, of IV "[replicate 70 1, [], [2, 3], replicate 300 4]" 5 0]
  by simp

end
