(* ===== verification/Blake3_Tree.thy ===== *)
theory Blake3_Tree
  imports Blake3_Chunk
begin

unbundle bit_operations_syntax

text \<open>
  The parallel tree compression of \<open>blake3.c\<close>: chunks and parents compressed in SIMD-sized batches,
  the recursion over subtrees that keeps a whole array of chaining values, and the condensation of
  that array to the two children of the top node. A function that fills an array of chaining
  values returns the bytes it writes with the number of values. The theory shows that on inputs of
  any length the array reduces, by pairing neighbours, to the chaining value of the reference tree,
  and that no array is written past its end.
\<close>

section \<open>Operations\<close>

definition left_subtree_len :: "nat \<Rightarrow> nat" where
  "left_subtree_len input_len =
     (let full_chunks = (input_len - 1) div BLAKE3_CHUNK_LEN
      in unat (round_down_to_power_of_2 (of_nat full_chunks)) * BLAKE3_CHUNK_LEN)"

text \<open>The loop of \<open>compress_chunks_parallel\<close> that collects pointers to the whole chunks.\<close>

function chunks_array_loop :: "byte list \<Rightarrow> nat \<Rightarrow> nat \<Rightarrow> byte list list \<Rightarrow> byte list list \<times> nat" where
  "chunks_array_loop input input_len input_position chunks_array =
     (if input_len - input_position \<ge> BLAKE3_CHUNK_LEN then
        chunks_array_loop input input_len (input_position + BLAKE3_CHUNK_LEN)
          (chunks_array @ [drop input_position input])
      else (chunks_array, input_position))"
  by pat_completeness auto
termination by (relation "measure (\<lambda>(input, input_len, pos, arr). input_len - pos)") auto

declare chunks_array_loop.simps [simp del]

definition compress_chunks_parallel ::
    "platform \<Rightarrow> byte list \<Rightarrow> nat \<Rightarrow> u32 list \<Rightarrow> u64 \<Rightarrow> byte \<Rightarrow> byte list \<times> nat" where
  "compress_chunks_parallel P input input_len key counter flags =
     (let (chunks_array, input_position) = chunks_array_loop input input_len 0 [];
          out = blake3_hash_many P chunks_array (BLAKE3_CHUNK_LEN div BLAKE3_BLOCK_LEN) key counter
                  True flags CHUNK_START CHUNK_END
      in if input_len > input_position then
           let counter = counter + of_nat (length chunks_array);
               chunk_state = chunk_state_init key flags;
               chunk_state = chunk_state\<lparr>chunk_counter := counter\<rparr>;
               chunk_state = chunk_state_update P chunk_state (drop input_position input)
                               (input_len - input_position);
               output = chunk_state_output chunk_state
           in (memcpy out (length chunks_array * BLAKE3_OUT_LEN) (output_chaining_value P output),
               length chunks_array + 1)
         else (out, length chunks_array))"

text \<open>The loop of \<open>compress_parents_parallel\<close> that collects pointers to pairs of children.\<close>

function parents_array_loop :: "byte list \<Rightarrow> nat \<Rightarrow> byte list list \<Rightarrow> byte list list" where
  "parents_array_loop child_chaining_values num_chaining_values parents_array =
     (if num_chaining_values - 2 * length parents_array \<ge> 2 then
        parents_array_loop child_chaining_values num_chaining_values
          (parents_array @ [drop (2 * length parents_array * BLAKE3_OUT_LEN) child_chaining_values])
      else parents_array)"
  by pat_completeness auto
termination by (relation "measure (\<lambda>(cvs, n, arr). n - 2 * length arr)") auto

declare parents_array_loop.simps [simp del]

definition compress_parents_parallel ::
    "platform \<Rightarrow> byte list \<Rightarrow> nat \<Rightarrow> u32 list \<Rightarrow> byte \<Rightarrow> byte list \<times> nat" where
  "compress_parents_parallel P child_chaining_values num_chaining_values key flags =
     (let parents_array = parents_array_loop child_chaining_values num_chaining_values [];
          out = blake3_hash_many P parents_array 1 key 0 False (flags OR PARENT) 0 0
      in if num_chaining_values > 2 * length parents_array then
           (memcpy out (length parents_array * BLAKE3_OUT_LEN)
              (take BLAKE3_OUT_LEN (drop (2 * length parents_array * BLAKE3_OUT_LEN) child_chaining_values)),
            length parents_array + 1)
         else (out, length parents_array))"

lemma left_subtree_len_bounds:
  assumes "1024 < n"
  shows "1024 \<le> left_subtree_len n" "left_subtree_len n < n"
proof -
  define f where "f = (n - 1) div 1024"
  have f: "0 < f" "f * 1024 < n" using assms div_times_less_eq_dividend [of "n - 1" 1024]
    by (auto simp: f_def div_greater_zero_iff)
  define r where "r = floor_pow2 (unat (of_nat f :: u64))"
  have "unat (of_nat f :: u64) \<le> f" by (simp add: unat_of_nat)
  then have "r \<le> f" using f floor_pow2_le [of "unat (of_nat f :: u64)"]
    by (cases "unat (of_nat f :: u64) = 0") (auto simp: r_def floor_pow2.simps [of 0])
  moreover have "left_subtree_len n = r * 1024"
    by (simp add: left_subtree_len_def round_down_to_power_of_2_eq f_def r_def)
  moreover have "0 < r" by (simp add: r_def)
  ultimately show "1024 \<le> left_subtree_len n" "left_subtree_len n < n"
    using f(2) by (auto intro: le_less_trans [OF mult_le_mono1])
qed

text \<open>\<open>use_tbb\<close> selects an optional multi-threaded build that the library does not use; the recursion
  is the sequential one. \<open>cv_array\<close> starts uninitialised.\<close>

function blake3_compress_subtree_wide ::
    "platform \<Rightarrow> byte list \<Rightarrow> nat \<Rightarrow> u32 list \<Rightarrow> u64 \<Rightarrow> byte \<Rightarrow> byte list \<times> nat" where
  "blake3_compress_subtree_wide P input input_len key counter flags =
     (if input_len \<le> blake3_simd_degree P * BLAKE3_CHUNK_LEN then
        compress_chunks_parallel P input input_len key counter flags
      else
        let left_input_len = left_subtree_len input_len;
            right_input_len = input_len - left_input_len;
            right_input = drop left_input_len input;
            right_chunk_counter = counter + of_nat (left_input_len div BLAKE3_CHUNK_LEN);
            cv_array = uninit P (2 * MAX_SIMD_DEGREE_OR_2 P * BLAKE3_OUT_LEN);
            degree = blake3_simd_degree P;
            degree = (if left_input_len > BLAKE3_CHUNK_LEN \<and> degree = 1 then 2 else degree);
            (left_cvs, left_n) = blake3_compress_subtree_wide P input left_input_len key counter flags;
            cv_array = memcpy cv_array 0 left_cvs;
            (right_cvs, right_n) =
              blake3_compress_subtree_wide P right_input right_input_len key right_chunk_counter flags;
            cv_array = memcpy cv_array (degree * BLAKE3_OUT_LEN) right_cvs
        in if left_n = 1 then (take (2 * BLAKE3_OUT_LEN) cv_array, 2)
           else let num_chaining_values = left_n + right_n
                in compress_parents_parallel P cv_array num_chaining_values key flags)"
  by pat_completeness auto
termination
proof (relation "measure (\<lambda>(P, input, n, key, counter, flags). n)", goal_cases)
  case 1
  then show ?case by simp
next
  case (2 P input n key counter flags l)
  then have "1024 < n" using simd_degree_pos(1) [of P] by (auto simp: not_le intro: le_less_trans [rotated])
  then show ?case using 2 left_subtree_len_bounds [of n] by simp
next
  case (3 P input n key counter flags l)
  then have "1024 < n" using simd_degree_pos(1) [of P] by (auto simp: not_le intro: le_less_trans [rotated])
  then show ?case using 3 left_subtree_len_bounds [of n] by simp
qed

declare blake3_compress_subtree_wide.simps [simp del]

text \<open>The loop of \<open>compress_subtree_to_parent_node\<close>; every round leaves \<open>(n + 1) div 2\<close> values.\<close>

lemma parents_array_loop_length:
  "length (parents_array_loop cvs n arr) = max (length arr) (n div 2)"
proof (induction cvs n arr rule: parents_array_loop.induct)
  case (1 cvs n arr)
  then show ?case by (subst parents_array_loop.simps) (auto simp: max_def)
qed

lemma compress_parents_parallel_count: "snd (compress_parents_parallel P cvs n key flags) = (n + 1) div 2"
  by (auto simp: compress_parents_parallel_def Let_def parents_array_loop_length)

function condense_loop :: "platform \<Rightarrow> byte list \<Rightarrow> nat \<Rightarrow> u32 list \<Rightarrow> byte \<Rightarrow> byte list \<times> nat" where
  "condense_loop P cv_array num_cvs key flags =
     (if num_cvs > 2 then
        let (out_array, num_cvs) = compress_parents_parallel P cv_array num_cvs key flags;
            cv_array = memcpy cv_array 0 (take (num_cvs * BLAKE3_OUT_LEN) out_array)
        in condense_loop P cv_array num_cvs key flags
      else (cv_array, num_cvs))"
  by pat_completeness auto
termination
proof (relation "measure (\<lambda>(P, cvs, n, key, flags). n)", goal_cases)
  case 1
  then show ?case by simp
next
  case (2 P cvs n key flags x out m y)
  then have "m = (n + 1) div 2" by (metis compress_parents_parallel_count snd_conv)
  then show ?case using 2(1) by simp
qed

declare condense_loop.simps [simp del]

definition compress_subtree_to_parent_node ::
    "platform \<Rightarrow> byte list \<Rightarrow> nat \<Rightarrow> u32 list \<Rightarrow> u64 \<Rightarrow> byte \<Rightarrow> byte list" where
  "compress_subtree_to_parent_node P input input_len key counter flags =
     (let (cvs, num_cvs) = blake3_compress_subtree_wide P input input_len key counter flags;
          cv_array = memcpy (uninit P (MAX_SIMD_DEGREE_OR_2 P * BLAKE3_OUT_LEN)) 0 cvs;
          (cv_array, num_cvs) =
            (if MAX_SIMD_DEGREE_OR_2 P > 2 then condense_loop P cv_array num_cvs key flags
             else (cv_array, num_cvs))
      in take (2 * BLAKE3_OUT_LEN) cv_array)"

section \<open>Reducing a list by pairing neighbours\<close>

text \<open>One level of pairing leaves an odd last element alone; \<open>reduce\<close> repeats it down to one.\<close>

fun pair_up :: "('a \<Rightarrow> 'a \<Rightarrow> 'a) \<Rightarrow> 'a list \<Rightarrow> 'a list" where
  "pair_up f (x # y # zs) = f x y # pair_up f zs"
| "pair_up f xs = xs"

lemma length_pair_up [simp]: "length (pair_up f xs) = (length xs + 1) div 2"
  by (induction f xs rule: pair_up.induct) auto

function reduce :: "('a \<Rightarrow> 'a \<Rightarrow> 'a) \<Rightarrow> 'a list \<Rightarrow> 'a" where
  "reduce f xs = (if length xs \<le> 1 then hd xs else reduce f (pair_up f xs))"
  by pat_completeness auto
termination by (relation "measure (\<lambda>(f, xs). length xs)") auto

declare reduce.simps [simp del]

lemma reduce_single [simp]: "reduce f [x] = x"
  by (simp add: reduce.simps)

lemma reduce_pair [simp]: "reduce f [x, y] = f x y"
  by (simp add: reduce.simps)

lemma reduce_pair_up: "xs \<noteq> [] \<Longrightarrow> reduce f (pair_up f xs) = reduce f xs"
  by (cases xs rule: remdups_adj.cases) (simp_all add: reduce.simps [of f "_ # _ # _"])

lemma pair_up_append: "even (length xs) \<Longrightarrow> pair_up f (xs @ ys) = pair_up f xs @ pair_up f ys"
  by (induction f xs rule: pair_up.induct) auto

text \<open>Pairing neighbours level by level is the left-balanced tree: the left part is the largest
  power of two that leaves something on the right.\<close>

lemma reduce_append:
  assumes "is_pow2 (length xs)" "1 \<le> length ys" "length ys \<le> length xs"
  shows "reduce f (xs @ ys) = f (reduce f xs) (reduce f ys)"
  using assms
proof (induction "length xs" arbitrary: xs ys rule: less_induct)
  case less
  show ?case
  proof (cases "length xs = 1")
    case True
    with less.prems show ?thesis
      by (cases xs; cases ys) (auto simp: le_Suc_eq)
  next
    case False
    then obtain h where h: "length xs = 2 * h" "is_pow2 h"
      using less.prems(1) unfolding is_pow2_def by (metis power_0 power_Suc nat.exhaust)
    have ne: "xs \<noteq> []" "ys \<noteq> []" "xs @ ys \<noteq> []" using less.prems by auto
    have "reduce f (xs @ ys) = reduce f (pair_up f xs @ pair_up f ys)"
      using reduce_pair_up [OF ne(3)] h(1) by (simp add: pair_up_append)
    also have "\<dots> = f (reduce f (pair_up f xs)) (reduce f (pair_up f ys))"
      using less.prems h is_pow2_pos [OF h(2)] by (intro less.hyps) auto
    finally show ?thesis using ne by (simp add: reduce_pair_up)
  qed
qed

text \<open>A list that reduces to \<open>f a b\<close> with the top node splitting it into \<open>a\<close> and \<open>b\<close>.\<close>

definition splits :: "('a \<Rightarrow> 'a \<Rightarrow> 'a) \<Rightarrow> 'a list \<Rightarrow> 'a \<Rightarrow> 'a \<Rightarrow> bool" where
  "splits f xs a b \<longleftrightarrow> (\<exists>u v. xs = u @ v \<and> is_pow2 (length u) \<and> 1 \<le> length v \<and> length v \<le> length u \<and>
     reduce f u = a \<and> reduce f v = b)"

lemma splits_I:
  "is_pow2 (length u) \<Longrightarrow> 1 \<le> length v \<Longrightarrow> length v \<le> length u \<Longrightarrow> splits f (u @ v) (reduce f u) (reduce f v)"
  by (auto simp: splits_def)

lemma splits_reduce: "splits f xs a b \<Longrightarrow> reduce f xs = f a b"
  by (auto simp: splits_def reduce_append)

lemma splits_length: "splits f xs a b \<Longrightarrow> 2 \<le> length xs"
  by (auto simp: splits_def dest!: is_pow2_pos)

lemma splits_pair: "splits f [x, y] a b \<longleftrightarrow> a = x \<and> b = y"
proof -
  have "u = [x] \<and> v = [y]" if "[x, y] = u @ v" "length v \<le> length u" "1 \<le> length v" for u v
    using that by (auto simp: Cons_eq_append_conv)
  then have "splits f [x, y] a b \<Longrightarrow> a = x \<and> b = y" unfolding splits_def by (metis reduce_single)
  moreover have "splits f [x, y] x y" using splits_I [of "[x]" "[y]" f] by simp
  ultimately show ?thesis by blast
qed

lemma splits_pair_up:
  assumes "splits f xs a b" "2 < length xs"
  shows "splits f (pair_up f xs) a b"
proof -
  obtain u v where uv: "xs = u @ v" "is_pow2 (length u)" "1 \<le> length v" "length v \<le> length u"
    "reduce f u = a" "reduce f v = b"
    using assms(1) by (auto simp: splits_def)
  then have "length u \<noteq> 1" using assms(2) by auto
  then obtain h where h: "length u = 2 * h" "is_pow2 h"
    using uv(2) unfolding is_pow2_def by (metis power_0 power_Suc nat.exhaust)
  have "u \<noteq> []" "v \<noteq> []" using uv by auto
  then show ?thesis
    using splits_I [of "pair_up f u" "pair_up f v" f] h uv by (simp add: pair_up_append reduce_pair_up)
qed

section \<open>The chunks of an input\<close>

definition parent_cv :: "u32 list \<Rightarrow> byte \<Rightarrow> byte list \<Rightarrow> byte list \<Rightarrow> byte list" where
  "parent_cv key flags l r = output_cv (parent_output (l @ r) key flags)"

definition chunk_cvs :: "u32 list \<Rightarrow> byte \<Rightarrow> u64 \<Rightarrow> byte list \<Rightarrow> byte list list" where
  "chunk_cvs key flags counter bs =
     map (\<lambda>i. output_cv (chunk_output key flags (counter + of_nat i) (take 1024 (drop (1024 * i) bs))))
       [0..<(length bs + 1023) div 1024]"

definition subtree_cv :: "u32 list \<Rightarrow> byte \<Rightarrow> u64 \<Rightarrow> byte list \<Rightarrow> byte list" where
  "subtree_cv key flags counter bs = output_cv (tree_output key flags counter bs)"

lemma length_parent_cv [simp, len_simps]: "length (parent_cv key flags l r) = 32"
  by (simp add: parent_cv_def)

lemma length_subtree_cv [simp, len_simps]: "length (subtree_cv key flags counter bs) = 32"
  by (simp add: subtree_cv_def)

lemma subtree_cv_parent:
  assumes "1024 < length bs"
  shows "subtree_cv key flags counter bs =
    parent_cv key flags (subtree_cv key flags counter (take (left_len (length bs)) bs))
      (subtree_cv key flags (counter + of_nat (left_len (length bs) div 1024)) (drop (left_len (length bs)) bs))"
  using assms unfolding subtree_cv_def parent_cv_def
  by (subst tree_output.simps) (simp add: Let_def)

lemma chunk_cvs_append:
  assumes "length xs = 1024 * n"
  shows "chunk_cvs key flags counter (xs @ ys) =
    chunk_cvs key flags counter xs @ chunk_cvs key flags (counter + of_nat n) ys"
proof -
  have n: "(length (xs @ ys) + 1023) div 1024 = n + (length ys + 1023) div 1024" "(length xs + 1023) div 1024 = n"
    using assms by auto
  have t: "take 1024 (drop (1024 * i) (xs @ ys)) = take 1024 (drop (1024 * i) xs)" if "i < n" for i
  proof -
    have "1024 \<le> length (drop (1024 * i) xs)" using that assms by (simp add: Suc_le_eq)
    then show ?thesis using that assms by simp
  qed
  have "map (\<lambda>i. output_cv (chunk_output key flags (counter + of_nat i) (take 1024 (drop (1024 * i) (xs @ ys)))))
      [0..<n] = chunk_cvs key flags counter xs"
    unfolding chunk_cvs_def n(2) by (intro map_cong refl) (simp only: t set_upt atLeastLessThan_iff)
  moreover have "map (\<lambda>i. output_cv (chunk_output key flags (counter + of_nat i) (take 1024 (drop (1024 * i) (xs @ ys)))))
      [n..<n + (length ys + 1023) div 1024] = chunk_cvs key flags (counter + of_nat n) ys"
    unfolding chunk_cvs_def by (rule nth_equalityI) (auto simp: assms algebra_simps)
  ultimately show ?thesis
    by (simp only: chunk_cvs_def [of key flags counter "xs @ ys"] n(1) upt_add_eq_append [OF le0] map_append)
qed

lemma left_len_chunks:
  assumes "1024 < n"
  shows "left_len n = 1024 * (left_len n div 1024)" "is_pow2 (left_len n div 1024)"
    "n \<le> 2 * left_len n" "left_len n \<le> n - 1"
proof -
  show "left_len n = 1024 * (left_len n div 1024)" "is_pow2 (left_len n div 1024)"
    by (simp_all add: left_len_def)
  have "(n - 1) div 1024 < 2 * floor_pow2 ((n - 1) div 1024)"
    using assms by (intro floor_pow2_gt) (simp add: div_greater_zero_iff)
  then show "n \<le> 2 * left_len n" by (simp add: left_len_def less_mult_imp_div_less) 
  show "left_len n \<le> n - 1" using left_len_bounds [OF assms] by simp
qed

lemma chunk_cvs_halves:
  assumes "1024 < length bs" "l = left_len (length bs)"
  shows "chunk_cvs key flags counter bs = chunk_cvs key flags counter (take l bs) @
      chunk_cvs key flags (counter + of_nat (l div 1024)) (drop l bs)"
    and "is_pow2 (length (chunk_cvs key flags counter (take l bs)))"
    and "1 \<le> length (chunk_cvs key flags (counter + of_nat (l div 1024)) (drop l bs))"
    and "length (chunk_cvs key flags (counter + of_nat (l div 1024)) (drop l bs)) \<le>
      length (chunk_cvs key flags counter (take l bs))"
proof -
  have l: "l = 1024 * (l div 1024)" "is_pow2 (l div 1024)" "length bs \<le> 2 * l" "l \<le> length bs - 1" "0 < l" "l < length bs"
    using left_len_chunks [of "length bs"] left_len_bounds [of "length bs"] assms by auto
  show "chunk_cvs key flags counter bs = chunk_cvs key flags counter (take l bs) @
      chunk_cvs key flags (counter + of_nat (l div 1024)) (drop l bs)"
    using chunk_cvs_append [of "take l bs" "l div 1024" key flags counter "drop l bs"] l by simp
  have len: "length (chunk_cvs key flags counter (take l bs)) = l div 1024"
    using l by (simp add: chunk_cvs_def min_def)
  then show "is_pow2 (length (chunk_cvs key flags counter (take l bs)))" using l(2) by simp
  show "1 \<le> length (chunk_cvs key flags (counter + of_nat (l div 1024)) (drop l bs))"
    "length (chunk_cvs key flags (counter + of_nat (l div 1024)) (drop l bs)) \<le>
      length (chunk_cvs key flags counter (take l bs))"
    unfolding len using l by (simp_all add: chunk_cvs_def)
qed

lemma reduce_chunk_cvs:
  assumes "bs \<noteq> []"
  shows "reduce (parent_cv key flags) (chunk_cvs key flags counter bs) = subtree_cv key flags counter bs"
  using assms
proof (induction "length bs" arbitrary: bs counter rule: less_induct)
  case less
  show ?case
  proof (cases "length bs \<le> 1024")
    case True
    moreover have "(length bs + 1023) div 1024 = 1" using True less.prems
      by (cases bs) (auto simp: div_eq_dividend_iff intro!: div_nat_eqI)
    ultimately show ?thesis by (simp add: chunk_cvs_def subtree_cv_def tree_output_chunk)
  next
    case False
    define l where "l = left_len (length bs)"
    have l: "0 < l" "l < length bs" using left_len_bounds [of "length bs"] False by (auto simp: l_def)
    have "reduce (parent_cv key flags) (chunk_cvs key flags counter (take l bs)) =
        subtree_cv key flags counter (take l bs)"
      "reduce (parent_cv key flags) (chunk_cvs key flags (counter + of_nat (l div 1024)) (drop l bs)) =
        subtree_cv key flags (counter + of_nat (l div 1024)) (drop l bs)"
      using l by (auto intro!: less.hyps)
    then show ?thesis using False chunk_cvs_halves [of bs l key flags counter]
      by (subst subtree_cv_parent) (simp_all add: reduce_append flip: l_def)
  qed
qed

section \<open>Arrays of chaining values\<close>

definition cv_list :: "byte list list \<Rightarrow> bool" where
  "cv_list xs \<longleftrightarrow> (\<forall>x \<in> set xs. length x = 32)"

lemma cv_list_simps [simp]:
  "cv_list []" "cv_list (x # xs) \<longleftrightarrow> length x = 32 \<and> cv_list xs" "cv_list (xs @ ys) \<longleftrightarrow> cv_list xs \<and> cv_list ys"
  by (auto simp: cv_list_def)

lemma length_concat_cvs: "cv_list xs \<Longrightarrow> length (concat xs) = 32 * length xs"
  by (induction xs) simp_all

lemma drop_concat_cvs: "cv_list xs \<Longrightarrow> i \<le> length xs \<Longrightarrow> drop (32 * i) (concat xs @ ys) = concat (drop i xs) @ ys"
proof (induction xs arbitrary: i)
  case (Cons x xs)
  then show ?case by (cases i) simp_all
qed simp

lemma take_concat_cvs: "cv_list xs \<Longrightarrow> i \<le> length xs \<Longrightarrow> take (32 * i) (concat xs @ ys) = concat (take i xs)"
proof (induction xs arbitrary: i)
  case (Cons x xs)
  then show ?case by (cases i) simp_all
qed simp

lemma cv_list_nth: "cv_list xs \<Longrightarrow> i < length xs \<Longrightarrow> length (xs ! i) = 32"
  by (simp add: cv_list_def)

lemma cv_list_chunk_cvs: "cv_list (chunk_cvs key flags counter bs)"
  by (auto simp: cv_list_def chunk_cvs_def)

lemma cv_list_pair_up: "cv_list xs \<Longrightarrow> cv_list (pair_up (parent_cv key flags) xs)"
  by (induction "parent_cv key flags" xs rule: pair_up.induct) simp_all

lemma pair_up_conv:
  "pair_up f xs = map (\<lambda>i. f (xs ! (2 * i)) (xs ! (2 * i + 1))) [0..<length xs div 2] @
     (if odd (length xs) then [xs ! (length xs - 1)] else [])"
proof (induction f xs rule: pair_up.induct)
  case (1 f x y zs)
  have "map (\<lambda>i. f ((x # y # zs) ! (2 * i)) ((x # y # zs) ! (2 * i + 1))) [0..<Suc (length zs div 2)] =
      f x y # map (\<lambda>i. f (zs ! (2 * i)) (zs ! (2 * i + 1))) [0..<length zs div 2]"
    by (rule nth_equalityI) (auto simp: nth_Cons split: nat.splits simp del: upt_Suc)
  moreover have "odd (length zs) \<Longrightarrow> (y # zs) ! length zs = zs ! (length zs - 1)" by (cases "length zs") auto
  ultimately show ?case using 1 by (simp del: upt_Suc)
qed auto

lemma chunks_array_loop_eq:
  assumes "1024 * k \<le> n" "arr = map (\<lambda>i. drop (1024 * i) input) [0..<k]"
  shows "chunks_array_loop input n (1024 * k) arr =
    (map (\<lambda>i. drop (1024 * i) input) [0..<n div 1024], 1024 * (n div 1024))"
  using assms
proof (induction "n div 1024 - k" arbitrary: k arr)
  case 0
  then have "k = n div 1024" by (simp add: div_le_mono le_antisym less_eq_div_iff_mult_less_eq mult.commute)
  moreover have "\<not> n - 1024 * (n div 1024) \<ge> 1024" by (simp add: minus_mult_div_eq_mod not_le)
  ultimately show ?case using 0 by (subst chunks_array_loop.simps) simp
next
  case (Suc m)
  then have k: "k < n div 1024" by simp
  then have "1024 * Suc k \<le> n" by (simp add: less_eq_div_iff_mult_less_eq Suc_le_eq mult.commute flip: Suc_le_eq)
  moreover from this have "n - 1024 * k \<ge> 1024" by simp
  ultimately show ?case using Suc.hyps(1) [of "Suc k" "arr @ [drop (1024 * k) input]"] Suc.hyps(2) Suc.prems
    by (subst chunks_array_loop.simps) (simp add: add.commute)
qed

lemma parents_array_loop_eq:
  assumes "k \<le> n div 2" "arr = map (\<lambda>i. drop (64 * i) cvs) [0..<k]"
  shows "parents_array_loop cvs n arr = map (\<lambda>i. drop (64 * i) cvs) [0..<n div 2]"
  using assms
proof (induction "n div 2 - k" arbitrary: k arr)
  case 0
  then have "k = n div 2" by simp
  moreover have "\<not> n - 2 * (n div 2) \<ge> 2" by (simp add: minus_mult_div_eq_mod not_le)
  ultimately show ?case using 0 by (subst parents_array_loop.simps) simp
next
  case (Suc m)
  then have "n - 2 * k \<ge> 2" by simp
  then show ?case using Suc.hyps(1) [of "Suc k" "arr @ [drop (64 * k) cvs]"] Suc.hyps(2) Suc.prems
    by (subst parents_array_loop.simps) simp
qed

lemma hash_many_portable_concat:
  "blake3_hash_many_portable inputs blocks key counter inc flags fs fe =
   concat (map (\<lambda>i. hash_one_portable (inputs ! i) blocks key (if inc then counter + of_nat i else counter) flags fs fe)
     [0..<length inputs])"
proof (induction inputs rule: rev_induct)
  case (snoc x xs)
  have e: "map (\<lambda>i. hash_one_portable ((xs @ [x]) ! i) blocks key (if inc then counter + of_nat i else counter) flags fs fe) [0..<length xs] =
      map (\<lambda>i. hash_one_portable (xs ! i) blocks key (if inc then counter + of_nat i else counter) flags fs fe) [0..<length xs]"
    by (rule map_cong) (auto simp: nth_append)
  show ?case by (simp add: hash_many_portable_append snoc e)
qed simp

context blake3_platform
begin

lemma compress_chunks_parallel_eq:
  assumes "0 < n" "n \<le> length input" "length key = 8"
  shows "compress_chunks_parallel P input n key counter flags =
    (concat (chunk_cvs key flags counter (take n input)), length (chunk_cvs key flags counter (take n input)))"
proof -
  define q where "q = n div 1024"
  define out where "out = blake3_hash_many P (map (\<lambda>i. drop (1024 * i) input) [0..<q]) 16 key counter
                  True flags CHUNK_START CHUNK_END"
  have q: "1024 * q \<le> n" by (simp add: q_def)
  have whole: "1024 \<le> length (drop (1024 * i) input)" if "i < q" for i
  proof -
    have "1024 * Suc i \<le> 1024 * q" using that by simp
    then show ?thesis using q assms(2) by simp
  qed
  have cv: "hash_one_portable (drop (1024 * i) input) 16 key c flags CHUNK_START CHUNK_END =
      output_cv (chunk_output key flags c (take 1024 (drop (1024 * i) input)))" if "i < q" for i c
    using whole [OF that] by (rule hash_one_chunk)
  have "out = blake3_hash_many_portable (map (\<lambda>i. drop (1024 * i) input) [0..<q]) 16 key counter
                  True flags CHUNK_START CHUNK_END"
    unfolding out_def using whole assms(3) by (intro hash_many_eq) auto
  also have "\<dots> = concat (map (\<lambda>i. output_cv (chunk_output key flags (counter + of_nat i) (take 1024 (drop (1024 * i) input)))) [0..<q])"
    unfolding hash_many_portable_concat by (intro arg_cong [of _ _ concat] map_cong) (simp_all add: cv)
  also have "\<dots> = concat (chunk_cvs key flags counter (take (1024 * q) input))"
  proof -
    have "take 1024 (drop (1024 * i) (take (1024 * q) input)) = take 1024 (drop (1024 * i) input)" if "i < q" for i
    proof -
      have "1024 * i + 1024 \<le> 1024 * q" using that by simp
      then show ?thesis by (simp add: drop_take min_def)
    qed
    moreover have "(length (take (1024 * q) input) + 1023) div 1024 = q" using q assms(2) by simp
    ultimately show ?thesis unfolding chunk_cvs_def by (intro arg_cong [of _ _ concat] map_cong) simp_all
  qed
  finally have out: "out = concat (chunk_cvs key flags counter (take (1024 * q) input))" .
  have lenq: "length (chunk_cvs key flags counter (take (1024 * q) input)) = q"
    using q assms(2) by (simp add: chunk_cvs_def)
  have arr: "chunks_array_loop input n 0 [] = (map (\<lambda>i. drop (1024 * i) input) [0..<q], 1024 * q)"
    using chunks_array_loop_eq [of 0 n "[]" input] by (simp add: q_def)
  show ?thesis
  proof (cases "n > 1024 * q")
    case False
    then have "n = 1024 * q" using q by simp
    then show ?thesis using out lenq arr
      by (simp add: compress_chunks_parallel_def out_def [symmetric])
  next
    case True
    define r where "r = n - 1024 * q"
    have r: "0 < r" using True by (simp add: r_def)
    have "r < 1024" by (simp add: r_def q_def minus_mult_div_eq_mod)
    note r = r this
    define bs where "bs = take r (drop (1024 * q) input)"
    have bs: "length bs = r" using assms(2) q by (simp add: bs_def r_def)
    let ?cs = "chunk_state_update P ((chunk_state_init key flags)\<lparr>chunk_counter := counter + of_nat q\<rparr>) (drop (1024 * q) input) r"
    have "chunk_rep key flags (counter + of_nat q) bs ?cs"
      using chunk_state_update_rep [OF chunk_rep_init [OF assms(3)] assms(3), of r "drop (1024 * q) input"] r bs
      by (simp add: bs_def r_def)
    then have "output_chaining_value P (chunk_state_output ?cs) = output_cv (chunk_output key flags (counter + of_nat q) bs)"
      using assms(3) bs r by (simp add: chunk_state_output_rep output_chaining_value_eq output_wf_chunk_output)
    moreover have "chunk_cvs key flags (counter + of_nat q) bs = [output_cv (chunk_output key flags (counter + of_nat q) bs)]"
    proof -
      have "(length bs + 1023) div 1024 = 1" using bs r by (intro div_nat_eqI) auto
      then show ?thesis using bs r by (simp add: chunk_cvs_def)
    qed
    moreover have "take n input = take (1024 * q) input @ bs"
      using q by (simp add: bs_def r_def flip: take_add)
    then have "chunk_cvs key flags counter (take n input) =
        chunk_cvs key flags counter (take (1024 * q) input) @ chunk_cvs key flags (counter + of_nat q) bs"
      using chunk_cvs_append [of "take (1024 * q) input" q] q assms(2) by simp
    moreover have "length out = 32 * q" using out lenq by (simp add: length_concat_cvs cv_list_chunk_cvs)
    ultimately show ?thesis using True out lenq
      by (simp add: compress_chunks_parallel_def arr out_def [symmetric] Let_def memcpy_def r_def mult.commute [of q 32])
  qed
qed

lemma compress_parents_parallel_eq:
  assumes "cv_list xs" "length key = 8"
  shows "compress_parents_parallel P (concat xs @ junk) (length xs) key flags =
    (concat (pair_up (parent_cv key flags) xs), length (pair_up (parent_cv key flags) xs))"
proof -
  define h where "h = length xs div 2"
  define cvs where "cvs = concat xs @ junk"
  define out where "out = blake3_hash_many P (map (\<lambda>i. drop (64 * i) cvs) [0..<h]) 1 key 0 False (flags OR PARENT) 0 0"
  have two: "take 64 (drop (64 * i) cvs) = xs ! (2 * i) @ xs ! (2 * i + 1)" "64 \<le> length (drop (64 * i) cvs)" if "i < h" for i
  proof -
    have i: "2 * i < length xs" "2 * i + 1 < length xs" using that by (auto simp: h_def)
    have "drop (64 * i) cvs = concat (drop (2 * i) xs) @ junk"
      using drop_concat_cvs [OF assms(1), of "2 * i" junk] i by (simp add: cvs_def)
    also have "drop (2 * i) xs = xs ! (2 * i) # xs ! (2 * i + 1) # drop (2 * i + 2) xs"
      using i by (metis Cons_nth_drop_Suc add_2_eq_Suc' Suc_eq_plus1)
    finally have d: "drop (64 * i) cvs = xs ! (2 * i) @ xs ! (2 * i + 1) @ concat (drop (2 * i + 2) xs) @ junk" by simp
    show "take 64 (drop (64 * i) cvs) = xs ! (2 * i) @ xs ! (2 * i + 1)" "64 \<le> length (drop (64 * i) cvs)"
      unfolding d using cv_list_nth [OF assms(1)] i by simp_all
  qed
  have "out = blake3_hash_many_portable (map (\<lambda>i. drop (64 * i) cvs) [0..<h]) 1 key 0 False (flags OR PARENT) 0 0"
    unfolding out_def using two(2) assms(2) by (intro hash_many_eq) auto
  also have "\<dots> = concat (map (\<lambda>i. parent_cv key flags (xs ! (2 * i)) (xs ! (2 * i + 1))) [0..<h])"
  proof -
    have "hash_one_portable (drop (64 * i) cvs) 1 key 0 (flags OR PARENT) 0 0 =
        parent_cv key flags (xs ! (2 * i)) (xs ! (2 * i + 1))" if "i < h" for i
      using hash_one_parent [OF two(2) [OF that] assms(2), of flags]
      by (simp only: parent_cv_def two(1) [OF that, symmetric] parent_output_take)
    then show ?thesis unfolding hash_many_portable_concat by (intro arg_cong [of _ _ concat] map_cong) simp_all
  qed
  finally have out: "out = concat (map (\<lambda>i. parent_cv key flags (xs ! (2 * i)) (xs ! (2 * i + 1))) [0..<h])" .
  have arr: "parents_array_loop cvs (length xs) [] = map (\<lambda>i. drop (64 * i) cvs) [0..<h]"
    using parents_array_loop_eq [of 0 "length xs" "[]" cvs] by (simp add: h_def)
  have leno: "length out = 32 * h"
    unfolding out by (subst length_concat_cvs) (auto simp: cv_list_def)
  show ?thesis
  proof (cases "odd (length xs)")
    case False
    then have l: "length xs = 2 * h" by (simp add: h_def)
    then show ?thesis unfolding cvs_def [symmetric] pair_up_conv h_def [symmetric] using out arr
      by (simp add: compress_parents_parallel_def out_def [simplified, symmetric] Let_def)
  next
    case True
    then have l: "length xs = 2 * h + 1" by (auto simp: h_def elim: oddE)
    then have "drop (2 * h) xs = [xs ! (2 * h)]" using Cons_nth_drop_Suc [of "2 * h" xs] by simp
    then have "drop (64 * h) cvs = xs ! (2 * h) @ junk"
      using drop_concat_cvs [OF assms(1), of "2 * h" junk] l by (simp add: cvs_def)
    then have "take 32 (drop (64 * h) cvs) = xs ! (2 * h)" using cv_list_nth [OF assms(1), of "2 * h"] l by simp
    then show ?thesis unfolding cvs_def [symmetric] pair_up_conv h_def [symmetric] using l leno out arr
      by (simp add: compress_parents_parallel_def out_def [simplified, symmetric] Let_def memcpy_def mult.commute [of h 32])
  qed
qed

end

section \<open>Subtrees\<close>

text \<open>What \<open>blake3_compress_subtree_wide\<close> returns for \<open>bs\<close>: between one and \<open>max d 2\<close> chaining
  values, at least two unless there is only one chunk, exactly as many as the chunks or the bound
  allow for a complete subtree, which reduce to the chaining value of the subtree.\<close>

definition wide_ok :: "nat \<Rightarrow> u32 list \<Rightarrow> byte \<Rightarrow> u64 \<Rightarrow> byte list \<Rightarrow> byte list list \<Rightarrow> bool" where
  "wide_ok d key flags counter bs ys \<longleftrightarrow>
     cv_list ys \<and> 1 \<le> length ys \<and> length ys \<le> max d 2 \<and>
     (length bs \<le> 1024 \<longrightarrow> length ys = 1) \<and>
     (let l = left_len (length bs) in 1024 < length bs \<longrightarrow>
        splits (parent_cv key flags) ys (subtree_cv key flags counter (take l bs))
          (subtree_cv key flags (counter + of_nat (l div 1024)) (drop l bs))) \<and>
     (\<forall>c. is_pow2 c \<longrightarrow> length bs = 1024 * c \<longrightarrow> length ys = min c (max d 2)) \<and>
     reduce (parent_cv key flags) ys = subtree_cv key flags counter bs"

lemma left_subtree_len_eq:
  assumes "n < 2 ^ 64"
  shows "left_subtree_len n = left_len n"
proof -
  have "(n - 1) div 1024 < 2 ^ 64" using assms by (rule le_less_trans [rotated]) (simp add: div_le_dividend le_trans [OF div_le_dividend])
  then show ?thesis by (simp add: left_subtree_len_def left_len_def round_down_to_power_of_2_eq unat_of_nat)
qed

lemma wide_ok_chunks:
  assumes "0 < length bs" "length bs \<le> d * 1024" "1 \<le> d"
  shows "wide_ok d key flags counter bs (chunk_cvs key flags counter bs)"
proof -
  have l: "length (chunk_cvs key flags counter bs) = (length bs + 1023) div 1024" by (simp add: chunk_cvs_def)
  have "length (chunk_cvs key flags counter bs) \<le> d"
    unfolding l using assms(2) by (simp add: less_eq_div_iff_mult_less_eq flip: less_Suc_eq_le)
  moreover have "1 \<le> (length bs + 1023) div 1024" using assms(1) by (subst less_eq_div_iff_mult_less_eq) (simp_all add: Suc_le_eq)
  moreover have "length bs \<le> 1024 \<Longrightarrow> (length bs + 1023) div 1024 = 1" using assms(1)
    by (intro div_nat_eqI) (simp_all add: Suc_le_eq)
  moreover have "splits (parent_cv key flags) (chunk_cvs key flags counter bs)
      (subtree_cv key flags counter (take l bs)) (subtree_cv key flags (counter + of_nat (l div 1024)) (drop l bs))"
    if "1024 < length bs" "l = left_len (length bs)" for l
  proof -
    have "take l bs \<noteq> []" "drop l bs \<noteq> []" using left_len_bounds [of "length bs"] that by auto
    then show ?thesis using chunk_cvs_halves [OF that, of key flags counter]
        splits_I [of "chunk_cvs key flags counter (take l bs)"
          "chunk_cvs key flags (counter + of_nat (l div 1024)) (drop l bs)" "parent_cv key flags"]
      by (simp add: reduce_chunk_cvs)
  qed
  moreover have "bs \<noteq> []" using assms by auto
  ultimately show ?thesis unfolding wide_ok_def l
    by (auto simp: cv_list_chunk_cvs reduce_chunk_cvs l)
qed

text \<open>The step: the children of a node that is larger than the SIMD degree allows.\<close>

lemma wide_ok_step:
  assumes d: "is_pow2 d" and n: "d * 1024 < length bs"
    and l: "l = left_len (length bs)"
    and xs: "wide_ok d key flags counter (take l bs) xs"
    and ys: "wide_ok d key flags (counter + of_nat (l div 1024)) (drop l bs) ys"
  shows "length xs = (if l > 1024 \<and> d = 1 then 2 else d)"
    and "length ys \<le> length xs"
    and "if length xs = 1 then wide_ok d key flags counter bs (xs @ ys)
         else wide_ok d key flags counter bs (pair_up (parent_cv key flags) (xs @ ys))"
proof -
  have "0 < d" using d by (rule is_pow2_pos)
  then have n': "1024 < length bs" using n by (cases d) auto
  note c = left_len_chunks [OF n', folded l] left_len_bounds [OF n', folded l]
  define h where "h = l div 1024"
  have h: "l = 1024 * h" "is_pow2 h" using c(1,2) by (auto simp: h_def)
  have dh: "d \<le> h"
  proof -
    have "d \<le> (length bs - 1) div 1024" using n by (simp add: less_eq_div_iff_mult_less_eq)
    moreover have "h = floor_pow2 ((length bs - 1) div 1024)" using l by (simp add: h_def left_len_def)
    ultimately have "d < 2 * h" using floor_pow2_gt [of "(length bs - 1) div 1024"] \<open>0 < d\<close> by linarith
    then show ?thesis using pow2_less_double [OF h(2) d] by linarith
  qed
  have lx: "length xs = min h (max d 2)" using xs h c unfolding wide_ok_def by auto
  show len: "length xs = (if l > 1024 \<and> d = 1 then 2 else d)"
    using lx dh h \<open>0 < d\<close> by (auto simp: min_def max_def)
  have one: "l = 1024 \<and> d = 1 \<and> length (drop l bs) \<le> 1024" if "length xs = 1"
    using that len c(3,5) by (auto split: if_splits)
  have many: "length xs = max d 2" if "length xs \<noteq> 1"
    using that lx dh \<open>0 < d\<close> by (auto simp: min_def max_def split: if_splits)
  show le: "length ys \<le> length xs"
    using one many ys unfolding wide_ok_def by (cases "length xs = 1") auto
  have ly: "1 \<le> length ys" using ys by (simp add: wide_ok_def)
  have p2: "is_pow2 (length xs)" unfolding len using d is_pow2_I [of 1] by simp
  have sp: "splits (parent_cv key flags) (xs @ ys) (subtree_cv key flags counter (take l bs))
      (subtree_cv key flags (counter + of_nat (l div 1024)) (drop l bs))"
    using splits_I [OF p2 ly le, of "parent_cv key flags"] xs ys unfolding wide_ok_def by simp
  have red: "reduce (parent_cv key flags) (xs @ ys) = subtree_cv key flags counter bs"
    using splits_reduce [OF sp] n' by (simp add: subtree_cv_parent l)
  have cc: "c = 2 * h \<and> length (drop l bs) = 1024 * h" if "is_pow2 c" "length bs = 1024 * c" for c
  proof -
    have "h < c" "c \<le> 2 * h" using c(3,6) that(2) h(1) by auto
    then show ?thesis using pow2_less_double [OF h(2) that(1)] that(2) h(1) by simp
  qed
  have cvs: "cv_list (xs @ ys)" using xs ys by (simp add: wide_ok_def)
  show "if length xs = 1 then wide_ok d key flags counter bs (xs @ ys)
         else wide_ok d key flags counter bs (pair_up (parent_cv key flags) (xs @ ys))"
  proof (cases "length xs = 1")
    case True
    then have "h = 1" "length ys = 1" using one ly le h by auto
    moreover have "\<forall>c. is_pow2 c \<longrightarrow> length bs = 1024 * c \<longrightarrow> length (xs @ ys) = min c (max d 2)"
      using cc \<open>h = 1\<close> True \<open>length ys = 1\<close> by (metis length_append max.cobounded2 min_absorb1 mult_1_right one_add_one)
    ultimately show ?thesis using True cvs red n' sp unfolding wide_ok_def by (simp add: l)
  next
    case False
    have "length ys = length xs \<and> length xs \<le> c" if "is_pow2 c" "length bs = 1024 * c" for c
      using cc [OF that] ys h(2) lx by (auto simp: wide_ok_def)
    moreover have "xs @ ys \<noteq> []" using ly by auto
    moreover have "splits (parent_cv key flags) (pair_up (parent_cv key flags) (xs @ ys))
        (subtree_cv key flags counter (take l bs)) (subtree_cv key flags (counter + of_nat (l div 1024)) (drop l bs))"
      using splits_pair_up [OF sp] many [OF False] ly by auto
    ultimately show ?thesis using False many cvs red n' le ly
      by (auto simp: wide_ok_def cv_list_pair_up reduce_pair_up l)
  qed
qed

context blake3_platform
begin

lemma compress_subtree_wide_ok:
  assumes "0 < n" "n \<le> length input" "n < 2 ^ 64" "length key = 8"
  shows "\<exists>ys. blake3_compress_subtree_wide P input n key counter flags = (concat ys, length ys) \<and>
    wide_ok (blake3_simd_degree P) key flags counter (take n input) ys"
  using assms
proof (induction n arbitrary: input counter rule: less_induct)
  case (less n)
  let ?d = "blake3_simd_degree P"
  have len: "length (take n input) = n" using less.prems by simp
  show ?case
  proof (cases "n \<le> ?d * 1024")
    case True
    then show ?thesis
      using wide_ok_chunks [of "take n input" ?d key flags counter] compress_chunks_parallel_eq [of n input key counter flags] less.prems
      by (subst blake3_compress_subtree_wide.simps) auto
  next
    case False
    define l where "l = left_len n"
    have n': "1024 < n" using False simd_degree_pos(1) [of P] by (simp add: not_le)
    note c = left_len_chunks [OF n', folded l_def] left_len_bounds [OF n', folded l_def]
    have lt: "left_subtree_len n = l" using less.prems by (simp add: left_subtree_len_eq l_def)
    obtain xs where xs: "blake3_compress_subtree_wide P input l key counter flags = (concat xs, length xs)"
      "wide_ok ?d key flags counter (take l input) xs"
      using less.IH [of l input counter] c less.prems by auto
    obtain ys where ys: "blake3_compress_subtree_wide P (drop l input) (n - l) key (counter + of_nat (l div 1024)) flags
        = (concat ys, length ys)"
      "wide_ok ?d key flags (counter + of_nat (l div 1024)) (take (n - l) (drop l input)) ys"
    proof -
      have "n - l < n" "0 < n - l" "n - l \<le> length (drop l input)" "n - l < 2 ^ 64" using c less.prems by auto
      from less.IH [OF this less.prems(4)] that show ?thesis by blast
    qed
    have tk: "take l (take n input) = take l input" "drop l (take n input) = take (n - l) (drop l input)"
      using c by (simp_all add: drop_take min_def)
    note st = wide_ok_step [OF simd_degree_pow2, of P "take n input" l key flags counter xs ys, unfolded len tk]
    have stl: "length xs = (if l > 1024 \<and> ?d = 1 then 2 else ?d)" "length ys \<le> length xs"
       "if length xs = 1 then wide_ok ?d key flags counter (take n input) (xs @ ys)
         else wide_ok ?d key flags counter (take n input) (pair_up (parent_cv key flags) (xs @ ys))"
      using st False xs(2) ys(2) by (auto simp: l_def)
    define D where "D = length xs"
    define M where "M = 2 * MAX_SIMD_DEGREE_OR_2 P * 32"
    have M: "32 * D + 32 * length ys \<le> M"
      using stl(1,2) simd_degree_le_MAX [of P] by (auto simp: M_def D_def MAX_SIMD_DEGREE_OR_2_def split: if_splits)
    have cv: "cv_list xs" "cv_list ys" using xs ys by (auto simp: wide_ok_def)
    define junk where "junk = drop (32 * D + 32 * length ys) (uninit P M)"
    have mm: "memcpy (memcpy (uninit P M) 0 (concat xs)) (D * 32) (concat ys) = concat (xs @ ys) @ junk"
      using cv M by (simp add: memcpy_def length_concat_cvs D_def junk_def length_uninit add.commute)
    have e: "blake3_compress_subtree_wide P input n key counter flags =
        (if D = 1 then (take 64 (concat (xs @ ys) @ junk), 2)
         else compress_parents_parallel P (concat (xs @ ys) @ junk) (length (xs @ ys)) key flags)"
      unfolding blake3_compress_subtree_wide.simps [of P input n key counter flags] lt Let_def xs(1) ys(1) prod.case
        stl(1) [symmetric] M_def [symmetric] D_def [symmetric] mm
      using False by (simp add: D_def del: concat_append)
    show ?thesis
    proof (cases "D = 1")
      case True
      then have "length (xs @ ys) = 2" using stl ys(2) by (auto simp: D_def wide_ok_def)
      then have "take 64 (concat (xs @ ys) @ junk) = concat (xs @ ys)"
        using cv by (simp add: length_concat_cvs)
      then show ?thesis using e True stl(3) \<open>length (xs @ ys) = 2\<close>
        by (intro exI [of _ "xs @ ys"]) (simp add: D_def)
    next
      case False
      then show ?thesis using e stl(3) cv less.prems compress_parents_parallel_eq [of "xs @ ys" key junk flags]
        by (auto simp: D_def)
    qed
  qed
qed

text \<open>Condensing keeps how the array splits, down to two values.\<close>

lemma condense_loop_eq:
  assumes "cv_list ys" "length key = 8" "splits (parent_cv key flags) ys l r"
  shows "\<exists>junk'. condense_loop P (concat ys @ junk) (length ys) key flags = (l @ r @ junk', 2) \<and>
    length l = 32 \<and> length r = 32"
  using assms
proof (induction "length ys" arbitrary: ys junk rule: less_induct)
  case less
  note two = splits_length [OF less.prems(3)]
  show ?case
  proof (cases "length ys > 2")
    case False
    then have "length ys = Suc (Suc 0)" using two by simp
    then obtain l' r' where "ys = [l', r']" by (auto simp: length_Suc_conv)
    then show ?thesis using less.prems(1,3) by (subst condense_loop.simps) (auto simp: splits_pair)
  next
    case True
    define zs where "zs = pair_up (parent_cv key flags) ys"
    have zs: "cv_list zs" "splits (parent_cv key flags) zs l r" "length zs < length ys"
      using less.prems True by (auto simp: zs_def cv_list_pair_up splits_pair_up)
    have "take (length zs * 32) (concat zs) = concat zs"
      using zs by (simp add: length_concat_cvs)
    then have "condense_loop P (concat ys @ junk) (length ys) key flags =
        condense_loop P (concat zs @ drop (length (concat zs)) (concat ys @ junk)) (length zs) key flags"
      using True less.prems
      by (subst condense_loop.simps)
        (simp add: compress_parents_parallel_eq zs_def [symmetric] memcpy_def length_concat_cvs zs)
    then show ?thesis
      using less.hyps [OF zs(3,1) less.prems(2) zs(2)] by metis
  qed
qed

text \<open>The two children of the top node of a subtree of more than one chunk.\<close>

lemma compress_subtree_to_parent_node_eq:
  assumes "1024 < n" "n \<le> length input" "n < 2 ^ 64" "length key = 8"
  shows "compress_subtree_to_parent_node P input n key counter flags =
    subtree_cv key flags counter (take (left_len n) input) @
    subtree_cv key flags (counter + of_nat (left_len n div 1024)) (drop (left_len n) (take n input))"
    (is "_ = ?l @ ?r")
proof -
  obtain ys where ys: "blake3_compress_subtree_wide P input n key counter flags = (concat ys, length ys)"
    "wide_ok (blake3_simd_degree P) key flags counter (take n input) ys"
    using compress_subtree_wide_ok [of n input key counter flags] assms by auto
  have len: "length ys \<le> MAX_SIMD_DEGREE_OR_2 P" "cv_list ys"
    using ys(2) simd_degree_le_MAX [of P] by (auto simp: wide_ok_def MAX_SIMD_DEGREE_OR_2_def split: if_splits)
  have "take (left_len n) (take n input) = take (left_len n) input"
    using left_len_bounds [OF assms(1)] by (simp add: min_def)
  then have sp: "splits (parent_cv key flags) ys ?l ?r"
    using ys(2) assms(1,2) by (simp add: wide_ok_def Let_def)
  define junk where "junk = drop (length (concat ys)) (uninit P (MAX_SIMD_DEGREE_OR_2 P * 32))"
  have m: "memcpy (uninit P (MAX_SIMD_DEGREE_OR_2 P * 32)) 0 (concat ys) = concat ys @ junk"
    by (simp add: memcpy_def junk_def)
  show ?thesis
  proof (cases "MAX_SIMD_DEGREE_OR_2 P > 2")
    case True
    obtain junk' where "condense_loop P (concat ys @ junk) (length ys) key flags = (?l @ ?r @ junk', 2)"
      using condense_loop_eq [OF len(2) assms(4) sp] by blast
    then show ?thesis using True
      by (simp add: compress_subtree_to_parent_node_def ys(1) m)
  next
    case False
    then have "length ys = Suc (Suc 0)" using len splits_length [OF sp] by simp
    then obtain l r where "ys = [l, r]" by (auto simp: length_Suc_conv)
    then show ?thesis using False sp len(2)
      by (simp add: compress_subtree_to_parent_node_def ys(1) memcpy_def splits_pair)
  qed
qed

end

section \<open>Properties\<close>

text \<open>C10. Compressing a subtree of any length, at any SIMD degree, returns between one and
  \<open>MAX_SIMD_DEGREE_OR_2\<close> chaining values (so the assertion of \<open>compress_subtree_to_parent_node\<close> and
  the sizes of the arrays hold), at least two when there is more than one chunk, and pairing
  neighbours until one is left gives the chaining value of the reference tree.\<close>

theorem compress_subtree_wide_spec:
  assumes "asm_agrees P" "0 < n" "n \<le> length input" "n < 2 ^ 64" "length key = 8"
  shows "\<exists>ys. blake3_compress_subtree_wide P input n key counter flags = (concat ys, length ys) \<and>
    (\<forall>y \<in> set ys. length y = BLAKE3_OUT_LEN) \<and>
    1 \<le> length ys \<and> length ys \<le> MAX_SIMD_DEGREE_OR_2 P \<and> (1024 < n \<longrightarrow> 2 \<le> length ys) \<and>
    reduce (parent_cv key flags) ys = subtree_cv key flags counter (take n input)"
proof -
  obtain ys where ys: "blake3_compress_subtree_wide P input n key counter flags = (concat ys, length ys)"
    "wide_ok (blake3_simd_degree P) key flags counter (take n input) ys"
    using blake3_platform.compress_subtree_wide_ok [OF asm_agrees_platform [OF assms(1)] assms(2-5)] by blast
  moreover have "length ys \<le> MAX_SIMD_DEGREE_OR_2 P"
    using ys(2) simd_degree_le_MAX [of P] by (auto simp: wide_ok_def MAX_SIMD_DEGREE_OR_2_def split: if_splits)
  moreover have "1024 < n \<longrightarrow> 2 \<le> length ys"
    using ys(2) assms(3) by (auto simp: wide_ok_def Let_def dest: splits_length)
  ultimately show ?thesis by (intro exI [of _ ys]) (auto simp: wide_ok_def cv_list_def)
qed

theorem compress_subtree_wide_spec_witness:
  "\<exists>ys. blake3_compress_subtree_wide neon_platform (replicate 9000 7) 9000 IV 0 0 = (concat ys, length ys) \<and>
    2 \<le> length ys \<and> length ys \<le> MAX_SIMD_DEGREE_OR_2 neon_platform \<and>
    reduce (parent_cv IV 0) ys = subtree_cv IV 0 0 (replicate 9000 7)"
  using compress_subtree_wide_spec [OF neon_platform_agrees, of 9000 "replicate 9000 7" IV 0 0]
  by (auto simp: length_IV)

text \<open>C14. \<open>compress_subtree_to_parent_node\<close>, on more than one chunk, returns the chaining values of the
  left and the right child of the top node of the reference tree, on every platform.\<close>

theorem parent_node_spec:
  assumes "asm_agrees P" "1024 < n" "n \<le> length input" "n < 2 ^ 64" "length key = 8"
  shows "compress_subtree_to_parent_node P input n key counter flags =
    subtree_cv key flags counter (take (left_len n) input) @
    subtree_cv key flags (counter + of_nat (left_len n div 1024)) (drop (left_len n) (take n input))"
  using assms by (intro blake3_platform.compress_subtree_to_parent_node_eq asm_agrees_platform)

theorem parent_node_spec_witness:
  "compress_subtree_to_parent_node portable_platform (replicate 3000 1) 2500 IV 0 0 =
    subtree_cv IV 0 0 (replicate 2048 1) @ subtree_cv IV 0 2 (replicate 452 1)"
proof -
  have "left_len 2500 = 2048" by (simp add: left_len_def floor_pow2.simps)
  then show ?thesis
    using parent_node_spec [OF portable_platform_agrees, of 2500 "replicate 3000 1" IV 0 0] by (simp add: length_IV)
qed

end
