(* ===== verification/Blake3_Hasher.thy ===== *)
theory Blake3_Hasher
  imports Blake3_Tree
begin

unbundle bit_operations_syntax

text \<open>
  The incremental hasher of \<open>blake3.c\<close>: a chunk in progress, and a stack of chaining values of
  completed subtrees that are merged lazily, so that the root is never compressed before
  \<open>finalize\<close>. \<open>hasher_rep\<close> relates a hasher to all the bytes it was fed; the theory ends with the
  refinement theorem that any sequence of updates followed by \<open>finalize_seek\<close> gives the reference
  output for the concatenated input, and with the bound on the stack.
\<close>

section \<open>Operations\<close>

record blake3_hasher =
  hkey :: "u32 list"
  chunk :: blake3_chunk_state
  cv_stack_len :: byte
  cv_stack :: "byte list"

text \<open>Initialising leaves the contents of the stack array as they are.\<close>

definition hasher_init_base :: "blake3_hasher \<Rightarrow> u32 list \<Rightarrow> byte \<Rightarrow> blake3_hasher" where
  "hasher_init_base self key flags =
     self\<lparr>hkey := take 8 key, chunk := chunk_state_init key flags, cv_stack_len := 0\<rparr>"

definition blake3_hasher_init :: "blake3_hasher \<Rightarrow> blake3_hasher" where
  "blake3_hasher_init self = hasher_init_base self IV 0"

definition blake3_hasher_init_keyed :: "blake3_hasher \<Rightarrow> byte list \<Rightarrow> blake3_hasher" where
  "blake3_hasher_init_keyed self key =
     (let key_words = load_key_words key in hasher_init_base self key_words KEYED_HASH)"

text \<open>The loop of \<open>hasher_merge_cv_stack\<close>.\<close>

function merge_cv_stack_loop :: "platform \<Rightarrow> blake3_hasher \<Rightarrow> nat \<Rightarrow> blake3_hasher" where
  "merge_cv_stack_loop P self post_merge_stack_len =
     (if unat (cv_stack_len self) > post_merge_stack_len then
        let off = (unat (cv_stack_len self) - 2) * BLAKE3_OUT_LEN;
            parent_node = drop off (cv_stack self);
            output = parent_output parent_node (hkey self) (cs_flags (chunk self));
            self = self\<lparr>cv_stack := memcpy (cv_stack self) off (output_chaining_value P output)\<rparr>;
            self = self\<lparr>cv_stack_len := cv_stack_len self - 1\<rparr>
        in merge_cv_stack_loop P self post_merge_stack_len
      else self)"
  by pat_completeness auto
termination
proof (relation "measure (\<lambda>(P, self, n). unat (cv_stack_len self))", goal_cases)
  case 1
  then show ?case by simp
next
  case (2 P self n off parent out self1 self2)
  then have "cv_stack_len self \<noteq> 0" by auto
  then have "unat (cv_stack_len self - 1) < unat (cv_stack_len self)"
    by (simp add: unat_minus_one) (simp add: unat_gt_0)
  then show ?case using 2 by simp
qed

declare merge_cv_stack_loop.simps [simp del]

definition hasher_merge_cv_stack :: "platform \<Rightarrow> blake3_hasher \<Rightarrow> u64 \<Rightarrow> blake3_hasher" where
  "hasher_merge_cv_stack P self total_len =
     (let post_merge_stack_len = popcnt total_len
      in merge_cv_stack_loop P self post_merge_stack_len)"

definition hasher_push_cv :: "platform \<Rightarrow> blake3_hasher \<Rightarrow> byte list \<Rightarrow> u64 \<Rightarrow> blake3_hasher" where
  "hasher_push_cv P self new_cv counter =
     (let self = hasher_merge_cv_stack P self counter;
          self = self\<lparr>cv_stack := memcpy (cv_stack self) (unat (cv_stack_len self) * BLAKE3_OUT_LEN)
                                   (take BLAKE3_OUT_LEN new_cv)\<rparr>
      in self\<lparr>cv_stack_len := cv_stack_len self + 1\<rparr>)"

text \<open>The loop that halves \<open>subtree_len\<close> until it divides \<open>count_so_far\<close>. It is entered with a power
  of two, and length 1 ends it; length 0, where \<open>subtree_len - 1\<close> would wrap, does not occur.\<close>

function shrink_subtree_len :: "nat \<Rightarrow> u64 \<Rightarrow> nat" where
  "shrink_subtree_len subtree_len count_so_far =
     (if 0 < subtree_len \<and> (of_nat (subtree_len - 1) :: u64) AND count_so_far \<noteq> 0 then
        shrink_subtree_len (subtree_len div 2) count_so_far
      else subtree_len)"
  by pat_completeness auto
termination by (relation "measure fst") auto

declare shrink_subtree_len.simps [simp del]

lemma shrink_subtree_len_pos: "0 < n \<Longrightarrow> 0 < shrink_subtree_len n c"
proof (induction n c rule: shrink_subtree_len.induct)
  case (1 n c)
  show ?case
  proof (cases "0 < n \<and> (of_nat (n - 1) :: u64) AND c \<noteq> 0")
    case True
    then have "n \<noteq> 1" by auto
    then have "0 < n div 2" using 1(2) by (simp add: div_greater_zero_iff)
    then show ?thesis using 1(1) True by (subst shrink_subtree_len.simps) simp
  qed (use 1(2) in \<open>subst shrink_subtree_len.simps, simp\<close>)
qed

text \<open>The body of the loop of \<open>blake3_hasher_update_base\<close>: the hasher and the length of the subtree
  that was consumed.\<close>

definition update_subtree :: "platform \<Rightarrow> blake3_hasher \<Rightarrow> byte list \<Rightarrow> nat \<Rightarrow> blake3_hasher \<times> nat" where
  "update_subtree P self input_bytes input_len =
     (let subtree_len = unat (round_down_to_power_of_2 (of_nat input_len));
          count_so_far = chunk_counter (chunk self) * of_nat BLAKE3_CHUNK_LEN;
          subtree_len = shrink_subtree_len subtree_len count_so_far;
          subtree_chunks = of_nat (subtree_len div BLAKE3_CHUNK_LEN);
          self =
            (if subtree_len \<le> BLAKE3_CHUNK_LEN then
               let chunk_state = chunk_state_init (hkey self) (cs_flags (chunk self));
                   chunk_state = chunk_state\<lparr>chunk_counter := chunk_counter (chunk self)\<rparr>;
                   chunk_state = chunk_state_update P chunk_state input_bytes subtree_len;
                   output = chunk_state_output chunk_state;
                   cv = output_chaining_value P output
               in hasher_push_cv P self cv (chunk_counter chunk_state)
             else
               let cv_pair = compress_subtree_to_parent_node P input_bytes subtree_len (hkey self)
                               (chunk_counter (chunk self)) (cs_flags (chunk self));
                   self = hasher_push_cv P self cv_pair (chunk_counter (chunk self))
               in hasher_push_cv P self (drop BLAKE3_OUT_LEN cv_pair)
                    (chunk_counter (chunk self) + subtree_chunks div 2));
          self = self\<lparr>chunk := (chunk self)\<lparr>chunk_counter := chunk_counter (chunk self) + subtree_chunks\<rparr>\<rparr>
      in (self, subtree_len))"

lemma update_subtree_pos: "0 < snd (update_subtree P self input n)"
  by (auto simp: update_subtree_def Let_def round_down_to_power_of_2_eq intro!: shrink_subtree_len_pos)

function update_loop :: "platform \<Rightarrow> blake3_hasher \<Rightarrow> byte list \<Rightarrow> nat \<Rightarrow> blake3_hasher \<times> byte list \<times> nat" where
  "update_loop P self input_bytes input_len =
     (if input_len > BLAKE3_CHUNK_LEN then
        let (self, subtree_len) = update_subtree P self input_bytes input_len
        in update_loop P self (drop subtree_len input_bytes) (input_len - subtree_len)
      else (self, input_bytes, input_len))"
  by pat_completeness auto
termination
proof (relation "measure (\<lambda>(P, self, input, n). n)", goal_cases)
  case 1
  then show ?case by simp
next
  case (2 P self input n x self' m)
  then have "0 < m" using update_subtree_pos [of P self input n] by (metis snd_conv)
  then show ?case using 2 by simp
qed

declare update_loop.simps [simp del]

text \<open>The update from the point where the chunk state is clear.\<close>

definition update_tail :: "platform \<Rightarrow> blake3_hasher \<Rightarrow> byte list \<Rightarrow> nat \<Rightarrow> blake3_hasher" where
  "update_tail P self input_bytes input_len =
     (let (self, input_bytes, input_len) = update_loop P self input_bytes input_len
      in if input_len > 0 then
           let self = self\<lparr>chunk := chunk_state_update P (chunk self) input_bytes input_len\<rparr>
           in hasher_merge_cv_stack P self (chunk_counter (chunk self))
         else self)"

definition blake3_hasher_update_base :: "platform \<Rightarrow> blake3_hasher \<Rightarrow> byte list \<Rightarrow> nat \<Rightarrow> blake3_hasher" where
  "blake3_hasher_update_base P self input_bytes input_len =
     (if input_len = 0 then self
      else if chunk_state_len (chunk self) > 0 then
        let take_n = BLAKE3_CHUNK_LEN - chunk_state_len (chunk self);
            take_n = (if take_n > input_len then input_len else take_n);
            self = self\<lparr>chunk := chunk_state_update P (chunk self) input_bytes take_n\<rparr>;
            input_bytes = drop take_n input_bytes;
            input_len = input_len - take_n
        in if input_len > 0 then
             let output = chunk_state_output (chunk self);
                 chunk_cv = output_chaining_value P output;
                 self = hasher_push_cv P self chunk_cv (chunk_counter (chunk self));
                 self = self\<lparr>chunk := chunk_state_reset (chunk self) (hkey self)
                                       (chunk_counter (chunk self) + 1)\<rparr>
             in update_tail P self input_bytes input_len
           else self
      else update_tail P self input_bytes input_len)"

definition blake3_hasher_update :: "platform \<Rightarrow> blake3_hasher \<Rightarrow> byte list \<Rightarrow> nat \<Rightarrow> blake3_hasher" where
  "blake3_hasher_update P self input input_len = blake3_hasher_update_base P self input input_len"

text \<open>The roll-up loop of \<open>blake3_hasher_finalize_seek\<close>.\<close>

fun finalize_loop :: "platform \<Rightarrow> blake3_hasher \<Rightarrow> nat \<Rightarrow> output_t \<Rightarrow> output_t" where
  "finalize_loop P self 0 output = output"
| "finalize_loop P self (Suc cvs_remaining) output =
     (let parent_block = take 32 (drop (cvs_remaining * 32) (cv_stack self)) @ output_chaining_value P output;
          output = parent_output parent_block (hkey self) (cs_flags (chunk self))
      in finalize_loop P self cvs_remaining output)"

definition blake3_hasher_finalize_seek :: "platform \<Rightarrow> blake3_hasher \<Rightarrow> u64 \<Rightarrow> nat \<Rightarrow> byte list" where
  "blake3_hasher_finalize_seek P self seek out_len =
     (if out_len = 0 then []
      else if cv_stack_len self = 0 then
        let output = chunk_state_output (chunk self) in output_root_bytes P output seek out_len
      else
        let (cvs_remaining, output) =
              (if chunk_state_len (chunk self) > 0 then
                 (unat (cv_stack_len self), chunk_state_output (chunk self))
               else
                 let cvs_remaining = unat (cv_stack_len self) - 2
                 in (cvs_remaining,
                     parent_output (drop (cvs_remaining * 32) (cv_stack self)) (hkey self) (cs_flags (chunk self))));
            output = finalize_loop P self cvs_remaining output
        in output_root_bytes P output seek out_len)"

definition blake3_hasher_finalize :: "platform \<Rightarrow> blake3_hasher \<Rightarrow> nat \<Rightarrow> byte list" where
  "blake3_hasher_finalize P self out_len = blake3_hasher_finalize_seek P self 0 out_len"

definition blake3_hasher_reset :: "blake3_hasher \<Rightarrow> blake3_hasher" where
  "blake3_hasher_reset self =
     self\<lparr>chunk := chunk_state_reset (chunk self) (hkey self) 0, cv_stack_len := 0\<rparr>"

definition blake3_hasher_init_derive_key_raw ::
    "platform \<Rightarrow> blake3_hasher \<Rightarrow> blake3_hasher \<Rightarrow> byte list \<Rightarrow> nat \<Rightarrow> blake3_hasher" where
  "blake3_hasher_init_derive_key_raw P context_hasher self context_bytes context_len =
     (let context_hasher = hasher_init_base context_hasher IV DERIVE_KEY_CONTEXT;
          context_hasher = blake3_hasher_update P context_hasher context_bytes context_len;
          context_key = blake3_hasher_finalize P context_hasher BLAKE3_KEY_LEN;
          context_key_words = load_key_words context_key
      in hasher_init_base self context_key_words DERIVE_KEY_MATERIAL)"

text \<open>\<open>strlen\<close>: the bytes of a C string up to the terminating zero.\<close>

definition strlen :: "byte list \<Rightarrow> nat" where
  "strlen s = length (takeWhile (\<lambda>b. b \<noteq> 0) s)"

definition blake3_hasher_init_derive_key ::
    "platform \<Rightarrow> blake3_hasher \<Rightarrow> blake3_hasher \<Rightarrow> byte list \<Rightarrow> blake3_hasher" where
  "blake3_hasher_init_derive_key P context_hasher self context_str =
     blake3_hasher_init_derive_key_raw P context_hasher self context_str (strlen context_str)"

section \<open>Sizes of the subtrees on the stack\<close>

text \<open>\<open>bin_sizes c\<close>: the powers of two that sum to \<open>c\<close>, largest first.\<close>

function bin_sizes :: "nat \<Rightarrow> nat list" where
  "bin_sizes c = (if c = 0 then [] else floor_pow2 c # bin_sizes (c - floor_pow2 c))"
  by pat_completeness auto
termination by (relation "measure id") auto

declare bin_sizes.simps [simp del]

lemma bin_sizes_0 [simp]: "bin_sizes 0 = []"
  by (simp add: bin_sizes.simps)

lemma bin_sizes_Nil [simp]: "bin_sizes c = [] \<longleftrightarrow> c = 0"
  by (simp add: bin_sizes.simps [of c])

lemma bin_sizes_pow2: "is_pow2 t \<Longrightarrow> bin_sizes t = [t]"
  by (subst bin_sizes.simps) (auto dest: is_pow2_pos)

lemma pow2_dvd_less_add:
  assumes "is_pow2 t" "t dvd c" "0 < c"
  shows "t \<le> floor_pow2 c" "c + t \<le> 2 * floor_pow2 c"
proof -
  have "t \<le> c" using assms by (simp add: dvd_imp_le)
  moreover have b: "c < 2 * floor_pow2 c" using assms by (simp add: floor_pow2_gt)
  ultimately have "t < 2 * floor_pow2 c" by simp
  then show le: "t \<le> floor_pow2 c" using pow2_less_double [OF is_pow2_floor_pow2 assms(1), of c] by linarith
  then have "t dvd floor_pow2 c" using assms(1) by (simp add: pow2_dvd)
  then have "t dvd 2 * floor_pow2 c - c" using assms(2) by (simp add: dvd_diff_nat)
  moreover have "0 < 2 * floor_pow2 c - c" using b by simp
  ultimately have "t \<le> 2 * floor_pow2 c - c" by (rule dvd_imp_le)
  then show "c + t \<le> 2 * floor_pow2 c" using b by simp
qed

text \<open>Adding a power of two below the smallest one appends it.\<close>

lemma bin_sizes_add:
  assumes "is_pow2 t" "2 * t dvd c"
  shows "bin_sizes (c + t) = bin_sizes c @ [t]"
  using assms
proof (induction c rule: bin_sizes.induct)
  case (1 c)
  show ?case
  proof (cases "c = 0")
    case True
    then show ?thesis using 1 by (simp add: bin_sizes_pow2)
  next
    case False
    define p where "p = floor_pow2 c"
    have t2: "is_pow2 (2 * t)" using 1(2) by simp
    have b: "p \<le> c" "2 * t \<le> p" "c + 2 * t \<le> 2 * p"
      using pow2_dvd_less_add [OF t2 1(3)] False floor_pow2_le [of c] by (auto simp: p_def)
    have "0 < t" using 1(2) by (rule is_pow2_pos)
    then have f: "floor_pow2 (c + t) = p" using b by (intro floor_pow2_eq) (auto simp: p_def)
    have "2 * t dvd p" using t2 b by (simp add: pow2_dvd p_def)
    then have "bin_sizes (c - p + t) = bin_sizes (c - p) @ [t]"
      using 1(1) [OF False 1(2)] 1(3) by (simp add: p_def dvd_diff_nat)
    moreover have "c + t - p = c - p + t" using b by simp
    ultimately show ?thesis using False f by (simp add: bin_sizes.simps [of "c + t"] bin_sizes.simps [of c] p_def)
  qed
qed

lemma bin_sizes_double: "bin_sizes (2 * c) = map ((*) 2) (bin_sizes c)"
proof (induction c rule: bin_sizes.induct)
  case (1 c)
  show ?case
  proof (cases "c = 0")
    case False
    then have "floor_pow2 (2 * c) = 2 * floor_pow2 c" by (simp add: floor_pow2.simps [of "2 * c"])
    then show ?thesis using 1 False
      by (simp add: bin_sizes.simps [of "2 * c"] bin_sizes.simps [of c] flip: right_diff_distrib')
  qed simp
qed

lemma length_bin_sizes: "length (bin_sizes c) = pop c"
proof (induction c rule: pop.induct)
  case (1 c)
  show ?case
  proof (cases "c = 0")
    case False
    with 1 have IH: "length (bin_sizes (c div 2)) = pop (c div 2)" .
    show ?thesis
    proof (cases "even c")
      case True
      then obtain m where "c = 2 * m" by (rule evenE)
      then show ?thesis using IH by (simp add: bin_sizes_double pop_double)
    next
      case False
      then obtain m where m: "c = 2 * m + 1" by (rule oddE)
      have "bin_sizes c = bin_sizes (2 * m) @ [1]" unfolding m by (rule bin_sizes_add) simp_all
      then show ?thesis using IH m by (simp add: bin_sizes_double pop_Suc_double)
    qed
  qed simp
qed

lemma sum_list_bin_sizes: "sum_list (bin_sizes c) = c"
proof (induction c rule: bin_sizes.induct)
  case (1 c)
  then show ?case using floor_pow2_le [of c] by (cases "c = 0") (auto simp: bin_sizes.simps [of c])
qed

lemma pop_less: "c < 2 ^ k \<Longrightarrow> pop c \<le> k"
proof (induction k arbitrary: c)
  case (Suc k)
  then have "pop (c div 2) \<le> k" by simp
  moreover have "pop c \<le> 1 + pop (c div 2)" by (cases "c = 0") (auto simp: pop.simps [of c])
  ultimately show ?case by simp
qed simp

lemma odd_multiple_pow2:
  assumes "t dvd c" "\<not> 2 * t dvd c" "0 < (t :: nat)"
  obtains c' where "c = c' + t" "2 * t dvd c'"
proof -
  obtain k where k: "c = t * k" using assms(1) by (rule dvdE)
  then have "odd k" using assms(2) by auto
  then obtain m where "k = 2 * m + 1" by (rule oddE)
  then show ?thesis using that [of "2 * t * m"] k by (simp add: algebra_simps)
qed

lemma pop_add_pow2:
  assumes "is_pow2 t" "t dvd c"
  shows "pop (c + t) \<le> Suc (pop c)"
  using assms
proof (induction c arbitrary: t rule: less_induct)
  case (less c)
  have t: "0 < t" using less.prems(1) by (rule is_pow2_pos)
  show ?case
  proof (cases "2 * t dvd c")
    case True
    then show ?thesis using bin_sizes_add [OF less.prems(1) True] by (simp flip: length_bin_sizes)
  next
    case False
    then obtain c' where c': "c = c' + t" "2 * t dvd c'" using odd_multiple_pow2 less.prems t by blast
    have "pop (c' + 2 * t) \<le> Suc (pop c')" using less.IH [of c' "2 * t"] c' less.prems t by simp
    moreover have "pop c = Suc (pop c')"
      using bin_sizes_add [OF less.prems(1) c'(2)] c'(1) by (simp flip: length_bin_sizes)
    ultimately show ?thesis using c'(1) by (simp add: mult_2 add.assoc)
  qed
qed

section \<open>What the stack holds\<close>

text \<open>The chaining values of consecutive subtrees of \<open>bs\<close>, of the given numbers of chunks, from
  chunk \<open>off\<close> on.\<close>

primrec stack_cvs :: "u32 list \<Rightarrow> byte \<Rightarrow> byte list \<Rightarrow> nat \<Rightarrow> nat list \<Rightarrow> byte list list" where
  "stack_cvs key flags bs off [] = []"
| "stack_cvs key flags bs off (n # ns) =
     subtree_cv key flags (of_nat off) (take (1024 * n) (drop (1024 * off) bs)) #
     stack_cvs key flags bs (off + n) ns"

lemma length_stack_cvs [simp]: "length (stack_cvs key flags bs off ns) = length ns"
  by (induction ns arbitrary: off) simp_all

lemma cv_list_stack_cvs [simp]: "cv_list (stack_cvs key flags bs off ns)"
  by (induction ns arbitrary: off) simp_all

lemma stack_cvs_append:
  "stack_cvs key flags bs off (ms @ ns) =
     stack_cvs key flags bs off ms @ stack_cvs key flags bs (off + sum_list ms) ns"
  by (induction ms arbitrary: off) (simp_all add: add.assoc)

lemma stack_cvs_more:
  assumes "1024 * (off + sum_list ns) \<le> length bs"
  shows "stack_cvs key flags (bs @ ys) off ns = stack_cvs key flags bs off ns"
  using assms
proof (induction ns arbitrary: off)
  case (Cons n ns)
  have "1024 * n \<le> length (drop (1024 * off) bs)" "1024 * off \<le> length bs"
    using Cons.prems by (simp_all add: algebra_simps)
  then show ?case using Cons by (simp add: add.assoc)
qed simp

text \<open>Two neighbours of the same size, a power of two, are the children of one node.\<close>

lemma subtree_cv_merge:
  assumes "is_pow2 n" "length bs = 1024 * (2 * n)"
  shows "subtree_cv key flags counter bs =
    parent_cv key flags (subtree_cv key flags counter (take (1024 * n) bs))
      (subtree_cv key flags (counter + of_nat n) (drop (1024 * n) bs))"
proof -
  have "0 < n" using assms(1) by (rule is_pow2_pos)
  moreover have "(1024 * (2 * n) - 1) div 1024 = 2 * n - 1"
    using \<open>0 < n\<close> by (intro div_nat_eqI) auto
  then have "left_len (length bs) = 1024 * n"
    using assms \<open>0 < n\<close> by (simp add: left_len_def floor_pow2_eq [of n])
  ultimately show ?thesis using assms by (subst subtree_cv_parent) simp_all
qed

lemma stack_cvs_merge:
  assumes "is_pow2 n" "1024 * (off + 2 * n) \<le> length bs"
  shows "stack_cvs key flags bs off [2 * n] =
    [parent_cv key flags (stack_cvs key flags bs off [n, n] ! 0) (stack_cvs key flags bs off [n, n] ! 1)]"
proof -
  define xs where "xs = take (1024 * (2 * n)) (drop (1024 * off) bs)"
  have "length xs = 1024 * (2 * n)" using assms(2) by (simp add: xs_def algebra_simps)
  moreover have "take (1024 * n) xs = take (1024 * n) (drop (1024 * off) bs)"
    by (simp add: xs_def min_def)
  moreover have "drop (1024 * n) xs = take (1024 * n) (drop (1024 * (off + n)) bs)"
    by (simp add: xs_def drop_take algebra_simps)
  ultimately show ?thesis
    using subtree_cv_merge [OF assms(1), of xs key flags "of_nat off"] by (simp add: xs_def)
qed

definition stack_rep :: "u32 list \<Rightarrow> byte \<Rightarrow> byte list \<Rightarrow> nat list \<Rightarrow> blake3_hasher \<Rightarrow> bool" where
  "stack_rep key flags bs ns self \<longleftrightarrow>
     length key = 8 \<and> hkey self = key \<and> cs_flags (chunk self) = flags \<and>
     length (cv_stack self) = (BLAKE3_MAX_DEPTH + 1) * BLAKE3_OUT_LEN \<and>
     unat (cv_stack_len self) = length ns \<and> length ns \<le> BLAKE3_MAX_DEPTH + 1 \<and>
     take (32 * length ns) (cv_stack self) = concat (stack_cvs key flags bs 0 ns) \<and>
     1024 * sum_list ns \<le> length bs"

lemma stack_rep_more: "stack_rep key flags bs ns self \<Longrightarrow> stack_rep key flags (bs @ ys) ns self"
  by (simp add: stack_rep_def stack_cvs_more)

lemma stack_rep_chunk:
  "stack_rep key flags bs ns self \<Longrightarrow> cs_flags c = flags \<Longrightarrow> stack_rep key flags bs ns (self\<lparr>chunk := c\<rparr>)"
  by (simp add: stack_rep_def)

text \<open>The top two entries of a stack.\<close>

lemma stack_rep_top2:
  assumes "stack_rep key flags bs (ms @ [m, n]) self"
  shows "take 64 (drop (32 * length ms) (cv_stack self)) = concat (stack_cvs key flags bs (sum_list ms) [m, n])"
    and "take (32 * length ms) (cv_stack self) = concat (stack_cvs key flags bs 0 ms)"
proof -
  have e: "take (32 * length ms + 64) (cv_stack self) =
      concat (stack_cvs key flags bs 0 ms) @ concat (stack_cvs key flags bs (sum_list ms) [m, n])"
    using assms by (simp add: stack_rep_def stack_cvs_append add.commute)
  have "length (concat (stack_cvs key flags bs 0 ms)) = 32 * length ms" by (simp add: length_concat_cvs)
  then show "take 64 (drop (32 * length ms) (cv_stack self)) = concat (stack_cvs key flags bs (sum_list ms) [m, n])"
    using arg_cong [OF e, of "drop (32 * length ms)"] by (simp add: drop_take)
  show "take (32 * length ms) (cv_stack self) = concat (stack_cvs key flags bs 0 ms)"
    using arg_cong [OF e, of "take (32 * length ms)"] \<open>length (concat (stack_cvs key flags bs 0 ms)) = 32 * length ms\<close>
    by simp
qed

context blake3_platform
begin

lemma merge_step:
  assumes r: "stack_rep key flags bs (ms @ [n, n]) self" and n: "is_pow2 n" and post: "post < length ms + 2"
  obtains self' where "merge_cv_stack_loop P self post = merge_cv_stack_loop P self' post"
    "stack_rep key flags bs (ms @ [2 * n]) self'" "chunk self' = chunk self"
proof -
  define off where "off = 32 * length ms"
  define ot where "ot = parent_output (drop off (cv_stack self)) key flags"
  define self' where "self' = self\<lparr>cv_stack := memcpy (cv_stack self) off (output_chaining_value P ot),
    cv_stack_len := cv_stack_len self - 1\<rparr>"
  have f: "length key = 8" "hkey self = key" "cs_flags (chunk self) = flags" "length (cv_stack self) = 1760"
    "unat (cv_stack_len self) = length ms + 2" "length ms + 2 \<le> 55"
    "1024 * (sum_list ms + 2 * n) \<le> length bs"
    using r by (simp_all add: stack_rep_def)
  note top = stack_rep_top2 [OF r, folded off_def]
  have "output_wf ot" using f by (simp add: ot_def off_def output_wf_parent_output)
  moreover have "output_cv ot = concat (stack_cvs key flags bs (sum_list ms) [2 * n])"
  proof -
    have "ot = parent_output (take 64 (drop off (cv_stack self))) key flags"
      by (simp add: ot_def parent_output_take)
    then show ?thesis
      using stack_cvs_merge [OF n f(7), of key flags] by (simp add: top(1) parent_cv_def)
  qed
  ultimately have cv: "output_chaining_value P ot = concat (stack_cvs key flags bs (sum_list ms) [2 * n])"
    by (simp add: output_chaining_value_eq)
  have len: "length (output_chaining_value P ot) = 32" by (simp add: cv)
  have "unat (cv_stack_len self - 1) = length ms + 1"
    using f(5) by (subst unat_minus_one) auto
  moreover have "take (32 * (length ms + 1)) (memcpy (cv_stack self) off (output_chaining_value P ot)) =
      concat (stack_cvs key flags bs 0 (ms @ [2 * n]))"
    using f len by (subst take_memcpy_end) (simp_all add: top(2) cv stack_cvs_append, simp_all add: off_def)
  ultimately have "stack_rep key flags bs (ms @ [2 * n]) self'"
    using f len by (simp add: stack_rep_def self'_def off_def)
  moreover have "merge_cv_stack_loop P self post = merge_cv_stack_loop P self' post"
    using post f by (subst merge_cv_stack_loop.simps) (simp add: self'_def ot_def off_def mult.commute [of _ 32] Let_def)
  moreover have "chunk self' = chunk self" by (simp add: self'_def)
  ultimately show ?thesis using that by blast
qed

text \<open>Merging after a subtree of \<open>t\<close> chunks, \<open>t\<close> dividing \<open>c\<close>, was put on the stack of \<open>c\<close> chunks.\<close>

lemma merge_one:
  assumes "stack_rep key flags bs (bin_sizes c @ [t]) self" "is_pow2 t" "t dvd c"
  shows "stack_rep key flags bs (bin_sizes (c + t)) (merge_cv_stack_loop P self (pop (c + t))) \<and>
    chunk (merge_cv_stack_loop P self (pop (c + t))) = chunk self"
  using assms
proof (induction c arbitrary: t self rule: less_induct)
  case (less c)
  have t: "0 < t" using less.prems(2) by (rule is_pow2_pos)
  show ?case
  proof (cases "2 * t dvd c")
    case True
    note b = bin_sizes_add [OF less.prems(2) True]
    then have "unat (cv_stack_len self) = pop (c + t)"
      using less.prems(1) by (simp add: stack_rep_def flip: length_bin_sizes)
    then show ?thesis using less.prems(1) b by (subst (1 2) merge_cv_stack_loop.simps) simp
  next
    case False
    then obtain c' where c': "c = c' + t" "2 * t dvd c'" using odd_multiple_pow2 less.prems t by blast
    note b = bin_sizes_add [OF less.prems(2) c'(2)]
    have "pop (c' + 2 * t) \<le> Suc (pop c')" using pop_add_pow2 [of "2 * t" c'] c' less.prems(2) by simp
    then have post: "pop (c + t) < length (bin_sizes c') + 2" using c'(1) by (simp add: length_bin_sizes mult_2 add.assoc)
    have r: "stack_rep key flags bs (bin_sizes c' @ [t, t]) self" using less.prems(1) b c'(1) by simp
    obtain self' where self': "merge_cv_stack_loop P self (pop (c + t)) = merge_cv_stack_loop P self' (pop (c + t))"
      "stack_rep key flags bs (bin_sizes c' @ [2 * t]) self'" "chunk self' = chunk self"
      using merge_step [OF r less.prems(2) post] .
    have ct: "c + t = c' + 2 * t" using c'(1) by simp
    show ?thesis unfolding self'(1) unfolding ct
      using less.IH [of c' "2 * t" self'] self'(2,3) c' t less.prems(2) by simp
  qed
qed

text \<open>The shapes a stack for \<open>c\<close> chunks can have before it is merged: merged already, one subtree
  more, or the two halves of one subtree more.\<close>

end

definition shape :: "nat \<Rightarrow> nat list \<Rightarrow> bool" where
  "shape c ns \<longleftrightarrow> ns = bin_sizes c \<or>
     (\<exists>c' t. ns = bin_sizes c' @ [t] \<and> c = c' + t \<and> is_pow2 t \<and> t dvd c') \<or>
     (\<exists>c' h. ns = bin_sizes c' @ [h, h] \<and> c = c' + 2 * h \<and> is_pow2 h \<and> 2 * h dvd c')"

definition pair_shape :: "nat \<Rightarrow> nat list \<Rightarrow> bool" where
  "pair_shape c ns \<longleftrightarrow> (\<exists>c' h. ns = bin_sizes c' @ [h, h] \<and> c = c' + 2 * h \<and> is_pow2 h \<and> 2 * h dvd c')"

lemma shape_single: "is_pow2 t \<Longrightarrow> t dvd c \<Longrightarrow> shape (c + t) (bin_sizes c @ [t])"
  unfolding shape_def by blast

lemma shape_pair: "pair_shape c ns \<Longrightarrow> shape c ns"
  by (simp add: shape_def pair_shape_def)

context blake3_platform
begin

lemma merge_shape:
  assumes "stack_rep key flags bs ns self" "shape c ns" "c < 2 ^ 64"
  shows "stack_rep key flags bs (bin_sizes c) (hasher_merge_cv_stack P self (of_nat c)) \<and>
    chunk (hasher_merge_cv_stack P self (of_nat c)) = chunk self"
proof -
  have e: "hasher_merge_cv_stack P self (of_nat c) = merge_cv_stack_loop P self (pop c)"
    using assms(3) by (simp add: hasher_merge_cv_stack_def popcnt_pop unat_of_nat)
  consider "ns = bin_sizes c"
    | c' t where "ns = bin_sizes c' @ [t]" "c = c' + t" "is_pow2 t" "t dvd c'"
    | c' h where "ns = bin_sizes c' @ [h, h]" "c = c' + 2 * h" "is_pow2 h" "2 * h dvd c'"
    using assms(2) unfolding shape_def by blast
  then show ?thesis
  proof cases
    case 1
    then have "unat (cv_stack_len self) = pop c" using assms(1) by (simp add: stack_rep_def length_bin_sizes)
    then show ?thesis using assms(1) 1 unfolding e by (subst (1 2) merge_cv_stack_loop.simps) simp
  next
    case 2
    then show ?thesis using merge_one [of key flags bs c' t self] assms(1) unfolding e by simp
  next
    case 3
    have "pop c \<le> Suc (pop c')" unfolding 3(2) using 3 by (intro pop_add_pow2) auto
    then have post: "pop c < length (bin_sizes c') + 2" by (simp add: length_bin_sizes)
    obtain self' where self': "merge_cv_stack_loop P self (pop c) = merge_cv_stack_loop P self' (pop c)"
      "stack_rep key flags bs (bin_sizes c' @ [2 * h]) self'" "chunk self' = chunk self"
      using merge_step [OF assms(1) [unfolded 3(1)] 3(3) post] .
    then show ?thesis using merge_one [of key flags bs c' "2 * h" self'] 3 unfolding e by simp
  qed
qed

text \<open>Pushing the chaining value of the next \<open>t\<close> chunks; it fits on the stack.\<close>

lemma push_cv_merged:
  assumes r: "stack_rep key flags bs ns self" and len: "length ns \<le> 54"
    and no_merge: "hasher_merge_cv_stack P self counter = self"
    and cv: "take 32 new_cv = subtree_cv key flags (of_nat (sum_list ns)) (take (1024 * t) (drop (1024 * sum_list ns) bs))"
    and bytes: "1024 * (sum_list ns + t) \<le> length bs"
  shows "stack_rep key flags bs (ns @ [t]) (hasher_push_cv P self new_cv counter) \<and>
    chunk (hasher_push_cv P self new_cv counter) = chunk self"
proof -
  have f: "length key = 8" "hkey self = key" "cs_flags (chunk self) = flags" "length (cv_stack self) = 1760"
    "unat (cv_stack_len self) = length ns" "take (32 * length ns) (cv_stack self) = concat (stack_cvs key flags bs 0 ns)"
    using r by (simp_all add: stack_rep_def)
  have "length (take 32 new_cv) = 32" unfolding cv by simp
  moreover have "unat (cv_stack_len self + 1) = Suc (length ns)"
    using f(5) len by (simp add: unat_word_ariths)
  moreover have "take (32 * Suc (length ns)) (memcpy (cv_stack self) (length ns * 32) (take 32 new_cv)) =
      concat (stack_cvs key flags bs 0 (ns @ [t]))"
    using f len \<open>length (take 32 new_cv) = 32\<close>
    by (subst take_memcpy_end) (simp_all add: mult.commute [of _ 32] stack_cvs_append cv)
  ultimately show ?thesis using f len bytes
    by (simp add: hasher_push_cv_def no_merge stack_rep_def Let_def)
qed

lemma push_cv_shape:
  assumes r: "stack_rep key flags bs ns self" and sh: "shape c ns" and c: "c < 2 ^ 54"
    and cv: "take 32 new_cv = subtree_cv key flags (of_nat c) (take (1024 * t) (drop (1024 * c) bs))"
    and bytes: "1024 * (c + t) \<le> length bs"
  shows "stack_rep key flags bs (bin_sizes c @ [t]) (hasher_push_cv P self new_cv (of_nat c)) \<and>
    chunk (hasher_push_cv P self new_cv (of_nat c)) = chunk self"
proof -
  define self1 where "self1 = hasher_merge_cv_stack P self (of_nat c)"
  have c': "c < 2 ^ 64" using c by (rule less_trans) simp
  have m: "stack_rep key flags bs (bin_sizes c) self1" "chunk self1 = chunk self"
    using merge_shape [OF r sh c'] by (simp_all add: self1_def)
  have "unat (cv_stack_len self1) = pop c" using m(1) by (simp add: stack_rep_def length_bin_sizes)
  then have nm: "hasher_merge_cv_stack P self1 (of_nat c) = self1"
    using c' by (simp add: hasher_merge_cv_stack_def popcnt_pop unat_of_nat merge_cv_stack_loop.simps)
  have "hasher_push_cv P self new_cv (of_nat c) = hasher_push_cv P self1 new_cv (of_nat c)"
    by (simp add: hasher_push_cv_def nm flip: self1_def)
  moreover have "length (bin_sizes c) \<le> 54" using pop_less [OF c] by (simp add: length_bin_sizes)
  ultimately show ?thesis using push_cv_merged [OF m(1) _ nm, of new_cv t] cv bytes m(2)
    by (simp add: sum_list_bin_sizes)
qed

end

section \<open>Updating\<close>

lemma of_nat_u64_eq_0: "x < 2 ^ 64 \<Longrightarrow> (of_nat x :: u64) = 0 \<longleftrightarrow> x = 0"
  by (simp add: unat_of_nat flip: unat_eq_0)

lemma mask_and_eq_0_iff:
  assumes "is_pow2 t" "1024 * t < 2 ^ 64" "1024 * c < 2 ^ 64"
  shows "(of_nat (1024 * t - 1) :: u64) AND of_nat (1024 * c) = 0 \<longleftrightarrow> t dvd c"
proof -
  obtain k where "t = 2 ^ k" using assms(1) by (auto simp: is_pow2_def)
  then have k: "1024 * t = 2 ^ (k + 10)" by (simp add: power_add)
  have "(of_nat (1024 * t - 1) :: u64) = mask (k + 10)"
    unfolding k by (simp add: mask_eq_exp_minus_1 of_nat_diff)
  then have "(of_nat (1024 * t - 1) :: u64) AND of_nat (1024 * c) = of_nat ((1024 * c) mod (1024 * t))"
    unfolding k by (simp only: and.commute [of "mask _"] take_bit_eq_mask [symmetric] take_bit_of_nat take_bit_nat_def)
  moreover have "(1024 * c) mod (1024 * t) < 2 ^ 64" using assms(3) by (rule le_less_trans [rotated]) simp
  ultimately have "(of_nat (1024 * t - 1) :: u64) AND of_nat (1024 * c) = 0 \<longleftrightarrow> (1024 * c) mod (1024 * t) = 0"
    by (simp only: of_nat_u64_eq_0)
  then show ?thesis by (simp add: mod_eq_0_iff_dvd)
qed

lemma shrink_subtree_len_spec:
  assumes "is_pow2 t" "1024 * t < 2 ^ 64" "1024 * c < 2 ^ 64"
  shows "\<exists>t'. shrink_subtree_len (1024 * t) (of_nat (1024 * c)) = 1024 * t' \<and> is_pow2 t' \<and> t' \<le> t \<and> t' dvd c"
  using assms
proof (induction t rule: less_induct)
  case (less t)
  have t: "0 < t" using less.prems(1) by (rule is_pow2_pos)
  show ?case
  proof (cases "t dvd c")
    case True
    then show ?thesis using mask_and_eq_0_iff [OF less.prems] less.prems(1)
      by (subst shrink_subtree_len.simps) auto
  next
    case False
    then have "t \<noteq> 1" by auto
    then obtain h where h: "t = 2 * h" "is_pow2 h"
      using less.prems(1) unfolding is_pow2_def by (metis power_0 power_Suc nat.exhaust)
    then have "shrink_subtree_len (1024 * t) (of_nat (1024 * c)) = shrink_subtree_len (1024 * h) (of_nat (1024 * c))"
      using mask_and_eq_0_iff [OF less.prems] False t by (subst shrink_subtree_len.simps) simp
    then show ?thesis using less.IH [of h] h t less.prems(2,3) by fastforce
  qed
qed

lemma floor_pow2_chunks:
  assumes "1024 < n"
  obtains t where "floor_pow2 n = 1024 * t" "is_pow2 t"
proof -
  have p: "is_pow2 1024" using is_pow2_I [of 10] by simp
  have "1024 \<le> floor_pow2 n"
    using pow2_less_double [OF is_pow2_floor_pow2 p, of n] floor_pow2_gt [of n] assms by linarith
  then have "1024 dvd floor_pow2 n" using p by (simp add: pow2_dvd)
  then obtain t where t: "floor_pow2 n = 1024 * t" by (rule dvdE)
  obtain k where "floor_pow2 n = 2 ^ k" using is_pow2_floor_pow2 [of n] by (auto simp: is_pow2_def)
  then have "(2 :: nat) ^ k = 2 ^ 10 * t" "10 \<le> k" using t \<open>1024 \<le> floor_pow2 n\<close>
    by (simp_all flip: power_increasing_iff [of "2 :: nat" 10 k])
  then have "t = 2 ^ (k - 10)" by (simp add: power_diff)
  then show ?thesis using t that by blast
qed

lemma chunk_rep_empty_counter:
  "chunk_rep key flags counter [] cs \<Longrightarrow> chunk_rep key flags counter' [] (cs\<lparr>chunk_counter := counter'\<rparr>)"
  by (simp add: chunk_rep_def chunk_at_def)

text \<open>The state between the steps of an update: whole chunks only, the chunk state clear.\<close>

definition between :: "u32 list \<Rightarrow> byte \<Rightarrow> byte list \<Rightarrow> nat \<Rightarrow> nat list \<Rightarrow> blake3_hasher \<Rightarrow> bool" where
  "between key flags bs c ns self \<longleftrightarrow>
     stack_rep key flags bs ns self \<and> shape c ns \<and> length bs = 1024 * c \<and>
     chunk_rep key flags (of_nat c) [] (chunk self)"

context blake3_platform
begin

lemma update_subtree_between:
  assumes b: "between key flags bs c ns self" and n: "1024 < n" "n \<le> length input" "length bs + n < 2 ^ 64"
  shows "\<exists>t ns'. snd (update_subtree P self input n) = 1024 * t \<and> 0 < t \<and> 1024 * t \<le> n \<and>
    between key flags (bs @ take (1024 * t) input) (c + t) ns' (fst (update_subtree P self input n)) \<and>
    (1024 * t = n \<longrightarrow> pair_shape (c + t) ns')"
proof -
  have f: "stack_rep key flags bs ns self" "shape c ns" "length bs = 1024 * c"
    "chunk_rep key flags (of_nat c) [] (chunk self)" using b by (auto simp: between_def)
  have key: "length key = 8" "hkey self = key" "cs_flags (chunk self) = flags" using f(1) by (auto simp: stack_rep_def)
  have ctr: "chunk_counter (chunk self) = of_nat c" using f(4) by (rule chunk_rep_counter)
  obtain t0 where t0: "floor_pow2 n = 1024 * t0" "is_pow2 t0" using floor_pow2_chunks [OF n(1)] .
  have le: "1024 * t0 \<le> n" using floor_pow2_le [of n] n(1) t0(1) by simp
  obtain t where t: "shrink_subtree_len (1024 * t0) (of_nat (1024 * c)) = 1024 * t" "is_pow2 t" "t \<le> t0" "t dvd c"
    using shrink_subtree_len_spec [OF t0(2), of c] le n(3) f(3) by auto
  have pos: "0 < t" using t(2) by (rule is_pow2_pos)
  have tn: "1024 * t \<le> n" using t(3) le by simp
  have "of_nat n = (of_nat n :: u64)" "unat (of_nat n :: u64) = n" using n(3) by (simp_all add: unat_of_nat)
  then have len: "shrink_subtree_len (unat (round_down_to_power_of_2 (of_nat n)))
      (chunk_counter (chunk self) * of_nat 1024) = 1024 * t"
    using t(1) by (simp add: round_down_to_power_of_2_eq t0(1) ctr mult.commute)
  define bs' where "bs' = bs @ take (1024 * t) input"
  have bs': "length bs' = 1024 * (c + t)" "take (1024 * t) (drop (1024 * c) bs') = take (1024 * t) input"
    using f(3) tn n(2) by (auto simp: bs'_def)
  have c54: "c + t \<le> 2 ^ 54" "c < 2 ^ 54" using n(3) f(3) tn pos by auto
  have r': "stack_rep key flags bs' ns self" using f(1) by (simp add: bs'_def stack_rep_more)
  define cs where "cs = chunk_state_update P ((chunk_state_init key flags)\<lparr>chunk_counter := of_nat c\<rparr>) input (1024 * t)"
  define cv_pair where "cv_pair = compress_subtree_to_parent_node P input (1024 * t) key (of_nat c) flags"
  define self1 where "self1 =
    (if 1024 * t \<le> 1024 then hasher_push_cv P self (output_chaining_value P (chunk_state_output cs)) (chunk_counter cs)
     else let self = hasher_push_cv P self cv_pair (of_nat c)
          in hasher_push_cv P self (drop 32 cv_pair) (chunk_counter (chunk self) + of_nat t div 2))"
  have e: "update_subtree P self input n =
      (self1\<lparr>chunk := (chunk self1)\<lparr>chunk_counter := chunk_counter (chunk self1) + of_nat t\<rparr>\<rparr>, 1024 * t)"
    unfolding update_subtree_def len Let_def self1_def cs_def cv_pair_def by (simp add: key ctr)
  have "\<exists>ns'. stack_rep key flags bs' ns' self1 \<and> chunk self1 = chunk self \<and> shape (c + t) ns' \<and>
      (1 < t \<longrightarrow> pair_shape (c + t) ns')"
  proof (cases "t = 1")
    case True
    have "chunk_rep key flags (of_nat c) (take 1024 input) cs"
      using chunk_state_update_rep [OF chunk_rep_init [OF key(1)] key(1), of 1024 input] n True by (simp add: cs_def)
    then have cv: "output_chaining_value P (chunk_state_output cs) = subtree_cv key flags (of_nat c) (take (1024 * t) input)"
      and "chunk_counter cs = of_nat c"
      using key(1) True by (simp_all add: chunk_state_output_rep output_chaining_value_eq output_wf_chunk_output
          subtree_cv_def tree_output_chunk chunk_rep_counter)
    then show ?thesis
      using push_cv_shape [OF r' f(2) c54(2), of "output_chaining_value P (chunk_state_output cs)" t] bs' True
      by (intro exI [of _ "bin_sizes c @ [t]"]) (auto simp: self1_def shape_def)
  next
    case False
    then obtain h where h: "t = 2 * h" "is_pow2 h"
      using t(2) unfolding is_pow2_def by (metis power_0 power_Suc nat.exhaust)
    have "0 < h" using h(2) by (rule is_pow2_pos)
    have big: "1024 < 1024 * t" using False pos by simp
    have "(1024 * (2 * h) - 1) div 1024 = 2 * h - 1" using \<open>0 < h\<close> by (intro div_nat_eqI) auto
    then have ll: "left_len (1024 * t) = 1024 * h"
      using h \<open>0 < h\<close> by (simp add: left_len_def floor_pow2_eq [of h])
    have pair: "cv_pair = subtree_cv key flags (of_nat c) (take (1024 * h) input) @
        subtree_cv key flags (of_nat (c + h)) (drop (1024 * h) (take (1024 * t) input))"
      using compress_subtree_to_parent_node_eq [OF big, of input key "of_nat c" flags] n tn key(1)
      by (simp add: cv_pair_def ll)
    have halves: "take (1024 * h) (drop (1024 * c) bs') = take (1024 * h) input"
      "take (1024 * h) (drop (1024 * (c + h)) bs') = drop (1024 * h) (take (1024 * t) input)"
      using f(3) h tn n(2) by (auto simp: bs'_def drop_take algebra_simps)
    define self2 where "self2 = hasher_push_cv P self cv_pair (of_nat c)"
    have s2: "stack_rep key flags bs' (bin_sizes c @ [h]) self2" "chunk self2 = chunk self"
      using push_cv_shape [OF r' f(2) c54(2), of cv_pair h] bs'(1) h(1) by (auto simp: self2_def pair halves)
    have bin: "bin_sizes (c + h) = bin_sizes c @ [h]" using h t(4) by (intro bin_sizes_add) auto
    have ch: "c + h < 2 ^ 54" using c54(1) h(1) \<open>0 < h\<close> by simp
    have cv2: "take 32 (drop 32 cv_pair) = subtree_cv key flags (of_nat (c + h)) (take (1024 * h) (drop (1024 * (c + h)) bs'))"
      unfolding halves(2) by (simp add: pair)
    have sh2: "shape (c + h) (bin_sizes c @ [h])" using bin by (simp add: shape_def)
    have "1024 * (c + h + h) \<le> length bs'" using bs'(1) h(1) by simp
    from push_cv_shape [OF s2(1) sh2 ch cv2 this]
    have s3: "stack_rep key flags bs' (bin_sizes c @ [h, h]) (hasher_push_cv P self2 (drop 32 cv_pair) (of_nat (c + h)))"
      "chunk (hasher_push_cv P self2 (drop 32 cv_pair) (of_nat (c + h))) = chunk self2"
      unfolding bin by simp_all
    have "of_nat t div 2 = (of_nat h :: u64)"
    proof -
      have "t < 2 ^ 64" using tn n(3) by simp
      then have u: "unat (of_nat t :: u64) = t" "unat (of_nat h :: u64) = h" using h(1)
        by (simp_all only: unat_of_nat take_bit_nat_eq_self_iff, simp_all)
      have "unat (of_nat t div 2 :: u64) = unat (of_nat h :: u64)"
        unfolding unat_div_distrib u using h(1) by simp
      then show ?thesis by (rule unsigned_word_eqI)
    qed
    then have "self1 = hasher_push_cv P self2 (drop 32 cv_pair) (of_nat (c + h))"
      using big by (simp add: self1_def self2_def [symmetric] s2(2) ctr)
    then show ?thesis using s3 s2(2) h t(4)
      by (intro exI [of _ "bin_sizes c @ [h, h]"]) (auto simp: shape_def pair_shape_def)
  qed
  then obtain ns' where ns': "stack_rep key flags bs' ns' self1" "chunk self1 = chunk self" "shape (c + t) ns'"
    "1 < t \<longrightarrow> pair_shape (c + t) ns'" by blast
  have "between key flags bs' (c + t) ns' (fst (update_subtree P self input n))"
    using ns' bs'(1) chunk_rep_empty_counter [OF f(4), of "of_nat (c + t)"] key
    by (simp add: between_def e ctr stack_rep_chunk)
  then show ?thesis using ns'(4) n(1) pos tn
    by - (rule exI [of _ t], rule exI [of _ ns'], simp add: e flip: bs'_def)
qed

lemma update_loop_between:
  assumes "between key flags bs c ns self" "n \<le> length input" "length bs + n < 2 ^ 64" "0 < n"
  shows "\<exists>self' m c' ns'. update_loop P self input n = (self', drop m input, n - m) \<and> m \<le> n \<and> n - m \<le> 1024 \<and>
    between key flags (bs @ take m input) c' ns' self' \<and> (m = n \<longrightarrow> pair_shape c' ns')"
  using assms
proof (induction n arbitrary: bs c ns self input rule: less_induct)
  case (less n)
  show ?case
  proof (cases "n > 1024")
    case False
    then have "update_loop P self input n = (self, drop 0 input, n - 0)" by (simp add: update_loop.simps)
    then show ?thesis using less.prems False by fastforce
  next
    case True
    define self1 where "self1 = fst (update_subtree P self input n)"
    obtain t ns1 where t: "snd (update_subtree P self input n) = 1024 * t" "0 < t" "1024 * t \<le> n"
      "between key flags (bs @ take (1024 * t) input) (c + t) ns1 self1" "1024 * t = n \<longrightarrow> pair_shape (c + t) ns1"
      using update_subtree_between [OF less.prems(1) True less.prems(2,3)] by (auto simp: self1_def)
    have "update_subtree P self input n = (self1, 1024 * t)" using t(1) by (simp add: self1_def prod_eq_iff)
    then have e: "update_loop P self input n = update_loop P self1 (drop (1024 * t) input) (n - 1024 * t)"
      using True by (subst update_loop.simps) simp
    show ?thesis
    proof (cases "1024 * t = n")
      case True
      then have "update_loop P self input n = (self1, drop n input, n - n)"
        unfolding e by (subst update_loop.simps) simp
      then show ?thesis using True t less.prems
        by - (rule exI [of _ self1], rule exI [of _ n], rule exI [of _ "c + t"], rule exI [of _ ns1], simp)
    next
      case False
      define bs1 where "bs1 = bs @ take (1024 * t) input"
      have "length bs1 = length bs + 1024 * t" using less.prems(2) t(3) by (simp add: bs1_def)
      then have "n - 1024 * t < n" "n - 1024 * t \<le> length (drop (1024 * t) input)"
        "length bs1 + (n - 1024 * t) < 2 ^ 64" "0 < n - 1024 * t"
        using less.prems False t by auto
      from less.IH [OF this(1) t(4) [folded bs1_def] this(2-4)]
      obtain self' m c' ns' where
        r: "update_loop P self1 (drop (1024 * t) input) (n - 1024 * t) = (self', drop m (drop (1024 * t) input), n - 1024 * t - m)"
        "m \<le> n - 1024 * t" "n - 1024 * t - m \<le> 1024"
        "between key flags (bs1 @ take m (drop (1024 * t) input)) c' ns' self'"
        "m = n - 1024 * t \<longrightarrow> pair_shape c' ns'"
        by blast
      have "bs1 @ take m (drop (1024 * t) input) = bs @ take (1024 * t + m) input"
        by (simp add: bs1_def take_add)
      then show ?thesis unfolding e using r t(3)
        by - (rule exI [of _ self'], rule exI [of _ "1024 * t + m"], rule exI [of _ c'], rule exI [of _ ns'],
            auto simp: add.commute)
    qed
  qed
qed

end

section \<open>The bytes a hasher stands for\<close>

definition hasher_rep :: "u32 list \<Rightarrow> byte \<Rightarrow> byte list \<Rightarrow> blake3_hasher \<Rightarrow> bool" where
  "hasher_rep key flags bs self \<longleftrightarrow>
     (\<exists>c ns rest. length bs = 1024 * c + length rest \<and> rest = drop (1024 * c) bs \<and>
        stack_rep key flags bs ns self \<and> chunk_rep key flags (of_nat c) rest (chunk self) \<and>
        (if rest = [] then bs = [] \<and> ns = [] \<or> pair_shape c ns else ns = bin_sizes c))"

lemma hasher_rep_init:
  assumes "length key = 8" "length (cv_stack self) = (BLAKE3_MAX_DEPTH + 1) * BLAKE3_OUT_LEN"
  shows "hasher_rep key flags [] (hasher_init_base self key flags)"
proof -
  have "chunk_rep key flags (of_nat 0) [] (chunk_state_init key flags)"
    using chunk_rep_init [OF assms(1), of flags 0] by (simp add: chunk_state_init_def)
  then show ?thesis using assms
    by (auto simp: hasher_rep_def stack_rep_def hasher_init_base_def chunk_state_init_def)
qed

text \<open>The three ways through an update of at least one byte: no bytes in the chunk state; a chunk that
  is not completed; a chunk that is completed with more input to come.\<close>

lemma update_empty_chunk:
  "0 < n \<Longrightarrow> chunk_state_len (chunk self) = 0 \<Longrightarrow> blake3_hasher_update P self input n = update_tail P self input n"
  by (simp add: blake3_hasher_update_def blake3_hasher_update_base_def)

lemma update_within_chunk:
  assumes "0 < n" "0 < chunk_state_len (chunk self)" "n \<le> 1024 - chunk_state_len (chunk self)"
  shows "blake3_hasher_update P self input n = self\<lparr>chunk := chunk_state_update P (chunk self) input n\<rparr>"
proof -
  have "(if 1024 - chunk_state_len (chunk self) > n then n else 1024 - chunk_state_len (chunk self)) = n"
    using assms(3) by simp
  then show ?thesis using assms(1,2)
    unfolding blake3_hasher_update_def blake3_hasher_update_base_def by (simp add: Let_def)
qed

lemma update_complete_chunk:
  assumes "0 < chunk_state_len (chunk self)" "m = 1024 - chunk_state_len (chunk self)" "m < n"
    and "cs = chunk_state_update P (chunk self) input m"
    and "self1 = hasher_push_cv P (self\<lparr>chunk := cs\<rparr>) (output_chaining_value P (chunk_state_output cs)) (chunk_counter cs)"
  shows "blake3_hasher_update P self input n =
    update_tail P (self1\<lparr>chunk := chunk_state_reset (chunk self1) (hkey self1) (chunk_counter (chunk self1) + 1)\<rparr>)
      (drop m input) (n - m)"
proof -
  have "(if 1024 - chunk_state_len (chunk self) > n then n else 1024 - chunk_state_len (chunk self)) = m"
    using assms(2,3) by simp
  then show ?thesis using assms(1,3)
    unfolding blake3_hasher_update_def blake3_hasher_update_base_def
    by (simp add: Let_def assms(5) assms(4) [symmetric])
qed

context blake3_platform
begin

lemma hasher_update_clear:
  assumes b: "between key flags bs c ns self" and n: "0 < n" "n \<le> length input" "length bs + n < 2 ^ 64"
  shows "hasher_rep key flags (bs @ take n input) (update_tail P self input n)"
proof -
  obtain self' m c' ns' where r: "update_loop P self input n = (self', drop m input, n - m)" "m \<le> n" "n - m \<le> 1024"
    "between key flags (bs @ take m input) c' ns' self'" "m = n \<longrightarrow> pair_shape c' ns'"
    using update_loop_between [OF b n(2,3,1)] by blast
  define bs1 where "bs1 = bs @ take m input"
  have f: "stack_rep key flags bs1 ns' self'" "shape c' ns'" "length bs1 = 1024 * c'"
    "chunk_rep key flags (of_nat c') [] (chunk self')" using r(4) by (auto simp: between_def bs1_def)
  have key: "length key = 8" using f(1) by (simp add: stack_rep_def)
  show ?thesis
  proof (cases "m = n")
    case True
    have "hasher_rep key flags bs1 self'"
      unfolding hasher_rep_def using f r(5) True by (intro exI [of _ c'] exI [of _ ns'] exI [of _ "[]"]) simp
    then show ?thesis using True r(1) by (simp add: bs1_def update_tail_def)
  next
    case False
    define rest where "rest = take (n - m) (drop m input)"
    have all: "bs @ take n input = bs1 @ rest" using r(2) by (simp add: bs1_def rest_def flip: take_add)
    have rest: "length rest = n - m" "rest \<noteq> []" using False r(2) n(2) by (auto simp: rest_def)
    define cs where "cs = chunk_state_update P (chunk self') (drop m input) (n - m)"
    have cs: "chunk_rep key flags (of_nat c') rest cs"
      using chunk_state_update_rep [OF f(4) key, of "n - m" "drop m input"] n(2) r(3) by (simp add: cs_def rest_def)
    have ctr: "chunk_counter cs = of_nat c'" "cs_flags cs = flags"
      using cs by (auto dest: chunk_rep_counter chunk_rep_flags)
    have sr: "stack_rep key flags (bs1 @ rest) ns' (self'\<lparr>chunk := cs\<rparr>)"
      using f(1) ctr by (simp add: stack_rep_more stack_rep_chunk)
    have "length bs1 \<le> length bs + n" using r(2) n(2) by (simp add: bs1_def)
    then have "c' < 2 ^ 64" using f(3) n(3) by simp
    from merge_shape [OF sr f(2) this]
    have "stack_rep key flags (bs1 @ rest) (bin_sizes c') (hasher_merge_cv_stack P (self'\<lparr>chunk := cs\<rparr>) (of_nat c'))"
      "chunk (hasher_merge_cv_stack P (self'\<lparr>chunk := cs\<rparr>) (of_nat c')) = cs" by simp_all
    then have "hasher_rep key flags (bs1 @ rest) (hasher_merge_cv_stack P (self'\<lparr>chunk := cs\<rparr>) (of_nat c'))"
      unfolding hasher_rep_def using f(3) cs rest
      by (intro exI [of _ c'] exI [of _ "bin_sizes c'"] exI [of _ rest]) simp
    then show ?thesis using False r(1,2) ctr by (simp add: all cs_def [symmetric] update_tail_def)
  qed
qed

lemma hasher_update_rep:
  assumes h: "hasher_rep key flags bs self" and n: "n \<le> length input" "length bs + n < 2 ^ 64"
  shows "hasher_rep key flags (bs @ take n input) (blake3_hasher_update P self input n)"
proof (cases "n = 0")
  case True
  then show ?thesis using h by (simp add: blake3_hasher_update_def blake3_hasher_update_base_def)
next
  case False
  obtain c ns rest where r: "length bs = 1024 * c + length rest" "rest = drop (1024 * c) bs"
    "stack_rep key flags bs ns self" "chunk_rep key flags (of_nat c) rest (chunk self)"
    "if rest = [] then bs = [] \<and> ns = [] \<or> pair_shape c ns else ns = bin_sizes c"
    using h unfolding hasher_rep_def by blast
  have key: "length key = 8" "hkey self = key" using r(3) by (auto simp: stack_rep_def)
  have len: "chunk_state_len (chunk self) = length rest" using r(4) by (rule chunk_state_len_rep)
  show ?thesis
  proof (cases "rest = []")
    case True
    have "shape 0 []" by (simp add: shape_def)
    then have "shape c ns" using True r(1,5) by (auto intro: shape_pair)
    then have "between key flags bs c ns self" using r(1,3,4) True by (simp add: between_def)
    from hasher_update_clear [OF this _ n] show ?thesis using False True len
      by (simp add: update_empty_chunk)
  next
    case nonempty: False
    define m where "m = (if 1024 - length rest > n then n else 1024 - length rest)"
    define cs where "cs = chunk_state_update P (chunk self) input m"
    define bs1 where "bs1 = bs @ take m input"
    have rl: "length rest \<le> 1024" using r(4) by (rule chunk_rep_length)
    have m: "m \<le> n" "length rest + m \<le> 1024" using rl by (auto simp: m_def)
    have cs: "chunk_rep key flags (of_nat c) (rest @ take m input) cs"
      using chunk_state_update_rep [OF r(4) key(1), of m input] m n by (simp add: cs_def)
    have ctr: "chunk_counter cs = of_nat c" "cs_flags cs = flags"
      using cs by (auto dest: chunk_rep_counter chunk_rep_flags)
    have sr: "stack_rep key flags bs1 ns (self\<lparr>chunk := cs\<rparr>)"
      using r(3) ctr by (simp add: bs1_def stack_rep_more stack_rep_chunk)
    have d: "drop (1024 * c) bs1 = rest @ take m input" using r(1,2) by (simp add: bs1_def)
    have ns: "ns = bin_sizes c" using r(5) nonempty by simp
    have pos: "0 < chunk_state_len (chunk self)" using nonempty len by simp
    show ?thesis
    proof (cases "n - m > 0")
      case False
      then have mn: "m = n" using m by simp
      have "hasher_rep key flags bs1 (self\<lparr>chunk := cs\<rparr>)"
        unfolding hasher_rep_def using sr cs d r(1) ns nonempty m n
        by (intro exI [of _ c] exI [of _ ns] exI [of _ "rest @ take m input"]) (simp add: bs1_def)
      moreover have "n \<le> 1024 - chunk_state_len (chunk self)" using m(2) mn len by simp
      ultimately show ?thesis using update_within_chunk [of n self P input] \<open>n \<noteq> 0\<close> mn pos
        by (simp add: cs_def bs1_def)
    next
      case True
      then have m1024: "m = 1024 - length rest" by (auto simp: m_def split: if_splits)
      then have full: "length (rest @ take m input) = 1024" using rl m n by simp
      define cv where "cv = output_chaining_value P (chunk_state_output cs)"
      have "cv = subtree_cv key flags (of_nat c) (rest @ take m input)"
        using cs key(1) full by (simp add: cv_def chunk_state_output_rep output_chaining_value_eq output_wf_chunk_output
            subtree_cv_def tree_output_chunk)
      then have cv: "take 32 cv = subtree_cv key flags (of_nat c) (take (1024 * 1) (drop (1024 * c) bs1))"
        unfolding d using full by (simp del: take_append length_append)
      have sh: "shape c ns" using ns by (simp add: shape_def)
      have bl: "length bs1 = 1024 * (c + 1)" using r(1) full by (simp add: bs1_def)
      then have "c < 2 ^ 54" using n m by (simp add: bs1_def)
      define self1 where "self1 = hasher_push_cv P (self\<lparr>chunk := cs\<rparr>) cv (of_nat c)"
      have s1: "stack_rep key flags bs1 (bin_sizes c @ [1]) self1" "chunk self1 = cs"
        using push_cv_shape [OF sr sh \<open>c < 2 ^ 54\<close> cv] bl by (simp_all add: self1_def)
      define self2 where "self2 = self1\<lparr>chunk := chunk_state_reset cs key (of_nat c + 1)\<rparr>"
      have rs: "chunk_rep key flags (of_nat (c + 1)) [] (chunk self2)"
        using chunk_rep_reset [OF key(1), of cs "of_nat (c + 1)"] ctr(2) by (simp add: self2_def add.commute)
      have "shape (c + 1) (bin_sizes c @ [1])" by (rule shape_single) simp_all
      then have bt: "between key flags bs1 (c + 1) (bin_sizes c @ [1]) self2"
        using s1 rs bl ctr(2) unfolding between_def self2_def by (simp add: stack_rep_chunk chunk_state_reset_def)
      have "n - m \<le> length (drop m input)" "length bs1 + (n - m) < 2 ^ 64" using n m by (simp_all add: bs1_def)
      from hasher_update_clear [OF bt True this]
      have "hasher_rep key flags (bs1 @ take (n - m) (drop m input)) (update_tail P self2 (drop m input) (n - m))" .
      moreover have "bs1 @ take (n - m) (drop m input) = bs @ take n input"
        using m by (simp add: bs1_def flip: take_add)
      moreover have "blake3_hasher_update P self input n = update_tail P self2 (drop m input) (n - m)"
      proof -
        have "hkey self1 = key" using s1(1) by (simp add: stack_rep_def)
        moreover have "m = 1024 - chunk_state_len (chunk self)" using m1024 len by simp
        ultimately show ?thesis
          using update_complete_chunk [OF pos _ _ cs_def, of n self1] True s1(2) ctr(1)
          by (simp add: self1_def cv_def self2_def)
      qed
      ultimately show ?thesis by simp
    qed
  qed
qed

end

section \<open>Finalizing\<close>

text \<open>Rolling up the subtrees of \<open>c\<close> chunks over the output of what follows them.\<close>

lemma roll_up:
  assumes m: "is_pow2 m" "m dvd c" and tail: "0 < length tail" "length tail \<le> 1024 * m"
    and whole: "length whole = 1024 * c" and pre: "1024 dvd length pre"
  shows "foldr (\<lambda>cv ot. parent_output (cv @ output_cv ot) key flags)
      (stack_cvs key flags (pre @ whole @ tail) (length pre div 1024) (bin_sizes c))
      (tree_output key flags (of_nat (length pre div 1024 + c)) tail) =
    tree_output key flags (of_nat (length pre div 1024)) (whole @ tail)"
  using m(2) whole pre
proof (induction c arbitrary: pre whole rule: bin_sizes.induct)
  case (1 c)
  show ?case
  proof (cases "c = 0")
    case True
    then show ?thesis using 1 by simp
  next
    case False
    define p where "p = floor_pow2 c"
    define off where "off = length pre div 1024"
    have pre: "length pre = 1024 * off" using "1.prems"(3) by (simp add: off_def)
    have b: "p \<le> c" "m \<le> p" "c + m \<le> 2 * p" "0 < p"
      using pow2_dvd_less_add [OF m(1) "1.prems"(1)] False floor_pow2_le [of c] by (auto simp: p_def)
    have dv: "m dvd c - p" using "1.prems"(1) b m(1) by (simp add: p_def pow2_dvd dvd_diff_nat)
    define w1 w2 where "w1 = take (1024 * p) whole" and "w2 = drop (1024 * p) whole"
    have w: "whole = w1 @ w2" "length w1 = 1024 * p" "length w2 = 1024 * (c - p)"
      using "1.prems"(2) b by (simp_all add: w1_def w2_def right_diff_distrib')
    have ll: "left_len (length (whole @ tail)) = 1024 * p"
    proof -
      have l: "length (whole @ tail) - 1 = 1024 * c + (length tail - 1)" using "1.prems"(2) tail by (cases tail) simp_all
      have "length tail - 1 < m * 1024" using tail by (cases tail) simp_all
      then have "(length tail - 1) div 1024 < m" by (rule less_mult_imp_div_less)
      then have "floor_pow2 ((length (whole @ tail) - 1) div 1024) = p"
        unfolding l using b by (intro floor_pow2_eq) (auto simp: p_def)
      then show ?thesis by (simp add: left_len_def)
    qed
    have big: "1024 < length (whole @ tail)" using "1.prems"(2) tail False by (cases tail) simp_all
    have st: "stack_cvs key flags (pre @ whole @ tail) off (bin_sizes c) =
        subtree_cv key flags (of_nat off) w1 #
        stack_cvs key flags ((pre @ w1) @ w2 @ tail) (off + p) (bin_sizes (c - p))"
      using False pre w by (simp add: bin_sizes.simps [of c] flip: p_def)
    have "foldr (\<lambda>cv ot. parent_output (cv @ output_cv ot) key flags)
        (stack_cvs key flags ((pre @ w1) @ w2 @ tail) (off + p) (bin_sizes (c - p)))
        (tree_output key flags (of_nat (off + p + (c - p))) tail) =
      tree_output key flags (of_nat (off + p)) (w2 @ tail)"
    proof -
      have "length (pre @ w1) div 1024 = off + p" using pre w by simp
      then show ?thesis using "1.IH" [OF False, of w2 "pre @ w1"] dv w(2,3) pre by (simp add: p_def)
    qed
    then have "foldr (\<lambda>cv ot. parent_output (cv @ output_cv ot) key flags)
        (stack_cvs key flags (pre @ whole @ tail) off (bin_sizes c)) (tree_output key flags (of_nat (off + c)) tail) =
      parent_output (subtree_cv key flags (of_nat off) w1 @ output_cv (tree_output key flags (of_nat (off + p)) (w2 @ tail))) key flags"
      using st b by simp
    also have "\<dots> = tree_output key flags (of_nat off) (whole @ tail)"
    proof -
      have "take (1024 * p) (whole @ tail) = w1" "drop (1024 * p) (whole @ tail) = w2 @ tail" using w by simp_all
      then show ?thesis using big
        by (subst (2) tree_output.simps)
          (simp add: ll Let_def subtree_cv_def del: length_append take_append drop_append)
    qed
    finally show ?thesis by (simp only: off_def)
  qed
qed

lemma stack_rep_entry:
  assumes "stack_rep key flags bs (ms @ m # ms') self"
  shows "take 32 (drop (length ms * 32) (cv_stack self)) =
    subtree_cv key flags (of_nat (sum_list ms)) (take (1024 * m) (drop (1024 * sum_list ms) bs))"
proof -
  define xs where "xs = stack_cvs key flags bs 0 (ms @ m # ms')"
  have "take (32 * length xs) (cv_stack self) = concat xs @ []" using assms by (simp add: stack_rep_def xs_def)
  then have "drop (32 * length ms) (take (32 * length xs) (cv_stack self)) = concat (drop (length ms) xs) @ []"
    using drop_concat_cvs [of xs "length ms" "[]"] by (simp add: xs_def)
  then have "take 32 (drop (32 * length ms) (take (32 * length xs) (cv_stack self))) = xs ! length ms"
    by (simp add: xs_def stack_cvs_append nth_append)
  moreover have "take 32 (drop (32 * length ms) (take (32 * length xs) (cv_stack self))) =
      take 32 (drop (length ms * 32) (cv_stack self))"
    by (simp add: xs_def drop_take min_def mult.commute)
  ultimately show ?thesis by (simp add: xs_def stack_cvs_append nth_append)
qed

context blake3_platform
begin

lemma finalize_loop_eq:
  assumes "stack_rep key flags bs (ms @ ms') self" "output_wf ot"
  shows "finalize_loop P self (length ms) ot =
      foldr (\<lambda>cv ot. parent_output (cv @ output_cv ot) key flags) (stack_cvs key flags bs 0 ms) ot"
  using assms
proof (induction ms arbitrary: ms' ot rule: rev_induct)
  case (snoc m ms)
  define cv where "cv = subtree_cv key flags (of_nat (sum_list ms)) (take (1024 * m) (drop (1024 * sum_list ms) bs))"
  define ot' where "ot' = parent_output (cv @ output_cv ot) key flags"
  have r: "stack_rep key flags bs (ms @ m # ms') self" using snoc.prems(1) by simp
  then have key: "length key = 8" "hkey self = key" "cs_flags (chunk self) = flags" by (auto simp: stack_rep_def)
  have "finalize_loop P self (length (ms @ [m])) ot = finalize_loop P self (length ms) ot'"
    using stack_rep_entry [OF r] snoc.prems(2) by (simp add: ot'_def cv_def key output_chaining_value_eq)
  moreover have "output_wf ot'" using key(1) by (simp add: ot'_def cv_def output_wf_parent_output)
  ultimately show ?case using snoc.IH [OF r] by (simp add: stack_cvs_append ot'_def cv_def)
qed simp_all

text \<open>The output object that \<open>finalize_seek\<close> arrives at: with bytes in the chunk state, and with the
  two halves of a subtree on top of the stack.\<close>

lemma finalize_chunk:
  assumes r: "stack_rep key flags bs (bin_sizes c) self"
    and rest: "rest = drop (1024 * c) bs" "rest \<noteq> []" "length rest \<le> 1024" and c: "1024 * c \<le> length bs"
  shows "finalize_loop P self (length (bin_sizes c)) (chunk_output key flags (of_nat c) rest) = tree_output key flags 0 bs"
proof -
  have key: "length key = 8" using r by (simp add: stack_rep_def)
  have bs: "take (1024 * c) bs @ rest = bs" by (simp add: rest(1))
  have "finalize_loop P self (length (bin_sizes c)) (chunk_output key flags (of_nat c) rest) =
      foldr (\<lambda>cv ot. parent_output (cv @ output_cv ot) key flags) (stack_cvs key flags bs 0 (bin_sizes c))
        (tree_output key flags (of_nat c) rest)"
    using finalize_loop_eq [of key flags bs "bin_sizes c" "[]" self "chunk_output key flags (of_nat c) rest"] r key rest(3)
    by (simp add: output_wf_chunk_output tree_output_chunk)
  moreover have "0 < length rest" "length (take (1024 * c) bs) = 1024 * c" using rest(2) c by simp_all
  ultimately show ?thesis
    using roll_up [of 1 c rest "take (1024 * c) bs" "[]" key flags] rest(3) by (simp add: bs)
qed

lemma finalize_pair:
  assumes r: "stack_rep key flags bs (bin_sizes c @ [h, h]) self"
    and h: "is_pow2 h" "2 * h dvd c" "length bs = 1024 * (c + 2 * h)"
    and k: "k = length (bin_sizes c)"
  shows "finalize_loop P self k (parent_output (drop (k * 32) (cv_stack self)) key flags) = tree_output key flags 0 bs"
proof -
  have key: "length key = 8" using r by (simp add: stack_rep_def)
  have pos: "0 < h" using h(1) by (rule is_pow2_pos)
  define tail where "tail = drop (1024 * c) bs"
  have tl: "length tail = 1024 * (2 * h)" using h(3) by (simp add: tail_def)
  have bs: "take (1024 * c) bs @ tail = bs" "length (take (1024 * c) bs) = 1024 * c" using h(3) by (simp_all add: tail_def)
  define ot where "ot = parent_output (drop (k * 32) (cv_stack self)) key flags"
  have ot: "ot = tree_output key flags (of_nat c) tail"
  proof -
    have "ot = parent_output (concat (stack_cvs key flags bs c [h, h])) key flags"
      using stack_rep_top2(1) [OF r] parent_output_take [of "drop (k * 32) (cv_stack self)" key flags]
      by (simp add: ot_def k mult.commute sum_list_bin_sizes)
    moreover have "left_len (length tail) = 1024 * h"
    proof -
      have "(1024 * (2 * h) - 1) div 1024 = 2 * h - 1" using pos by (intro div_nat_eqI) auto
      then show ?thesis unfolding tl using h(1) pos by (simp add: left_len_def floor_pow2_eq [of h])
    qed
    moreover have "take (1024 * h) (drop (1024 * (c + h)) bs) = drop (1024 * h) tail"
      using h(3) by (simp add: tail_def algebra_simps)
    ultimately show ?thesis using tl pos
      by (subst tree_output.simps) (simp add: Let_def subtree_cv_def tail_def)
  qed
  have "finalize_loop P self k ot = foldr (\<lambda>cv ot. parent_output (cv @ output_cv ot) key flags)
      (stack_cvs key flags bs 0 (bin_sizes c)) (tree_output key flags (of_nat c) tail)"
    using finalize_loop_eq [OF r, of ot] key by (simp add: ot k output_wf_tree_output)
  then show ?thesis
    using roll_up [of "2 * h" c tail "take (1024 * c) bs" "[]" key flags] h tl pos bs by (simp add: ot_def)
qed

lemma finalize_seek_rep:
  assumes h: "hasher_rep key flags bs self" and n: "n < 2 ^ 64"
  shows "blake3_hasher_finalize_seek P self seek n = blake3_xof key flags bs (unat seek) n"
proof (cases "n = 0")
  case True
  then show ?thesis by (simp add: blake3_hasher_finalize_seek_def blake3_xof_def)
next
  case False
  obtain c ns rest where r: "length bs = 1024 * c + length rest" "rest = drop (1024 * c) bs"
    "stack_rep key flags bs ns self" "chunk_rep key flags (of_nat c) rest (chunk self)"
    "if rest = [] then bs = [] \<and> ns = [] \<or> pair_shape c ns else ns = bin_sizes c"
    using h unfolding hasher_rep_def by blast
  have key: "length key = 8" "hkey self = key" "cs_flags (chunk self) = flags"
    and sl: "unat (cv_stack_len self) = length ns" using r(3) by (auto simp: stack_rep_def)
  have len: "chunk_state_len (chunk self) = length rest" using r(4) by (rule chunk_state_len_rep)
  have out: "chunk_state_output (chunk self) = chunk_output key flags (of_nat c) rest"
    using r(4) key(1) by (rule chunk_state_output_rep)
  have rl: "length rest \<le> 1024" using r(4) by (rule chunk_rep_length)
  define T where "T = tree_output key flags 0 bs"
  have wf: "output_wf T" using key(1) by (simp add: T_def output_wf_tree_output)
  have root: "output_root_bytes P T seek n = blake3_xof key flags bs (unat seek) n"
    using output_root_bytes_eq [OF wf n] by (simp add: blake3_xof_def T_def)
  show ?thesis
  proof (cases "ns = []")
    case True
    have "c = 0 \<and> rest = bs"
    proof (cases "rest = []")
      case True
      then have "bs = []" using r(5) \<open>ns = []\<close> by (auto simp: pair_shape_def)
      then show ?thesis using r(1) True by simp
    next
      case False
      then have "c = 0" using r(5) \<open>ns = []\<close> by (metis bin_sizes_Nil)
      then show ?thesis using r(2) by simp
    qed
    then have "chunk_state_output (chunk self) = T" using out rl by (simp add: T_def tree_output_chunk)
    moreover have "cv_stack_len self = 0" using sl True by (simp add: unat_eq_0)
    ultimately show ?thesis using False root by (simp add: blake3_hasher_finalize_seek_def)
  next
    case nonempty: False
    then have z: "cv_stack_len self \<noteq> 0" using sl by auto
    show ?thesis
    proof (cases "rest = []")
      case False
      then have ns: "ns = bin_sizes c" using r(5) by simp
      have "finalize_loop P self (length ns) (chunk_output key flags (of_nat c) rest) = T"
        unfolding T_def ns using r(3) [unfolded ns] r(2) False rl by (rule finalize_chunk) (simp add: r(1))
      then show ?thesis using z \<open>n \<noteq> 0\<close> root False len sl out by (simp add: blake3_hasher_finalize_seek_def)
    next
      case True
      then obtain c' h where p: "ns = bin_sizes c' @ [h, h]" "c = c' + 2 * h" "is_pow2 h" "2 * h dvd c'"
        using r(5) nonempty by (auto simp: pair_shape_def)
      have "length bs = 1024 * (c' + 2 * h)" using r(1) True p(2) by simp
      from finalize_pair [OF r(3) [unfolded p(1)] p(3,4) this refl]
      show ?thesis using z \<open>n \<noteq> 0\<close> root True len sl p(1) key
        by (simp add: blake3_hasher_finalize_seek_def T_def Let_def)
    qed
  qed
qed

end

section \<open>Runs of a hasher\<close>

lemma hasher_rep_reset:
  assumes "hasher_rep key flags bs self"
  shows "hasher_rep key flags [] (blake3_hasher_reset self)"
proof -
  obtain ns where r: "stack_rep key flags bs ns self" using assms unfolding hasher_rep_def by blast
  then have key: "length key = 8" "hkey self = key" "cs_flags (chunk self) = flags" by (auto simp: stack_rep_def)
  have c: "chunk_rep key flags (of_nat 0) [] (chunk_state_reset (chunk self) key 0)"
    using chunk_rep_reset [OF key(1), of "chunk self" 0] key(3) by simp
  have "stack_rep key flags [] [] (blake3_hasher_reset self)"
    using r by (simp add: stack_rep_def blake3_hasher_reset_def chunk_state_reset_def)
  then show ?thesis using c unfolding hasher_rep_def
    by (intro exI [of _ 0] exI [of _ "[]"]) (simp add: blake3_hasher_reset_def key)
qed

text \<open>\<open>hasher_run P key flags bs self\<close>: \<open>self\<close> was initialised with the key and the flags of a mode,
  and fed \<open>bs\<close> since, or since the last reset, in pieces of any length; the total stays below
  \<open>2 ^ 64\<close> bytes.\<close>

inductive hasher_run :: "platform \<Rightarrow> u32 list \<Rightarrow> byte \<Rightarrow> byte list \<Rightarrow> blake3_hasher \<Rightarrow> bool"
  for P key flags where
  init: "length key = 8 \<Longrightarrow> length (cv_stack self) = (BLAKE3_MAX_DEPTH + 1) * BLAKE3_OUT_LEN \<Longrightarrow>
    hasher_run P key flags [] (hasher_init_base self key flags)"
| update: "hasher_run P key flags bs self \<Longrightarrow> n \<le> length input \<Longrightarrow> length bs + n < 2 ^ 64 \<Longrightarrow>
    hasher_run P key flags (bs @ take n input) (blake3_hasher_update P self input n)"
| reset: "hasher_run P key flags bs self \<Longrightarrow> hasher_run P key flags [] (blake3_hasher_reset self)"

context blake3_platform
begin

lemma hasher_run_rep: "hasher_run P key flags bs self \<Longrightarrow> hasher_rep key flags bs self"
  by (induction rule: hasher_run.induct) (auto intro: hasher_rep_init hasher_update_rep hasher_rep_reset)

lemma hasher_run_finalize:
  "hasher_run P key flags bs self \<Longrightarrow> n < 2 ^ 64 \<Longrightarrow>
    blake3_hasher_finalize_seek P self seek n = blake3_xof key flags bs (unat seek) n"
  by (intro finalize_seek_rep hasher_run_rep)

lemma hasher_run_stack:
  "hasher_run P key flags bs self \<Longrightarrow>
    unat (cv_stack_len self) \<le> BLAKE3_MAX_DEPTH + 1 \<and>
    length (cv_stack self) = (BLAKE3_MAX_DEPTH + 1) * BLAKE3_OUT_LEN"
  using hasher_run_rep [of key flags bs self] by (auto simp: hasher_rep_def stack_rep_def)

end

lemma length_blake3_xof [simp, len_simps]: "length (blake3_xof key flags bs s n) = n"
  by (simp add: blake3_xof_def)

lemma hasher_run_single:
  assumes "length key = 8" "length (cv_stack self) = (BLAKE3_MAX_DEPTH + 1) * BLAKE3_OUT_LEN"
    "n \<le> length input" "n < 2 ^ 64"
  shows "hasher_run P key flags (take n input) (blake3_hasher_update P (hasher_init_base self key flags) input n)"
  using hasher_run.update [OF hasher_run.init [OF assms(1,2)] assms(3)] assms(4) by simp

section \<open>Properties\<close>

text \<open>A hasher with zeroed memory, for the witnesses.\<close>

definition blank_hasher :: blake3_hasher where
  "blank_hasher = \<lparr>hkey = [], chunk = chunk_state_init [] 0, cv_stack_len = 0, cv_stack = replicate 1760 0\<rparr>"

lemma blank_run:
  "hasher_run P IV 0 [1, 2, 3, 4, 5]
    (blake3_hasher_update P (blake3_hasher_update P (blake3_hasher_init blank_hasher) [1, 2] 2) [3, 4, 5] 3)"
proof -
  have "hasher_run P IV 0 [1, 2] (blake3_hasher_update P (blake3_hasher_init blank_hasher) [1, 2] 2)"
    using hasher_run_single [of IV blank_hasher 2 "[1, 2]" P 0] by (simp add: blake3_hasher_init_def blank_hasher_def)
  from hasher_run.update [OF this, of 3 "[3, 4, 5]"] show ?thesis by simp
qed

text \<open>C1. The hasher computes BLAKE3. For every platform whose assembly routines agree with the
  portable ones, every hasher that was initialised with a key and the flags of a mode and fed the
  bytes \<open>bs\<close> in pieces of any number and length (possibly reset in between), and every position and
  length of output, \<open>blake3_hasher_finalize_seek\<close> returns exactly that stretch of the extended
  output of the reference tree over \<open>bs\<close>.\<close>

theorem hasher_computes_blake3:
  assumes "asm_agrees P" "hasher_run P key flags bs self" "n < 2 ^ 64"
  shows "blake3_hasher_finalize_seek P self seek n = blake3_xof key flags bs (unat seek) n"
  using assms by (intro blake3_platform.hasher_run_finalize asm_agrees_platform)

theorem hasher_computes_blake3_witness:
  "blake3_hasher_finalize_seek neon_platform
     (blake3_hasher_update neon_platform
       (blake3_hasher_update neon_platform (blake3_hasher_init blank_hasher) [1, 2] 2) [3, 4, 5] 3) 7 32 =
   blake3_xof IV 0 [1, 2, 3, 4, 5] (unat (7 :: u64)) 32"
  using hasher_computes_blake3 [OF neon_platform_agrees blank_run, of 32 7] by simp

text \<open>C12. The stack of chaining values never overflows its array of 55 entries and the array is never
  written past its end: in every run, for inputs of up to \<open>2 ^ 64 - 1\<close> bytes, the stack length is at
  most 55 and the array keeps its length.\<close>

theorem hasher_stack_bounded:
  assumes "asm_agrees P" "hasher_run P key flags bs self"
  shows "unat (cv_stack_len self) \<le> BLAKE3_MAX_DEPTH + 1 \<and>
    length (cv_stack self) = (BLAKE3_MAX_DEPTH + 1) * BLAKE3_OUT_LEN"
  using assms by (intro blake3_platform.hasher_run_stack asm_agrees_platform)

theorem hasher_stack_bounded_witness:
  "unat (cv_stack_len (blake3_hasher_update portable_platform
     (blake3_hasher_update portable_platform (blake3_hasher_init blank_hasher) [1, 2] 2) [3, 4, 5] 3)) \<le> 55"
  using hasher_stack_bounded [OF portable_platform_agrees blank_run] by simp

text \<open>C20. Deriving a key: after \<open>blake3_hasher_init_derive_key_raw\<close> the hasher is one initialised, in the
  key-material mode, with the 32-byte BLAKE3 output of the context string in the context mode, so
  by the refinement theorem everything it outputs is the reference output under that key.\<close>

theorem derive_key_spec:
  assumes "asm_agrees P" "length (cv_stack ctx) = (BLAKE3_MAX_DEPTH + 1) * BLAKE3_OUT_LEN"
    and "len \<le> length context_bytes" "len < 2 ^ 64"
  shows "blake3_hasher_init_derive_key_raw P ctx self context_bytes len =
    hasher_init_base self (load_key_words (blake3_xof IV DERIVE_KEY_CONTEXT (take len context_bytes) 0 32))
      DERIVE_KEY_MATERIAL"
proof -
  have "hasher_run P IV DERIVE_KEY_CONTEXT (take len context_bytes)
      (blake3_hasher_update P (hasher_init_base ctx IV DERIVE_KEY_CONTEXT) context_bytes len)"
    using assms by (intro hasher_run_single) auto
  from blake3_platform.hasher_run_finalize [OF asm_agrees_platform [OF assms(1)] this, of 32 0]
  show ?thesis by (simp add: blake3_hasher_init_derive_key_raw_def blake3_hasher_finalize_def)
qed

theorem derive_key_spec_witness:
  "blake3_hasher_init_derive_key_raw portable_platform blank_hasher blank_hasher [100, 117, 110, 101] 4 =
    hasher_init_base blank_hasher (load_key_words (blake3_xof IV DERIVE_KEY_CONTEXT [100, 117, 110, 101] 0 32))
      DERIVE_KEY_MATERIAL"
  using derive_key_spec [OF portable_platform_agrees, of blank_hasher 4 "[100, 117, 110, 101]" blank_hasher]
  by (simp add: blank_hasher_def)

end
