(* ===== verification/Posix.thy ===== *)
theory Posix
  imports Prelude
begin

text \<open>
  What the C stubs use of the operating system, shared by the component theories: error numbers,
  the results of system calls and the conventions of their wrappers.
\<close>

text \<open>The error numbers the sources name; every other one is \<open>Errno n\<close>.\<close>

datatype errno =
  EINTR | EAGAIN | EACCES | EINVAL | EBADF | EMFILE | ENOENT | ENOMEM | ENOSYS | EXDEV | EOPNOTSUPP | ENOTSUP |
  EIO | ECHILD | ENAMETOOLONG | Errno nat

text \<open>The exceptions the stubs raise in OCaml: \<open>uerror\<close> and \<open>unix_error\<close> carry the error number, the name of
  the call and its argument.\<close>

datatype exn = Unix_error errno string string | Failure string | Invalid_argument string | Out_of_memory

text \<open>\<open>caml_string_is_c_safe\<close>: no NUL character inside.\<close>

definition string_is_c_safe :: "string \<Rightarrow> bool" where
  "string_is_c_safe s \<longleftrightarrow> CHR 0x00 \<notin> set s"

text \<open>\<open>Val_long\<close>: a C long as an OCaml integer keeps its low 63 bits.\<close>

definition Val_long :: "int \<Rightarrow> int" where
  "Val_long n = signed_take_bit 62 n"

lemma Val_long_small: "- (2 ^ 62) \<le> n \<Longrightarrow> n < 2 ^ 62 \<Longrightarrow> Val_long n = n"
  by (simp add: Val_long_def signed_take_bit_int_eq_self)

text \<open>A call repeated while it fails with \<open>EINTR\<close>, answering from a script: \<open>None\<close> says that the script
  has only interruptions, so that the loop has not returned yet.\<close>

fun retry :: "(errno + 'a) list \<Rightarrow> (errno + 'a) option" where
  "retry [] = None"
| "retry (Inr x # rs) = Some (Inr x)"
| "retry (Inl err # rs) = (if err = EINTR then retry rs else Some (Inl err))"

lemma retry_interrupted: "retry (replicate n (Inl EINTR) @ rs) = retry rs"
  by (induction n) auto

lemma retry_never_EINTR: "retry rs \<noteq> Some (Inl EINTR)"
  by (induction rs rule: retry.induct) auto

lemma retry_None_iff: "retry rs = None \<longleftrightarrow> set rs \<subseteq> {Inl EINTR}"
  by (induction rs rule: retry.induct) auto

section \<open>Reading a descriptor into a digest\<close>

text \<open>The loop that the digest stubs share: \<open>read\<close> until the end of the file, passing what arrives to \<open>upd\<close>.
  The answers of \<open>read\<close> are a script. The result is \<open>None\<close> while the loop waits for more answers than
  the script has; otherwise it is an error or the digest state at the end of the file.\<close>

fun fd_loop :: "('s \<Rightarrow> byte list \<Rightarrow> 's) \<Rightarrow> 's \<Rightarrow> (errno + byte list) list \<Rightarrow> ((errno \<times> 's) + 's) option" where
  "fd_loop upd ctx [] = None"
| "fd_loop upd ctx (Inr data # reads) =
     (if length data = 0 then Some (Inr ctx) else fd_loop upd (upd ctx data) reads)"
| "fd_loop upd ctx (Inl err # reads) =
     (if err = EINTR then fd_loop upd ctx reads else Some (Inl (err, ctx)))"

text \<open>The bytes a script delivers before the end of the file or an error, and how it ends.\<close>

fun read_bytes :: "(errno + byte list) list \<Rightarrow> byte list" where
  "read_bytes [] = []"
| "read_bytes (Inr data # reads) = (if data = [] then [] else data @ read_bytes reads)"
| "read_bytes (Inl err # reads) = (if err = EINTR then read_bytes reads else [])"

fun read_end :: "(errno + byte list) list \<Rightarrow> (errno + unit) option" where
  "read_end [] = None"
| "read_end (Inr data # reads) = (if data = [] then Some (Inr ()) else read_end reads)"
| "read_end (Inl err # reads) = (if err = EINTR then read_end reads else Some (Inl err))"

text \<open>What the loop needs of a digest: \<open>holds bs ctx\<close> says that \<open>ctx\<close> has absorbed \<open>bs\<close>, and an update absorbs
  its data as long as the total stays below \<open>cap\<close>.\<close>

locale byte_sink =
  fixes upd :: "'s \<Rightarrow> byte list \<Rightarrow> 's"
    and holds :: "byte list \<Rightarrow> 's \<Rightarrow> bool"
    and cap :: nat
  assumes upd_holds: "holds bs ctx \<Longrightarrow> length bs + length d < cap \<Longrightarrow> holds (bs @ d) (upd ctx d)"
begin

lemma fd_loop_holds:
  "holds bs ctx \<Longrightarrow> length bs + length (read_bytes reads) < cap \<Longrightarrow>
   (case read_end reads of
      None \<Rightarrow> fd_loop upd ctx reads = None
    | Some (Inl err) \<Rightarrow> (\<exists>h. fd_loop upd ctx reads = Some (Inl (err, h)))
    | Some (Inr _) \<Rightarrow> (\<exists>h. fd_loop upd ctx reads = Some (Inr h) \<and> holds (bs @ read_bytes reads) h))"
proof (induction reads arbitrary: ctx bs)
  case (Cons r reads)
  show ?case
  proof (cases r)
    case (Inl err)
    then show ?thesis
      using Cons.IH [of bs ctx] Cons.prems by (auto split: option.splits sum.splits)
  next
    case (Inr data)
    show ?thesis
    proof (cases "data = []")
      case False
      then have "holds (bs @ data) (upd ctx data)"
        using Cons.prems Inr by (intro upd_holds) auto
      from Cons.IH [OF this] Cons.prems(2) Inr False show ?thesis
        by (simp split: option.splits sum.splits)
    qed (use Cons.prems Inr in simp)
  qed
qed simp

end

end
