(* ===== verification/Blake3_Stubs.thy ===== *)
theory Blake3_Stubs
  imports Blake3_Hasher Posix
begin

unbundle bit_operations_syntax

text \<open>
  The OCaml bindings of the hasher, \<open>blake3_stubs.c\<close>: comparing 16-byte digests as two 64-bit
  fields, hashing a file descriptor or a file through \<open>read\<close> calls that may be short or
  interrupted, and the streaming interface with its range checks. An OCaml value that owns a hasher
  is an index of a store of hashers; the system calls answer from a script (theory \<open>Posix\<close>).
\<close>

section \<open>Digests\<close>

definition BLAKE3_MINI_DIGEST_SIZE :: nat where "BLAKE3_MINI_DIGEST_SIZE = 16"

text \<open>\<open>digest_field\<close> reads eight bytes of a digest as a \<open>uint64_t\<close> of the host; \<open>be\<close> says whether the
  host is big-endian.\<close>

definition load64_le :: "byte list \<Rightarrow> u64" where
  "load64_le p = push_bit 0 (ucast (p ! 0)) OR push_bit 8 (ucast (p ! 1)) OR push_bit 16 (ucast (p ! 2)) OR
     push_bit 24 (ucast (p ! 3)) OR push_bit 32 (ucast (p ! 4)) OR push_bit 40 (ucast (p ! 5)) OR
     push_bit 48 (ucast (p ! 6)) OR push_bit 56 (ucast (p ! 7))"

definition load64_be :: "byte list \<Rightarrow> u64" where
  "load64_be p = push_bit 56 (ucast (p ! 0)) OR push_bit 48 (ucast (p ! 1)) OR push_bit 40 (ucast (p ! 2)) OR
     push_bit 32 (ucast (p ! 3)) OR push_bit 24 (ucast (p ! 4)) OR push_bit 16 (ucast (p ! 5)) OR
     push_bit 8 (ucast (p ! 6)) OR push_bit 0 (ucast (p ! 7))"

definition digest_field :: "bool \<Rightarrow> byte list \<Rightarrow> nat \<Rightarrow> u64" where
  "digest_field be digest field =
     (if be then load64_be (drop (field * 8) digest) else load64_le (drop (field * 8) digest))"

definition digest_field_for_compare :: "bool \<Rightarrow> byte list \<Rightarrow> nat \<Rightarrow> u64" where
  "digest_field_for_compare be digest field =
     (let result = digest_field be digest field
      in if be then result
         else let result = push_bit 8 (result AND 0x00ff00ff00ff00ff) OR drop_bit 8 (result AND 0xff00ff00ff00ff00);
                  result = push_bit 16 (result AND 0x0000ffff0000ffff) OR drop_bit 16 (result AND 0xffff0000ffff0000);
                  result = push_bit 32 result OR drop_bit 32 result
              in result)"

definition blake3_mini_digest_equal :: "bool \<Rightarrow> byte list \<Rightarrow> byte list \<Rightarrow> bool" where
  "blake3_mini_digest_equal be left right \<longleftrightarrow>
     digest_field be left 0 = digest_field be right 0 \<and> digest_field be left 1 = digest_field be right 1"

definition blake3_mini_digest_compare :: "bool \<Rightarrow> byte list \<Rightarrow> byte list \<Rightarrow> int" where
  "blake3_mini_digest_compare be left right =
     (let left_field = digest_field_for_compare be left 0;
          right_field = digest_field_for_compare be right 0;
          (left_field, right_field) =
            (if left_field = right_field then (digest_field_for_compare be left 1, digest_field_for_compare be right 1)
             else (left_field, right_field))
      in of_bool (left_field > right_field) - of_bool (left_field < right_field))"

text \<open>\<open>alloc_hash\<close> fills a fresh 16-byte block with the first bytes of the output.\<close>

definition alloc_hash :: "platform \<Rightarrow> blake3_hasher \<Rightarrow> byte list" where
  "alloc_hash P hasher = blake3_hasher_finalize P hasher BLAKE3_MINI_DIGEST_SIZE"

section \<open>Hashing descriptors and files\<close>

text \<open>The loop of \<open>blake3_mini_fd\<close> and of \<open>blake3_mini_file_with_size\<close>.\<close>

definition read_loop :: "platform \<Rightarrow> blake3_hasher \<Rightarrow> (errno + byte list) list \<Rightarrow>
    ((errno \<times> blake3_hasher) + blake3_hasher) option" where
  "read_loop P = fd_loop (\<lambda>hasher buffer. blake3_hasher_update P hasher buffer (length buffer))"

definition blake3_mini_fd :: "platform \<Rightarrow> blake3_hasher \<Rightarrow> (errno + byte list) list \<Rightarrow> (exn + byte list) option" where
  "blake3_mini_fd P mem reads =
     (let hasher = blake3_hasher_init mem
      in map_option (\<lambda>r. case r of
             Inl (err, hasher) \<Rightarrow> Inl (Unix_error err ''read'' [])
           | Inr hasher \<Rightarrow> Inr (alloc_hash P hasher)) (read_loop P hasher reads))"

text \<open>\<open>blake3_mini_file_with_size\<close>. The answers of the four system calls are scripts; the result is
  the exception or the digest with the size, together with the descriptors that were opened and those
  that were closed. \<open>None\<close> means that a loop still waits for an answer.\<close>

record file_calls =
  f_open :: "(errno + int) list"
  f_fstat :: "(errno + int) list"
  f_read :: "(errno + byte list) list"
  f_close :: "errno + unit"

text \<open>The read loop and the error it leaves.\<close>

definition file_read ::
    "platform \<Rightarrow> blake3_hasher \<Rightarrow> (errno + byte list) list \<Rightarrow> ((errno \<times> string) option \<times> blake3_hasher) option" where
  "file_read P hasher reads =
     map_option (\<lambda>r. case r of Inl (e, h) \<Rightarrow> (Some (e, ''read''), h) | Inr h \<Rightarrow> (None, h)) (read_loop P hasher reads)"

definition close_error :: "(errno + unit) \<Rightarrow> (errno \<times> string) option \<Rightarrow> (errno \<times> string) option" where
  "close_error r err =
     (case (r, err) of (Inl e, None) \<Rightarrow> Some (e, ''close'') | _ \<Rightarrow> err)"

text \<open>The code after the label \<open>done\<close>.\<close>

definition file_done :: "platform \<Rightarrow> string \<Rightarrow> (errno \<times> string) option \<Rightarrow> blake3_hasher \<Rightarrow> int \<Rightarrow> exn + byte list \<times> int" where
  "file_done P path err hasher st_size =
     (case err of
        Some (e, err_op) \<Rightarrow> Inl (Unix_error e err_op path)
      | None \<Rightarrow> Inr (alloc_hash P hasher, Val_long st_size))"

definition blake3_mini_file_with_size ::
    "platform \<Rightarrow> bool \<Rightarrow> string \<Rightarrow> blake3_hasher \<Rightarrow> file_calls \<Rightarrow>
     ((exn + byte list \<times> int) \<times> int list \<times> int list) option" where
  "blake3_mini_file_with_size P win32 path mem calls =
     (if win32 then Some (Inl (Failure ''blake3_mini_file_with_size is not implemented on Windows''), [], [])
      else if \<not> string_is_c_safe path then Some (Inl (Unix_error ENOENT ''open'' path), [], [])
      else
        let hasher = blake3_hasher_init mem
        in case retry (f_open calls) of
             None \<Rightarrow> None
           | Some (Inl e) \<Rightarrow> Some (file_done P path (Some (e, ''open'')) hasher 0, [], [])
           | Some (Inr fd) \<Rightarrow>
               (case retry (f_fstat calls) of
                  None \<Rightarrow> None
                | Some (Inl e) \<Rightarrow>
                    Some (file_done P path (close_error (f_close calls) (Some (e, ''fstat''))) hasher 0, [fd], [fd])
                | Some (Inr st_size) \<Rightarrow>
                    map_option (\<lambda>(err, hasher).
                        (file_done P path (close_error (f_close calls) err) hasher st_size, [fd], [fd]))
                      (file_read P hasher (f_read calls))))"

section \<open>Streams\<close>

text \<open>A store of hashers, one for every OCaml value of the abstract type. \<open>create\<close> takes the index of
  the new block and the memory \<open>caml_stat_alloc\<close> returned.\<close>

type_synonym streams = "nat \<rightharpoonup> blake3_hasher"

definition blake3_mini_create :: "streams \<Rightarrow> nat \<Rightarrow> blake3_hasher \<Rightarrow> streams" where
  "blake3_mini_create st t mem = st(t \<mapsto> blake3_hasher_init mem)"

definition blake3_mini_finalize :: "streams \<Rightarrow> nat \<Rightarrow> streams" where
  "blake3_mini_finalize st t = st(t := None)"

definition blake3_mini_reset :: "streams \<Rightarrow> nat \<Rightarrow> streams" where
  "blake3_mini_reset st t = st(t := map_option blake3_hasher_reset (st t))"

definition blake3_mini_digest :: "platform \<Rightarrow> streams \<Rightarrow> nat \<Rightarrow> byte list option" where
  "blake3_mini_digest P st t = map_option (alloc_hash P) (st t)"

text \<open>The range check, on the machine words of the arguments: \<open>False\<close> is \<open>Invalid_argument\<close>.\<close>

definition blake3_mini_check_range :: "64 word \<Rightarrow> 64 word \<Rightarrow> 64 word \<Rightarrow> bool" where
  "blake3_mini_check_range pos len bound \<longleftrightarrow>
     \<not> (sint pos < 0 \<or> sint len < 0 \<or> pos > bound \<or> len > bound - pos)"

definition blake3_mini_feed ::
    "platform \<Rightarrow> streams \<Rightarrow> nat \<Rightarrow> byte list \<Rightarrow> 64 word \<Rightarrow> 64 word \<Rightarrow> exn + streams" where
  "blake3_mini_feed P st t s pos len =
     (if blake3_mini_check_range pos len (of_nat (length s)) then
        Inr (st(t := map_option (\<lambda>hasher. blake3_hasher_update P hasher (drop (unat pos) s) (unat len)) (st t)))
      else Inl (Invalid_argument ''Blake3_mini.feed: invalid range''))"

text \<open>Strings and bigstrings are fed alike; the second releases the runtime lock around the update.\<close>

definition blake3_mini_feed_string where "blake3_mini_feed_string = blake3_mini_feed"
definition blake3_mini_feed_bigstring_unlock where "blake3_mini_feed_bigstring_unlock = blake3_mini_feed"

section \<open>Digest order\<close>

lemma bit_byte_high: "8 \<le> n \<Longrightarrow> \<not> bit (b :: byte) n"
  by (auto dest: bit_imp_le_length)

abbreviation bytes64 :: "byte \<Rightarrow> byte \<Rightarrow> byte \<Rightarrow> byte \<Rightarrow> byte \<Rightarrow> byte \<Rightarrow> byte \<Rightarrow> byte \<Rightarrow> u64" where
  "bytes64 b0 b1 b2 b3 b4 b5 b6 b7 \<equiv>
     push_bit 0 (ucast b0) OR push_bit 8 (ucast b1) OR push_bit 16 (ucast b2) OR push_bit 24 (ucast b3) OR
     push_bit 32 (ucast b4) OR push_bit 40 (ucast b5) OR push_bit 48 (ucast b6) OR push_bit 56 (ucast b7)"

lemma u64_eqI: "(\<And>n. n \<in> set [0..<64] \<Longrightarrow> bit x n = bit y n) \<Longrightarrow> x = (y :: u64)"
  by (rule bit_word_eqI) simp

lemma bswap_step_8:
  "push_bit 8 (bytes64 b0 b1 b2 b3 b4 b5 b6 b7 AND 0x00ff00ff00ff00ff) OR
   drop_bit 8 (bytes64 b0 b1 b2 b3 b4 b5 b6 b7 AND 0xff00ff00ff00ff00) = bytes64 b1 b0 b3 b2 b5 b4 b7 b6"
  by (rule u64_eqI)
    (simp add: upt_rec bit_simps bit_byte_high del: push_bit_or push_bit_and drop_bit_or drop_bit_and,
      elim disjE; simp add: bit_simps bit_byte_high)

lemma bswap_step_16:
  "push_bit 16 (bytes64 b0 b1 b2 b3 b4 b5 b6 b7 AND 0x0000ffff0000ffff) OR
   drop_bit 16 (bytes64 b0 b1 b2 b3 b4 b5 b6 b7 AND 0xffff0000ffff0000) = bytes64 b2 b3 b0 b1 b6 b7 b4 b5"
  by (rule u64_eqI)
    (simp add: upt_rec bit_simps bit_byte_high del: push_bit_or push_bit_and drop_bit_or drop_bit_and,
      elim disjE; simp add: bit_simps bit_byte_high)

lemma bswap_step_32:
  "push_bit 32 (bytes64 b0 b1 b2 b3 b4 b5 b6 b7) OR drop_bit 32 (bytes64 b0 b1 b2 b3 b4 b5 b6 b7) =
   bytes64 b4 b5 b6 b7 b0 b1 b2 b3"
  by (rule u64_eqI)
    (simp add: upt_rec bit_simps bit_byte_high del: push_bit_or push_bit_and drop_bit_or drop_bit_and,
      elim disjE; simp add: bit_simps bit_byte_high)

lemma load64_be_bytes64:
  "load64_be p = bytes64 (p ! 7) (p ! 6) (p ! 5) (p ! 4) (p ! 3) (p ! 2) (p ! 1) (p ! 0)"
  by (simp only: load64_be_def or.commute or.left_commute)

lemma digest_field_for_compare_be:
  "digest_field_for_compare be d f = load64_be (drop (f * 8) d)"
  by (cases be)
    (simp_all only: digest_field_for_compare_def digest_field_def load64_le_def bswap_step_8 bswap_step_16
      bswap_step_32 Let_def if_True if_False simp_thms load64_be_bytes64)

text \<open>The lexicographic order of byte strings of one length, the order of OCaml's \<open>compare\<close> on the
  strings the digests stand for.\<close>

fun lex_compare :: "byte list \<Rightarrow> byte list \<Rightarrow> int" where
  "lex_compare (x # xs) (y # ys) = (if x < y then - 1 else if y < x then 1 else lex_compare xs ys)"
| "lex_compare _ _ = 0"

fun be_value :: "byte list \<Rightarrow> nat" where
  "be_value [] = 0"
| "be_value (x # xs) = unat x * 256 ^ length xs + be_value xs"

lemma unat_byte_less: "unat (x :: byte) < 256"
  using unsigned_less [of x] by simp

lemma be_value_less: "be_value xs < 256 ^ length xs"
proof (induction xs)
  case (Cons x xs)
  have "unat x * 256 ^ length xs + be_value xs < (unat x + 1) * 256 ^ length xs"
    using Cons by simp
  also have "\<dots> \<le> 256 * 256 ^ length xs"
    using unat_byte_less [of x] by (intro mult_right_mono) auto
  finally show ?case by simp
qed simp

lemma be_value_head_less:
  assumes "unat x < unat y" "length xs = length ys"
  shows "be_value (x # xs) < be_value (y # ys)"
proof -
  have "be_value (x # xs) < (unat x + 1) * 256 ^ length xs"
    using be_value_less [of xs] by simp
  also have "\<dots> \<le> unat y * 256 ^ length xs"
    using assms(1) by (intro mult_right_mono) auto
  also have "\<dots> \<le> be_value (y # ys)"
    using assms(2) by simp
  finally show ?thesis .
qed

lemma lex_compare_be_value:
  "length xs = length ys \<Longrightarrow>
   lex_compare xs ys = of_bool (be_value xs > be_value ys) - of_bool (be_value xs < be_value ys)"
proof (induction xs ys rule: lex_compare.induct)
  case (1 x xs y ys)
  then have len: "length xs = length ys" by simp
  show ?case
    using be_value_head_less [of x y xs ys] be_value_head_less [of y x ys xs] 1 len
    by (cases "x < y"; cases "y < x") (auto simp: word_less_nat_alt)
qed auto

lemma lex_compare_append:
  "length a = length c \<Longrightarrow>
   lex_compare (a @ b) (c @ d) = (if lex_compare a c = 0 then lex_compare b d else lex_compare a c)"
  by (induction a c rule: lex_compare.induct) auto

lemma lex_compare_eq_0: "length xs = length ys \<Longrightarrow> lex_compare xs ys = 0 \<longleftrightarrow> xs = ys"
  by (induction xs ys rule: lex_compare.induct) auto

lemma unat_ucast_byte: "unat (ucast (b :: byte) :: u64) = unat b"
  using unat_byte_less [of b] by (simp add: unsigned_ucast_eq take_bit_nat_eq_self)

lemma unat_push_byte:
  assumes "unat (a :: u64) < 2 ^ 56"
  shows "unat (push_bit 8 a OR ucast (b :: byte)) = unat a * 256 + unat b"
proof -
  have "push_bit 8 a OR ucast b = push_bit 8 a + ucast b"
    by (rule disjunctive_add [symmetric]) (auto simp: bit_simps bit_byte_high)
  moreover have "unat (push_bit 8 a) = unat a * 256"
    using assms by (simp add: push_bit_eq_mult unat_word_ariths)
  moreover have "unat (ucast b :: u64) = unat b"
    by (rule unat_ucast_byte)
  ultimately show ?thesis
    using assms unat_byte_less [of b] by (simp add: unat_word_ariths)
qed

lemma load64_be_horner:
  "load64_be p = foldl (\<lambda>a b. push_bit 8 a OR ucast b) (ucast (p ! 0)) [p ! 1, p ! 2, p ! 3, p ! 4, p ! 5, p ! 6, p ! 7]"
  by (simp add: load64_be_def push_bit_or push_bit_push_bit or.assoc)

lemma unat_foldl_bytes:
  "unat a < 256 ^ k \<Longrightarrow> k + length bs \<le> 8 \<Longrightarrow>
   unat (foldl (\<lambda>a b. push_bit 8 a OR ucast (b :: byte)) (a :: u64) bs) = unat a * 256 ^ length bs + be_value bs"
proof (induction bs arbitrary: a k)
  case (Cons b bs)
  have "(256 :: nat) ^ k \<le> 256 ^ 7"
    using Cons.prems(2) by (intro power_increasing) auto
  then have u: "unat (push_bit 8 a OR ucast b) = unat a * 256 + unat b"
    using Cons.prems(1) by (intro unat_push_byte) simp
  moreover have "unat a * 256 + unat b < 256 ^ Suc k"
    using Cons.prems(1) unat_byte_less [of b] by simp
  ultimately show ?case
    using Cons.IH [of "push_bit 8 a OR ucast b" "Suc k"] Cons.prems(2)
    by (simp add: algebra_simps)
qed simp

lemma unat_load64_be:
  assumes "8 \<le> length p"
  shows "unat (load64_be p) = be_value (take 8 p)"
proof -
  have "take 8 p = [p ! 0, p ! 1, p ! 2, p ! 3, p ! 4, p ! 5, p ! 6, p ! 7]"
    using nths_explicit_8 [of "take 8 p"] assms by simp
  moreover have "unat (ucast (p ! 0) :: u64) = unat (p ! 0)"
    by (rule unat_ucast_byte)
  ultimately show ?thesis
    unfolding load64_be_horner
    using unat_foldl_bytes [of "ucast (p ! 0)" 1 "[p ! 1, p ! 2, p ! 3, p ! 4, p ! 5, p ! 6, p ! 7]"]
      unat_byte_less [of "p ! 0"] by simp
qed

lemma load64_be_compare:
  assumes "8 \<le> length p" "8 \<le> length q"
  shows "of_bool (load64_be p > load64_be q) - of_bool (load64_be p < load64_be q) =
    lex_compare (take 8 p) (take 8 q)"
  using assms by (simp add: lex_compare_be_value word_less_nat_alt unat_load64_be)

lemma load64_be_eq_iff:
  assumes "8 \<le> length p" "8 \<le> length q"
  shows "load64_be p = load64_be q \<longleftrightarrow> take 8 p = take 8 q"
proof -
  have "load64_be p = load64_be q \<longleftrightarrow> lex_compare (take 8 p) (take 8 q) = 0"
    using load64_be_compare [OF assms, symmetric] by (cases "load64_be p" "load64_be q" rule: linorder_cases) auto
  then show ?thesis
    using assms by (simp add: lex_compare_eq_0)
qed

lemma load64_le_rev: "length p = 8 \<Longrightarrow> load64_le p = load64_be (rev p)"
  by (simp add: load64_le_def load64_be_bytes64 rev_nth)

lemma load64_le_take: "8 \<le> length p \<Longrightarrow> load64_le (take 8 p) = load64_le p"
  by (simp add: load64_le_def)

lemma digest_field_eq_iff:
  assumes "f * 8 + 8 \<le> length d" "f * 8 + 8 \<le> length d'"
  shows "digest_field be d f = digest_field be d' f \<longleftrightarrow> take 8 (drop (f * 8) d) = take 8 (drop (f * 8) d')"
proof (cases be)
  case True
  then show ?thesis
    using assms by (simp add: digest_field_def load64_be_eq_iff)
next
  case False
  have "load64_le (drop (f * 8) e) = load64_be (rev (take 8 (drop (f * 8) e)))" if "f * 8 + 8 \<le> length e" for e
    using that load64_le_rev [of "take 8 (drop (f * 8) e)"] by (simp add: load64_le_take)
  then show ?thesis
    using False assms by (simp add: digest_field_def load64_be_eq_iff)
qed

lemma digest_eq_halves: "d = d' \<longleftrightarrow> take 8 d = take 8 d' \<and> drop 8 d = drop 8 d'"
  by (metis append_take_drop_id)

lemma digest_halves: "length d = 16 \<Longrightarrow> d = take 8 d @ take 8 (drop 8 d)"
  by (metis append_take_drop_id diff_le_self length_drop numeral_Bit0 add_diff_cancel_right' order_refl take_all)

text \<open>C26. On either byte order, equality of two 16-byte digests is equality of their bytes, and
  the comparison function is the lexicographic comparison of the bytes: the mask-and-shift byte swap
  of the two 64-bit fields makes the integer order the order of the strings, and the result is 0
  exactly for equal digests.\<close>

theorem digest_order:
  assumes "length d = BLAKE3_MINI_DIGEST_SIZE" "length d' = BLAKE3_MINI_DIGEST_SIZE"
  shows "(blake3_mini_digest_equal be d d' \<longleftrightarrow> d = d') \<and>
    blake3_mini_digest_compare be d d' = lex_compare d d' \<and>
    (blake3_mini_digest_compare be d d' = 0 \<longleftrightarrow> blake3_mini_digest_equal be d d')"
proof -
  have len: "length d = 16" "length d' = 16"
    using assms by (simp_all add: BLAKE3_MINI_DIGEST_SIZE_def)
  have eq: "blake3_mini_digest_equal be d d' \<longleftrightarrow> d = d'"
    using len by (simp add: blake3_mini_digest_equal_def digest_field_eq_iff digest_eq_halves [of d d'])
  have "blake3_mini_digest_compare be d d' = lex_compare (take 8 d @ take 8 (drop 8 d)) (take 8 d' @ take 8 (drop 8 d'))"
    using len by (simp add: blake3_mini_digest_compare_def digest_field_for_compare_be Let_def
        load64_be_compare load64_be_eq_iff lex_compare_append lex_compare_eq_0 del: append_take_drop_id)
  then have "blake3_mini_digest_compare be d d' = lex_compare d d'"
    by (simp only: digest_halves [OF len(1), symmetric] digest_halves [OF len(2), symmetric])
  with eq len show ?thesis
    by (simp add: lex_compare_eq_0)
qed

theorem digest_order_witness:
  "blake3_mini_digest_compare False (1 # replicate 15 0) (0 # replicate 15 7) = 1"
  using digest_order [of "1 # replicate 15 0" "0 # replicate 15 7" False]
  by (simp add: BLAKE3_MINI_DIGEST_SIZE_def)


section \<open>Reading descriptors and files\<close>

text \<open>The hasher absorbs the bytes it is fed, so that the shared read loop computes its state.\<close>

interpretation blake3: byte_sink "\<lambda>hasher buffer. blake3_hasher_update P hasher buffer (length buffer)"
    "hasher_run P key flags" "2 ^ 64" for P key flags
proof
  fix bs ctx and d :: "byte list"
  assume "hasher_run P key flags bs ctx" "length bs + length d < 2 ^ 64"
  then have "hasher_run P key flags (bs @ take (length d) d) (blake3_hasher_update P ctx d (length d))"
    by (intro hasher_run.update) auto
  then show "hasher_run P key flags (bs @ d) (blake3_hasher_update P ctx d (length d))"
    by simp
qed

lemmas read_loop_run = blake3.fd_loop_holds [folded read_loop_def]

lemma hasher_run_start: "length (cv_stack mem) = 1760 \<Longrightarrow> hasher_run P IV 0 [] (blake3_hasher_init mem)"
  by (simp add: blake3_hasher_init_def hasher_run.init)

lemma alloc_hash_run:
  assumes "asm_agrees P" "hasher_run P IV 0 bs h"
  shows "alloc_hash P h = blake3_xof IV 0 bs 0 16"
  using blake3_platform.hasher_run_finalize [OF asm_agrees_platform [OF assms(1)] assms(2), of 16 0]
  by (simp add: alloc_hash_def BLAKE3_MINI_DIGEST_SIZE_def blake3_hasher_finalize_def)

text \<open>C24. Hashing a descriptor returns the first 16 bytes of BLAKE3 of everything \<open>read\<close> delivered
  before the end of the file, however the data was cut into short reads and however often the call was
  interrupted; the first error other than \<open>EINTR\<close> is raised as \<open>Unix_error (e, "read", "")\<close>, and the loop
  waits only while the script has neither.\<close>

theorem fd_digest_spec:
  assumes "asm_agrees P" "length (cv_stack mem) = 1760" "length (read_bytes reads) < 2 ^ 64"
  shows "blake3_mini_fd P mem reads =
    (case read_end reads of
       None \<Rightarrow> None
     | Some (Inl err) \<Rightarrow> Some (Inl (Unix_error err ''read'' []))
     | Some (Inr _) \<Rightarrow> Some (Inr (blake3_xof IV 0 (read_bytes reads) 0 16)))"
  using read_loop_run [OF hasher_run_start [OF assms(2)], of reads P] assms(3)
  by (auto simp: blake3_mini_fd_def Let_def alloc_hash_run [OF assms(1)] split: option.split_asm sum.split_asm)

theorem fd_digest_spec_witness:
  "blake3_mini_fd portable_platform blank_hasher [Inl EINTR, Inr [1, 2], Inl EINTR, Inr [3], Inr []] =
    Some (Inr (blake3_xof IV 0 [1, 2, 3] 0 16))"
  using fd_digest_spec [of portable_platform blank_hasher "[Inl EINTR, Inr [1, 2], Inl EINTR, Inr [3], Inr []]"]
  by (simp add: portable_platform_agrees blank_hasher_def)

text \<open>C25. Hashing a file that could be opened: the answer is the digest of the bytes read together with
  the size \<open>fstat\<close> reported, unless a call failed; an error of \<open>fstat\<close> or \<open>read\<close> takes precedence over one
  of \<open>close\<close>, the exception names the call and the path, and on every path the descriptor that was opened
  is closed exactly once.\<close>

theorem file_with_size_spec:
  assumes "asm_agrees P" "length (cv_stack mem) = 1760" "length (read_bytes (f_read calls)) < 2 ^ 64"
    "string_is_c_safe path" "retry (f_open calls) = Some (Inr fd)"
    "retry (f_fstat calls) = Some st" "read_end (f_read calls) = Some rd"
  shows "blake3_mini_file_with_size P False path mem calls =
    Some (case (st, rd, f_close calls) of
        (Inl e, _, _) \<Rightarrow> Inl (Unix_error e ''fstat'' path)
      | (Inr _, Inl e, _) \<Rightarrow> Inl (Unix_error e ''read'' path)
      | (Inr _, Inr _, Inl e) \<Rightarrow> Inl (Unix_error e ''close'' path)
      | (Inr st_size, Inr _, Inr _) \<Rightarrow> Inr (blake3_xof IV 0 (read_bytes (f_read calls)) 0 16, Val_long st_size),
      [fd], [fd])"
  using read_loop_run [OF hasher_run_start [OF assms(2)], of "f_read calls" P] assms(3-)
  by (cases st; cases rd; cases "f_close calls") (auto simp: blake3_mini_file_with_size_def Let_def file_read_def file_done_def close_error_def
      alloc_hash_run [OF assms(1)])

theorem file_with_size_spec_witness:
  "blake3_mini_file_with_size portable_platform False ''a'' blank_hasher
     \<lparr>f_open = [Inl EINTR, Inr 3], f_fstat = [Inr 2], f_read = [Inr [1, 2], Inr []], f_close = Inr ()\<rparr> =
   Some (Inr (blake3_xof IV 0 [1, 2] 0 16, 2), [3], [3])"
  using file_with_size_spec [of portable_platform blank_hasher
      "\<lparr>f_open = [Inl EINTR, Inr 3], f_fstat = [Inr 2], f_read = [Inr [1, 2], Inr []], f_close = Inr ()\<rparr>" "''a''" 3 "Inr 2" "Inr ()"]
  by (simp add: portable_platform_agrees blank_hasher_def string_is_c_safe_def Val_long_small)

section \<open>Streams refine byte strings\<close>

lemma check_range_iff:
  "blake3_mini_check_range pos len bound \<longleftrightarrow> 0 \<le> sint pos \<and> 0 \<le> sint len \<and> unat pos + unat len \<le> unat bound"
  by (auto simp: blake3_mini_check_range_def word_le_nat_alt not_less unat_sub)

lemma sint_nonneg_uint: "0 \<le> sint (w :: 64 word) \<Longrightarrow> sint w = uint w"
  using sint_lt [of w] uint_sint [of w] by (simp add: take_bit_int_eq_self)

text \<open>C27. The range check of the feed functions accepts a range exactly when position and length are
  not negative and their sum, taken without wrap-around, is at most the size of the buffer.\<close>

theorem check_range_exact:
  "blake3_mini_check_range pos len bound \<longleftrightarrow> 0 \<le> sint pos \<and> 0 \<le> sint len \<and> sint pos + sint len \<le> uint bound"
proof -
  have "unat pos + unat len \<le> unat bound \<longleftrightarrow> sint pos + sint len \<le> uint bound" if "0 \<le> sint pos" "0 \<le> sint len"
    using that [THEN sint_nonneg_uint] by (simp only: nat_int_comparison of_nat_add of_nat_unat)
  then show ?thesis
    by (auto simp: check_range_iff)
qed

text \<open>The operations on a store of streams, and the same operations on the byte strings fed so far.\<close>

datatype stream_op =
  Create nat blake3_hasher
| Finalize nat
| Reset nat
| Feed nat "byte list" "64 word" "64 word"

fun stream_step :: "platform \<Rightarrow> streams \<Rightarrow> stream_op \<Rightarrow> exn + streams" where
  "stream_step P st (Create t mem) = Inr (blake3_mini_create st t mem)"
| "stream_step P st (Finalize t) = Inr (blake3_mini_finalize st t)"
| "stream_step P st (Reset t) = Inr (blake3_mini_reset st t)"
| "stream_step P st (Feed t s pos len) = blake3_mini_feed P st t s pos len"

fun abs_step :: "(nat \<rightharpoonup> byte list) \<Rightarrow> stream_op \<Rightarrow> exn + (nat \<rightharpoonup> byte list)" where
  "abs_step m (Create t mem) = Inr (m(t \<mapsto> []))"
| "abs_step m (Finalize t) = Inr (m(t := None))"
| "abs_step m (Reset t) = Inr (m(t := map_option (\<lambda>_. []) (m t)))"
| "abs_step m (Feed t s pos len) =
     (if 0 \<le> sint pos \<and> 0 \<le> sint len \<and> unat pos + unat len \<le> length s
      then Inr (m(t := map_option (\<lambda>bs. bs @ take (unat len) (drop (unat pos) s)) (m t)))
      else Inl (Invalid_argument ''Blake3_mini.feed: invalid range''))"

text \<open>What the step relies on: fresh memory has the size of the stack array, and neither a buffer nor a
  stream exceeds the 64-bit counters.\<close>

fun stream_op_ok :: "(nat \<rightharpoonup> byte list) \<Rightarrow> stream_op \<Rightarrow> bool" where
  "stream_op_ok m (Create t mem) \<longleftrightarrow> length (cv_stack mem) = 1760"
| "stream_op_ok m (Feed t s pos len) \<longleftrightarrow>
     (case m t of None \<Rightarrow> length s < 2 ^ 64 | Some bs \<Rightarrow> length bs + length s < 2 ^ 64)"
| "stream_op_ok m _ \<longleftrightarrow> True"

definition streams_rep :: "platform \<Rightarrow> streams \<Rightarrow> (nat \<rightharpoonup> byte list) \<Rightarrow> bool" where
  "streams_rep P st m \<longleftrightarrow> (\<forall>t. rel_option (\<lambda>h bs. hasher_run P IV 0 bs h) (st t) (m t))"

lemma streams_rep_upd:
  "streams_rep P st m \<Longrightarrow> rel_option (\<lambda>h bs. hasher_run P IV 0 bs h) x y \<Longrightarrow> streams_rep P (st(t := x)) (m(t := y))"
  by (simp add: streams_rep_def)

lemma streams_rep_cases [consumes 1, case_names None Some]:
  assumes "streams_rep P st m"
  obtains (None) "st t = None" "m t = None" | (Some) h bs where "st t = Some h" "m t = Some bs" "hasher_run P IV 0 bs h"
  using assms unfolding streams_rep_def by (metis option.rel_cases)

lemma feed_rep:
  assumes "streams_rep P st m" "stream_op_ok m (Feed t s pos len)"
  shows "rel_sum (=) (streams_rep P) (blake3_mini_feed P st t s pos len) (abs_step m (Feed t s pos len))"
  using assms(1)
proof (cases rule: streams_rep_cases [of _ _ _ t])
  case None
  then show ?thesis
    using assms by (auto simp: blake3_mini_feed_def check_range_iff unat_of_nat take_bit_nat_eq_self intro!: streams_rep_upd)
next
  case (Some h bs)
  have "hasher_run P IV 0 (bs @ take (unat len) (drop (unat pos) s))
      (blake3_hasher_update P h (drop (unat pos) s) (unat len))" if "unat pos + unat len \<le> length s"
    using Some assms(2) that by (intro hasher_run.update) auto
  then show ?thesis
    using assms Some
    by (auto simp: blake3_mini_feed_def check_range_iff unat_of_nat take_bit_nat_eq_self intro!: streams_rep_upd)
qed

text \<open>C8. The streaming interface refines byte strings: if every live stream holds the bytes fed to it,
  each operation does to the store what it does to the byte strings, touches no other stream, raises
  \<open>Invalid_argument\<close> for the same ranges without changing the store, and the digest of a stream is the
  first 16 bytes of BLAKE3 of its string.\<close>

theorem streams_refine:
  assumes "asm_agrees P" "streams_rep P st m" "stream_op_ok m op"
  shows "rel_sum (=) (streams_rep P) (stream_step P st op) (abs_step m op) \<and>
    blake3_mini_digest P st t = map_option (\<lambda>bs. blake3_xof IV 0 bs 0 16) (m t)"
proof
  show "rel_sum (=) (streams_rep P) (stream_step P st op) (abs_step m op)"
  proof (cases op)
    case (Reset t)
    show ?thesis
      using assms(2) by (cases rule: streams_rep_cases [of _ _ _ t])
        (auto simp: Reset blake3_mini_reset_def intro!: assms(2) streams_rep_upd hasher_run.reset)
  qed (use assms feed_rep in \<open>auto simp: blake3_mini_create_def blake3_mini_finalize_def
      intro!: streams_rep_upd hasher_run_start\<close>)
  show "blake3_mini_digest P st t = map_option (\<lambda>bs. blake3_xof IV 0 bs 0 16) (m t)"
    using assms(2) by (cases rule: streams_rep_cases [of _ _ _ t])
      (auto simp: blake3_mini_digest_def alloc_hash_run [OF assms(1)])
qed

theorem streams_refine_witness:
  "rel_sum (=) (streams_rep portable_platform)
     (stream_step portable_platform (Map.empty(0 \<mapsto> blake3_hasher_init blank_hasher)) (Feed 0 [1, 2, 3] 1 2))
     (Inr (Map.empty(0 \<mapsto> [2, 3])))"
proof -
  have "streams_rep portable_platform (Map.empty(0 \<mapsto> blake3_hasher_init blank_hasher)) (Map.empty(0 \<mapsto> []))"
    by (simp add: streams_rep_def hasher_run_start blank_hasher_def)
  from streams_refine [OF portable_platform_agrees this, of "Feed 0 [1, 2, 3] 1 2"] show ?thesis
    by simp
qed

end
