(* ===== verification/Spawn_Fds.thy ===== *)
theory Spawn_Fds
  imports Posix
begin

text \<open>
  File descriptor tables, as the process spawning stubs use them. A table maps descriptors to open
  file descriptions with the close-on-exec flag; \<open>dup\<close>, \<open>dup2\<close>, \<open>close\<close>, \<open>pipe\<close> and the effect of
  \<open>execve\<close> are the POSIX ones, the limit on the number of descriptors included. On top of them stand
  \<open>safe_pipe\<close>, \<open>dune_spawn_pipe\<close> and \<open>safe_dup\<close> of \<open>spawn_stubs.c\<close>.
\<close>

section \<open>POSIX descriptors\<close>

record fd_entry =
  ofile :: nat
  cloexec :: bool

type_synonym fd_table = "int \<rightharpoonup> fd_entry"

definition lowest_free :: "nat \<Rightarrow> nat \<Rightarrow> fd_table \<Rightarrow> int option" where
  "lowest_free k lim t = find (\<lambda>fd. t fd = None) (map int [k..<lim])"

text \<open>\<open>dupfd k\<close> is \<open>fcntl (fd, F_DUPFD, k)\<close>: the lowest free descriptor that is at least \<open>k\<close>.
  \<open>dup\<close> is the case \<open>k = 0\<close>.\<close>

definition dupfd :: "nat \<Rightarrow> nat \<Rightarrow> fd_table \<Rightarrow> int \<Rightarrow> (errno + int) \<times> fd_table" where
  "dupfd k lim t fd =
     (case t fd of
        None \<Rightarrow> (Inl EBADF, t)
      | Some e \<Rightarrow>
          (case lowest_free k lim t of
             None \<Rightarrow> (Inl EMFILE, t)
           | Some n \<Rightarrow> (Inr n, t(n \<mapsto> e\<lparr>cloexec := False\<rparr>))))"

definition sys_dup :: "nat \<Rightarrow> fd_table \<Rightarrow> int \<Rightarrow> (errno + int) \<times> fd_table" where
  "sys_dup lim t fd = dupfd 0 lim t fd"

definition sys_dup2 :: "nat \<Rightarrow> fd_table \<Rightarrow> int \<Rightarrow> int \<Rightarrow> (errno + int) \<times> fd_table" where
  "sys_dup2 lim t old new =
     (case t old of
        None \<Rightarrow> (Inl EBADF, t)
      | Some e \<Rightarrow>
          if new < 0 \<or> int lim \<le> new then (Inl EBADF, t)
          else if old = new then (Inr new, t)
          else (Inr new, t(new \<mapsto> e\<lparr>cloexec := False\<rparr>)))"

definition sys_close :: "fd_table \<Rightarrow> int \<Rightarrow> fd_table" where
  "sys_close t fd = t(fd := None)"

text \<open>\<open>pipe\<close> and \<open>pipe2\<close> install the read end and the write end, two new open file descriptions, in the
  lowest free descriptors.\<close>

definition sys_pipe :: "nat \<Rightarrow> bool \<Rightarrow> nat \<times> nat \<Rightarrow> fd_table \<Rightarrow> (errno + int \<times> int) \<times> fd_table" where
  "sys_pipe lim ce ends t =
     (case lowest_free 0 lim t of
        None \<Rightarrow> (Inl EMFILE, t)
      | Some r \<Rightarrow>
          let t' = t(r \<mapsto> \<lparr>ofile = fst ends, cloexec = ce\<rparr>)
          in case lowest_free 0 lim t' of
               None \<Rightarrow> (Inl EMFILE, t)
             | Some w \<Rightarrow> (Inr (r, w), t'(w \<mapsto> \<lparr>ofile = snd ends, cloexec = ce\<rparr>)))"

definition exec_fds :: "fd_table \<Rightarrow> fd_table" where
  "exec_fds t = (\<lambda>fd. case t fd of Some e \<Rightarrow> (if cloexec e then None else Some e) | None \<Rightarrow> None)"

section \<open>Pipes\<close>

text \<open>\<open>safe_pipe\<close> where \<open>pipe2\<close> is missing (macOS, Haiku): \<open>getfd\<close> and \<open>setfd\<close> are the errors the two \<open>fcntl\<close>
  calls may answer with for a descriptor, and the loop stops at the first one, closing both ends.\<close>

definition safe_pipe_set ::
    "(int \<Rightarrow> errno option) \<Rightarrow> (int \<Rightarrow> errno option) \<Rightarrow> fd_table \<Rightarrow> int \<Rightarrow> errno + fd_table" where
  "safe_pipe_set getfd setfd t fd =
     (case getfd fd of
        Some err \<Rightarrow> Inl err
      | None \<Rightarrow>
          (case setfd fd of
             Some err \<Rightarrow> Inl err
           | None \<Rightarrow> Inr (t(fd := map_option (\<lambda>e. e\<lparr>cloexec := True\<rparr>) (t fd)))))"

definition safe_pipe_fcntl ::
    "nat \<Rightarrow> (int \<Rightarrow> errno option) \<Rightarrow> (int \<Rightarrow> errno option) \<Rightarrow> nat \<times> nat \<Rightarrow> fd_table \<Rightarrow>
     (errno + int \<times> int) \<times> fd_table" where
  "safe_pipe_fcntl lim getfd setfd ends t =
     (case sys_pipe lim False ends t of
        (Inl err, t) \<Rightarrow> (Inl err, t)
      | (Inr (r, w), t) \<Rightarrow>
          (case safe_pipe_set getfd setfd t r of
             Inl err \<Rightarrow> (Inl err, sys_close (sys_close t r) w)
           | Inr t \<Rightarrow>
               (case safe_pipe_set getfd setfd t w of
                  Inl err \<Rightarrow> (Inl err, sys_close (sys_close t r) w)
                | Inr t \<Rightarrow> (Inr (r, w), t))))"

text \<open>\<open>safe_pipe\<close> where \<open>pipe2\<close> exists.\<close>

definition safe_pipe :: "nat \<Rightarrow> nat \<times> nat \<Rightarrow> fd_table \<Rightarrow> (errno + int \<times> int) \<times> fd_table" where
  "safe_pipe lim ends t = sys_pipe lim True ends t"

definition dune_spawn_pipe_fcntl where
  "dune_spawn_pipe_fcntl lim getfd setfd ends t =
     (case safe_pipe_fcntl lim getfd setfd ends t of
        (Inl err, t) \<Rightarrow> (Inl (Unix_error err ''pipe'' []), t)
      | (Inr fd, t) \<Rightarrow> (Inr fd, t))"

definition dune_spawn_pipe :: "nat \<Rightarrow> nat \<times> nat \<Rightarrow> fd_table \<Rightarrow> (exn + int \<times> int) \<times> fd_table" where
  "dune_spawn_pipe lim ends t =
     (case safe_pipe lim ends t of
        (Inl err, t) \<Rightarrow> (Inl (Unix_error err ''safe_pipe'' []), t)
      | (Inr fd, t) \<Rightarrow> (Inr fd, t))"

text \<open>On Windows the operation is missing.\<close>

definition dune_spawn_pipe_windows :: "exn + int \<times> int" where
  "dune_spawn_pipe_windows = Inl (Unix_error ENOSYS ''spawn_pipe'' [])"

section \<open>Duplicating above the standard descriptors\<close>

lemma lowest_free_Some_iff:
  "lowest_free k lim t = Some n \<longleftrightarrow>
     t n = None \<and> int k \<le> n \<and> n < int lim \<and> (\<forall>i. int k \<le> i \<and> i < n \<longrightarrow> t i \<noteq> None)"
proof
  assume "lowest_free k lim t = Some n"
  then obtain j where j: "j < lim - k" "t (int (k + j)) = None" "n = int (k + j)" "\<And>i. i < j \<Longrightarrow> t (int (k + i)) \<noteq> None"
    by (auto simp: lowest_free_def find_Some_iff)
  have "t i \<noteq> None" if "int k \<le> i" "i < n" for i
    using j(4) [of "nat i - k"] that j(3) by simp
  with j show "t n = None \<and> int k \<le> n \<and> n < int lim \<and> (\<forall>i. int k \<le> i \<and> i < n \<longrightarrow> t i \<noteq> None)"
    by auto
next
  assume n: "t n = None \<and> int k \<le> n \<and> n < int lim \<and> (\<forall>i. int k \<le> i \<and> i < n \<longrightarrow> t i \<noteq> None)"
  then show "lowest_free k lim t = Some n"
    by (auto simp: lowest_free_def find_Some_iff intro!: exI [of _ "nat n - k"])
qed

lemma lowest_free_None_iff: "lowest_free k lim t = None \<longleftrightarrow> (\<forall>i. int k \<le> i \<and> i < int lim \<longrightarrow> t i \<noteq> None)"
proof
  assume none: "lowest_free k lim t = None"
  show "\<forall>i. int k \<le> i \<and> i < int lim \<longrightarrow> t i \<noteq> None"
  proof (intro allI impI)
    fix i assume i: "int k \<le> i \<and> i < int lim"
    then obtain m where m: "i = int m"
      by (metis nonneg_int_cases of_nat_0_le_iff order_trans)
    show "t i \<noteq> None"
      using none i by (simp add: m lowest_free_def find_None_iff)
  qed
qed (auto simp: lowest_free_def find_None_iff)

lemmas lowest_free_SomeD = lowest_free_Some_iff [THEN iffD1]

lemma lowest_free_upd_below: "n < int k \<Longrightarrow> lowest_free k lim (t(n \<mapsto> e)) = lowest_free k lim t"
  unfolding lowest_free_def by (rule find_cong) auto

text \<open>\<open>safe_dup\<close>: the recursion ends because every round fills one of the descriptors 0, 1 and 2.\<close>

function (sequential) safe_dup :: "nat \<Rightarrow> fd_table \<Rightarrow> int \<Rightarrow> (errno + int) \<times> fd_table" where
  "safe_dup lim t fd =
     (case sys_dup lim t fd of
        (Inl err, t') \<Rightarrow> (Inl err, t')
      | (Inr new_fd, t') \<Rightarrow>
          if 3 \<le> new_fd then (Inr new_fd, t')
          else let (result, t'') = safe_dup lim t' fd in (result, sys_close t'' new_fd))"
  by pat_completeness auto

definition std_free :: "fd_table \<Rightarrow> int set" where
  "std_free t = {n \<in> {0, 1, 2}. t n = None}"

lemma std_free_psubset:
  assumes "sys_dup lim t fd = (Inr n, t')" "\<not> 3 \<le> n"
  shows "std_free t' \<subset> std_free t"
proof -
  obtain e where e: "lowest_free 0 lim t = Some n" "t' = t(n \<mapsto> e)"
    using assms(1) by (auto simp: sys_dup_def dupfd_def split: option.splits)
  have "n \<in> {0, 1, 2}" "t n = None"
    using lowest_free_SomeD [OF e(1)] assms(2) by auto
  then show ?thesis
    by (auto simp: std_free_def e(2))
qed

termination safe_dup
proof (relation "measure (\<lambda>(lim, t, fd). card (std_free t))")
  fix lim t fd x y result t' new_fd
  assume "(x, t') = sys_dup lim t fd" "x = Inr new_fd" "\<not> 3 \<le> new_fd"
  then have "std_free t' \<subset> std_free t"
    by (intro std_free_psubset [of lim t fd new_fd]) auto
  moreover have "finite (std_free t)"
    by (simp add: std_free_def)
  ultimately show "((lim, t', fd), (lim, t, fd)) \<in> measure (\<lambda>(lim, t, fd). card (std_free t))"
    by (simp add: psubset_card_mono)
qed simp

declare safe_dup.simps [simp del]

lemma dupfd_cong_below:
  assumes "t n = None" "n < int k" "t fd = Some e"
  shows "(case dupfd k lim (t(n \<mapsto> e')) fd of (r, t') \<Rightarrow> (r, t'(n := None))) = dupfd k lim t fd"
  using assms lowest_free_SomeD [of k lim t]
  by (auto simp: dupfd_def lowest_free_upd_below fun_upd_twist split: option.splits)

lemma safe_dup_dupfd: "safe_dup lim t fd = dupfd 3 lim t fd"
proof (induction lim t fd rule: safe_dup.induct)
  case (1 lim t fd)
  show ?case
  proof (cases "t fd")
    case None
    then show ?thesis
      by (subst safe_dup.simps) (simp add: sys_dup_def dupfd_def)
  next
    case (Some e)
    show ?thesis
    proof (cases "lowest_free 0 lim t")
      case None
      then have "lowest_free 3 lim t = None"
        using None by (auto simp: lowest_free_None_iff)
      then show ?thesis
        using None Some by (subst safe_dup.simps) (simp add: sys_dup_def dupfd_def)
    next
      case n: (Some n)
      let ?t = "t(n \<mapsto> e\<lparr>cloexec := False\<rparr>)"
      have d: "sys_dup lim t fd = (Inr n, ?t)"
        using Some n by (simp add: sys_dup_def dupfd_def)
      show ?thesis
      proof (cases "3 \<le> n")
        case True
        then have "lowest_free 3 lim t = Some n"
          using n by (auto simp: lowest_free_Some_iff)
        with True Some show ?thesis
          by (subst safe_dup.simps) (simp add: d dupfd_def)
      next
        case False
        have "safe_dup lim t fd = (case dupfd 3 lim ?t fd of (r, t') \<Rightarrow> (r, t'(n := None)))"
          using 1 [OF d [symmetric] refl False] False
          by (subst safe_dup.simps) (simp add: d sys_close_def del: fun_upd_apply)
        then show ?thesis
          using dupfd_cong_below [of t n 3 fd e lim] False Some lowest_free_SomeD [OF n] by simp
      qed
    qed
  qed
qed

lemma dupfd_Inr:
  assumes "dupfd k lim t fd = (Inr n, t')"
  obtains e where "t fd = Some e" "t n = None" "int k \<le> n" "n < int lim" "t' = t(n \<mapsto> e\<lparr>cloexec := False\<rparr>)"
  using assms by (auto simp: dupfd_def lowest_free_Some_iff split: option.splits)

lemma dupfd_Inl: "dupfd k lim t fd = (Inl err, t') \<Longrightarrow> t' = t"
  by (auto simp: dupfd_def split: option.splits)

text \<open>C29. \<open>safe_dup\<close> ends and is \<open>fcntl (fd, F_DUPFD, 3)\<close>: it answers the lowest free descriptor above
  the standard ones, or the error with the table unchanged; the low descriptors it takes on the way are
  all closed again.\<close>

theorem safe_dup_spec:
  "safe_dup lim t fd = dupfd 3 lim t fd \<and>
   (case safe_dup lim t fd of
      (Inl err, t') \<Rightarrow> t' = t \<and> (err = EBADF \<and> t fd = None \<or> err = EMFILE \<and> (\<forall>n. 3 \<le> n \<and> n < int lim \<longrightarrow> t n \<noteq> None))
    | (Inr n, t') \<Rightarrow> 3 \<le> n \<and> n < int lim \<and> t n = None \<and> t' n = map_option (cloexec_update (\<lambda>_. False)) (t fd) \<and>
        (\<forall>m. m \<noteq> n \<longrightarrow> t' m = t m))"
proof -
  have "case dupfd 3 lim t fd of
      (Inl err, t') \<Rightarrow> t' = t \<and> (err = EBADF \<and> t fd = None \<or> err = EMFILE \<and> (\<forall>n. 3 \<le> n \<and> n < int lim \<longrightarrow> t n \<noteq> None))
    | (Inr n, t') \<Rightarrow> 3 \<le> n \<and> n < int lim \<and> t n = None \<and> t' n = map_option (cloexec_update (\<lambda>_. False)) (t fd) \<and>
        (\<forall>m. m \<noteq> n \<longrightarrow> t' m = t m)"
    by (auto simp: dupfd_def lowest_free_None_iff lowest_free_Some_iff split: option.splits sum.splits)
  then show ?thesis
    by (simp add: safe_dup_dupfd)
qed

theorem safe_dup_spec_witness:
  "safe_dup 16 [0 \<mapsto> \<lparr>ofile = 7, cloexec = True\<rparr>, 3 \<mapsto> \<lparr>ofile = 8, cloexec = True\<rparr>] 0 =
     (Inr 4, [0 \<mapsto> \<lparr>ofile = 7, cloexec = True\<rparr>, 3 \<mapsto> \<lparr>ofile = 8, cloexec = True\<rparr>, 4 \<mapsto> \<lparr>ofile = 7, cloexec = False\<rparr>])"
  using conjunct1 [OF safe_dup_spec [of 16 "[0 \<mapsto> \<lparr>ofile = 7, cloexec = True\<rparr>, 3 \<mapsto> \<lparr>ofile = 8, cloexec = True\<rparr>]" 0]]
  by (simp add: dupfd_def lowest_free_def upt_rec)

section \<open>Both ends of a pipe\<close>

lemma sys_pipe_Inr:
  assumes "sys_pipe lim ce ends t = (Inr (r, w), t')"
  shows "t r = None" "t w = None" "r \<noteq> w" "0 \<le> r" "0 \<le> w" "r < int lim" "w < int lim"
    "\<And>i. 0 \<le> i \<Longrightarrow> i < r \<Longrightarrow> t i \<noteq> None" "r < w"
    "t' = t(r \<mapsto> \<lparr>ofile = fst ends, cloexec = ce\<rparr>, w \<mapsto> \<lparr>ofile = snd ends, cloexec = ce\<rparr>)"
proof -
  let ?t = "t(r \<mapsto> \<lparr>ofile = fst ends, cloexec = ce\<rparr>)"
  have r: "lowest_free 0 lim t = Some r" and w: "lowest_free 0 lim ?t = Some w"
    and t': "t' = ?t(w \<mapsto> \<lparr>ofile = snd ends, cloexec = ce\<rparr>)"
    using assms by (auto simp: sys_pipe_def Let_def split: option.splits)
  note R = lowest_free_SomeD [OF r] and W = lowest_free_SomeD [OF w]
  show "t r = None" "0 \<le> r" "0 \<le> w" "r < int lim" "w < int lim"
    "\<And>i. 0 \<le> i \<Longrightarrow> i < r \<Longrightarrow> t i \<noteq> None"
    using R W by auto
  show "r \<noteq> w" "t w = None"
    using W by (auto split: if_splits)
  then show "r < w"
    using R W by (metis linorder_cases of_nat_0)
  show "t' = t(r \<mapsto> \<lparr>ofile = fst ends, cloexec = ce\<rparr>, w \<mapsto> \<lparr>ofile = snd ends, cloexec = ce\<rparr>)"
    by (rule t')
qed

lemma sys_pipe_Inl: "sys_pipe lim ce ends t = (Inl err, t') \<Longrightarrow> t' = t"
  by (auto simp: sys_pipe_def Let_def split: option.splits)

lemma pipe_closed: "sys_pipe lim ce ends t = (Inr (r, w), t') \<Longrightarrow> sys_close (sys_close t' r) w = t"
  using sys_pipe_Inr [of lim ce ends t r w t'] by (auto simp: sys_close_def fun_upd_idem_iff)

lemma lowest_free_upd_any: "lowest_free k lim (t(r \<mapsto> a)) = lowest_free k lim (t(r \<mapsto> b))"
  unfolding lowest_free_def by (rule find_cong) auto

lemma sys_pipe_cloexec:
  assumes "sys_pipe lim False ends t = (Inr (r, w), t')"
  shows "sys_pipe lim True ends t =
    (Inr (r, w), t'(r := map_option (cloexec_update (\<lambda>_. True)) (t' r), w := map_option (cloexec_update (\<lambda>_. True)) (t' w)))"
  using assms sys_pipe_Inr(3) [OF assms]
    lowest_free_upd_any [of 0 lim t r "\<lparr>ofile = fst ends, cloexec = True\<rparr>" "\<lparr>ofile = fst ends, cloexec = False\<rparr>"]
  by (auto simp: sys_pipe_def Let_def split: option.splits)

lemma sys_pipe_error_cloexec: "sys_pipe lim False ends t = (Inl err, t') \<Longrightarrow> sys_pipe lim True ends t = (Inl err, t)"
  using lowest_free_upd_any [of 0 lim t _ "\<lparr>ofile = fst ends, cloexec = True\<rparr>" "\<lparr>ofile = fst ends, cloexec = False\<rparr>"]
  by (auto simp: sys_pipe_def Let_def split: option.splits)

lemma safe_pipe_set_close:
  "safe_pipe_set getfd setfd t' r = Inr t'' \<Longrightarrow> sys_close (sys_close t'' r) w = sys_close (sys_close t' r) w"
  by (auto simp: safe_pipe_set_def sys_close_def split: option.splits)

lemma safe_pipe_set_Inl: "safe_pipe_set getfd setfd t fd = Inl err \<Longrightarrow> getfd fd = Some err \<or> setfd fd = Some err"
  by (auto simp: safe_pipe_set_def split: option.splits)

lemma safe_pipe_set_Inr:
  "safe_pipe_set getfd setfd t fd = Inr t' \<Longrightarrow> t' = t(fd := map_option (cloexec_update (\<lambda>_. True)) (t fd))"
  by (auto simp: safe_pipe_set_def split: option.splits)

text \<open>C30. The \<open>fcntl\<close> variant of \<open>safe_pipe\<close> gives what \<open>pipe2 (O_CLOEXEC)\<close> gives when no \<open>fcntl\<close> call fails;
  when one fails it answers that error with both ends closed, so that the descriptor table is as
  before.\<close>

theorem safe_pipe_variants_agree:
  "case safe_pipe_fcntl lim getfd setfd ends t of
     (Inr fds, t') \<Rightarrow> safe_pipe lim ends t = (Inr fds, t')
   | (Inl err, t') \<Rightarrow> t' = t \<and>
       (safe_pipe lim ends t = (Inl err, t) \<or> (\<exists>fd. getfd fd = Some err \<or> setfd fd = Some err))"
proof (cases "sys_pipe lim False ends t")
  case (Pair res t1)
  show ?thesis
  proof (cases res)
    case (Inl err)
    then show ?thesis
      using Pair sys_pipe_Inl [of lim False ends t err t1] sys_pipe_error_cloexec [of lim ends t err t1]
      by (simp add: safe_pipe_fcntl_def safe_pipe_def)
  next
    case (Inr rw)
    obtain r w where rw: "rw = (r, w)" by (cases rw)
    have p: "sys_pipe lim False ends t = (Inr (r, w), t1)"
      using Pair Inr rw by simp
    have "r \<noteq> w"
      by (rule sys_pipe_Inr(3) [OF p])
    then show ?thesis
      using pipe_closed [OF p] sys_pipe_cloexec [OF p]
      by (auto simp: safe_pipe_fcntl_def p safe_pipe_def safe_pipe_set_close split: sum.splits
          dest!: safe_pipe_set_Inl safe_pipe_set_Inr)
  qed
qed

end
