(* ===== verification/Spawn_Mem.thy ===== *)
theory Spawn_Mem
  imports Posix
begin

text \<open>
  The argument and environment arrays of \<open>spawn_stubs.c\<close>. Each is one \<open>malloc\<close>ed block: an array of
  pointers with a NULL at the end, followed by the characters of the strings. The block is modelled by
  its pointer cells (offsets into the block, \<open>None\<close> for NULL) and by its bytes; the functions write at
  the offsets the C code computes, so that a block that keeps its length was not overrun.
\<close>

abbreviation NUL :: char where "NUL \<equiv> CHR 0x00"

text \<open>\<open>sizeof (char*)\<close>\<close>

definition sizeof_ptr :: nat where "sizeof_ptr = 8"

record block =
  ptrs :: "nat option list"
  mem :: "char list"

text \<open>\<open>malloc\<close> answers memory of unknown contents, \<open>junk n\<close> for a block of \<open>n\<close> bytes, or NULL.\<close>

record allocator =
  malloc_ok :: "nat \<Rightarrow> bool"
  junk :: "nat \<Rightarrow> char list"

definition malloc :: "allocator \<Rightarrow> nat \<Rightarrow> nat \<Rightarrow> block option" where
  "malloc A slots n =
     (if malloc_ok A n then Some \<lparr>ptrs = replicate slots None, mem = take n (junk A n @ replicate n NUL)\<rparr> else None)"

text \<open>C strings: what a pointer to a byte of a block denotes, and what C sees of an OCaml string.\<close>

definition c_string :: "char list \<Rightarrow> string" where
  "c_string s = takeWhile (\<lambda>c. c \<noteq> NUL) s"

definition c_strings :: "block \<Rightarrow> string list" where
  "c_strings b = map (\<lambda>p. c_string (drop (the p) (mem b))) (takeWhile (\<lambda>p. p \<noteq> None) (ptrs b))"

section \<open>alloc\_env\_list\<close>

fun env_size :: "(string \<times> string) list \<Rightarrow> nat \<times> nat \<Rightarrow> nat \<times> nat" where
  "env_size [] (count, full_size) = (count, full_size)"
| "env_size ((var, val) # x) (count, full_size) =
     env_size x (count + 1, full_size + (sizeof_ptr + length var + length val + 2))"

fun env_fill :: "(string \<times> string) list \<Rightarrow> nat \<Rightarrow> block \<Rightarrow> nat \<Rightarrow> block" where
  "env_fill [] i b ptr = b"
| "env_fill ((var, val) # x) i b ptr =
     (let b = b\<lparr>ptrs := (ptrs b)[i := Some ptr]\<rparr>;
          b = b\<lparr>mem := memcpy (mem b) ptr var\<rparr>;
          ptr = ptr + length var;
          b = b\<lparr>mem := memcpy (mem b) ptr ''=''\<rparr>;
          ptr = ptr + 1;
          b = b\<lparr>mem := memcpy (mem b) ptr val\<rparr>;
          ptr = ptr + length val;
          b = b\<lparr>mem := memcpy (mem b) ptr [NUL]\<rparr>;
          ptr = ptr + 1
      in env_fill x (i + 1) b ptr)"

definition alloc_env_list :: "allocator \<Rightarrow> (string \<times> string) list \<Rightarrow> exn + block" where
  "alloc_env_list A v =
     (let (count, full_size) = env_size v (0, sizeof_ptr)
      in case malloc A (count + 1) full_size of
           None \<Rightarrow> Inl Out_of_memory
         | Some result \<Rightarrow>
             (let ptr = sizeof_ptr * (count + 1);
                  result = env_fill v 0 result ptr
              in Inr (result\<lparr>ptrs := (ptrs result)[count := None]\<rparr>)))"

section \<open>alloc\_string\_array and copy\_c\_string\_array\<close>

fun args_size :: "string list \<Rightarrow> nat \<Rightarrow> nat" where
  "args_size [] full_size = full_size"
| "args_size (s # ss) full_size = args_size ss (full_size + (length s + 1))"

text \<open>Copying strings with their terminating NUL one after the other, from slot \<open>i\<close> on.\<close>

fun strings_fill :: "string list \<Rightarrow> nat \<Rightarrow> block \<Rightarrow> nat \<Rightarrow> block" where
  "strings_fill [] i b ptr = b"
| "strings_fill (s # ss) i b ptr =
     (let len = length s + 1;
          b = b\<lparr>mem := memcpy (mem b) ptr (s @ [NUL])\<rparr>;
          b = b\<lparr>ptrs := (ptrs b)[i := Some ptr]\<rparr>
      in strings_fill ss (i + 1) b (ptr + len))"

definition alloc_string_array :: "allocator \<Rightarrow> string \<Rightarrow> string list \<Rightarrow> exn + block" where
  "alloc_string_array A argv0 args =
     (let count = length args;
          full_size = sizeof_ptr * (count + 2) + length argv0 + 1;
          full_size = args_size args full_size
      in case malloc A (count + 2) full_size of
           None \<Rightarrow> Inl Out_of_memory
         | Some result \<Rightarrow>
             (let ptr = sizeof_ptr * (count + 2);
                  len = length argv0 + 1;
                  result = result\<lparr>mem := memcpy (mem result) ptr (argv0 @ [NUL])\<rparr>;
                  result = result\<lparr>ptrs := (ptrs result)[0 := Some ptr]\<rparr>;
                  result = strings_fill args 1 result (ptr + len)
              in Inr (result\<lparr>ptrs := (ptrs result)[count + 1 := None]\<rparr>)))"

text \<open>The strings of a C array hold no NUL: \<open>strlen\<close> is their length.\<close>

fun copy_size :: "string list \<Rightarrow> nat \<times> nat \<Rightarrow> nat \<times> nat" where
  "copy_size [] (count, full_size) = (count, full_size)"
| "copy_size (s # ss) (count, full_size) = copy_size ss (count + 1, full_size + (sizeof_ptr + length s + 1))"

definition copy_c_string_array :: "allocator \<Rightarrow> string list \<Rightarrow> exn + block" where
  "copy_c_string_array A strings =
     (let (count, full_size) = copy_size strings (0, sizeof_ptr)
      in case malloc A (count + 1) full_size of
           None \<Rightarrow> Inl Out_of_memory
         | Some result \<Rightarrow>
             (let ptr = sizeof_ptr * (count + 1);
                  result = strings_fill strings 0 result ptr
              in Inr (result\<lparr>ptrs := (ptrs result)[count := None]\<rparr>)))"

section \<open>The blocks hold the strings\<close>

text \<open>The layout all three functions build: slot \<open>i + k\<close> points at the \<open>k\<close>-th string, the strings lie
  one behind the other from \<open>ptr\<close> on, and nothing else of the block changes.\<close>

fun offsets :: "string list \<Rightarrow> nat \<Rightarrow> nat list" where
  "offsets [] ptr = []"
| "offsets (s # ss) ptr = ptr # offsets ss (ptr + length s + 1)"

abbreviation packed :: "string list \<Rightarrow> char list" where
  "packed ss \<equiv> concat (map (\<lambda>s. s @ [NUL]) ss)"

lemma length_offsets [simp]: "length (offsets ss ptr) = length ss"
  by (induction ss arbitrary: ptr) auto

lemma memcpy_memcpy:
  "off \<le> length m \<Longrightarrow> off' = off + length a \<Longrightarrow> memcpy (memcpy m off a) off' b = memcpy m off (a @ b)"
  by (simp add: memcpy_def add.commute add.left_commute)

lemma list_update_memcpy: "i < length xs \<Longrightarrow> xs[i := v] = memcpy xs i [v]"
  by (simp add: memcpy_def upd_conv_take_nth_drop)

lemma block_upd_commute: "b\<lparr>ptrs := p, mem := m\<rparr> = b\<lparr>mem := m, ptrs := p\<rparr>"
  by (cases b) simp

lemma memcpy_binding:
  assumes "ptr \<le> length m"
  shows "memcpy (memcpy (memcpy (memcpy m ptr var) (ptr + length var) ''='') (ptr + length var + 1) val)
      (ptr + length var + 1 + length val) [NUL] = memcpy m ptr ((var @ ''='' @ val) @ [NUL])"
  using assms by (simp add: memcpy_memcpy)

lemma env_fill_strings_fill:
  "ptr + length (packed (map (\<lambda>(var, val). var @ ''='' @ val) v)) \<le> length (mem b) \<Longrightarrow>
   env_fill v i b ptr = strings_fill (map (\<lambda>(var, val). var @ ''='' @ val) v) i b ptr"
proof (induction v arbitrary: i b ptr)
  case (Cons x v)
  obtain var val where x: "x = (var, val)" by (cases x)
  have "ptr \<le> length (mem b)"
    using Cons.prems by simp
  then show ?case
    using Cons.prems memcpy_binding [of ptr "mem b" var val] by (simp add: x Let_def Cons.IH block_upd_commute ac_simps)
qed simp

lemma strings_fill_layout:
  "ptr \<le> length (mem b) \<Longrightarrow> i + length ss \<le> length (ptrs b) \<Longrightarrow>
   strings_fill ss i b ptr =
     b\<lparr>ptrs := memcpy (ptrs b) i (map Some (offsets ss ptr)), mem := memcpy (mem b) ptr (packed ss)\<rparr>"
proof (induction ss arbitrary: i b ptr)
  case (Cons s ss)
  have "ptr + length s + 1 \<le> length (memcpy (mem b) ptr (s @ [NUL]))"
    using Cons.prems(1) by (simp add: memcpy_def)
  then show ?case
    using Cons.prems
    by (simp add: Let_def Cons.IH block_upd_commute list_update_memcpy memcpy_memcpy)
qed simp

lemma packed_strings:
  assumes "\<forall>s \<in> set ss. NUL \<notin> set s"
  shows "map (\<lambda>p. c_string (drop p (pre @ packed ss @ post))) (offsets ss (length pre)) = ss"
  using assms
proof (induction ss arbitrary: pre)
  case (Cons s ss)
  have "c_string (s @ NUL # xs) = s" for xs
    using Cons.prems by (auto simp: c_string_def takeWhile_append)
  moreover have "map (\<lambda>p. c_string (drop p ((pre @ s @ [NUL]) @ packed ss @ post))) (offsets ss (length (pre @ s @ [NUL]))) = ss"
    using Cons.prems by (intro Cons.IH) auto
  ultimately show ?case
    by (simp add: add.assoc)
qed simp

lemma packed_block:
  assumes "NUL \<notin> \<Union> (set ` set ss)" "ptr + length (packed ss) = length m" "length p = length ss + 1"
  shows "c_strings \<lparr>ptrs = (memcpy p 0 (map Some (offsets ss ptr)))[length ss := None], mem = memcpy m ptr (packed ss)\<rparr> = ss"
    and "length (memcpy m ptr (packed ss)) = length m"
    and "length (memcpy p 0 (map Some (offsets ss ptr))) = length p"
proof -
  have p: "(memcpy p 0 (map Some (offsets ss ptr)))[length ss := None] = map Some (offsets ss ptr) @ [None]"
    using assms(3) by (auto simp: memcpy_def list_update_append split: nat.splits) (cases p rule: rev_cases; simp)
  have m: "memcpy m ptr (packed ss) = take ptr m @ packed ss @ []"
    using assms(2) by (simp add: memcpy_def)
  have "takeWhile (\<lambda>p. p \<noteq> None) (map Some (offsets ss ptr) @ [None]) = map Some (offsets ss ptr)"
    by (simp add: takeWhile_append)
  then show "c_strings \<lparr>ptrs = (memcpy p 0 (map Some (offsets ss ptr)))[length ss := None], mem = memcpy m ptr (packed ss)\<rparr> = ss"
    using packed_strings [of ss "take ptr m" "[]"] assms(1,2) unfolding p m c_strings_def
    by (auto simp: comp_def)
  show "length (memcpy m ptr (packed ss)) = length m"
    using assms(2) by (simp add: memcpy_def)
  show "length (memcpy p 0 (map Some (offsets ss ptr))) = length p"
    using assms(3) by (simp add: memcpy_def)
qed

lemma env_size_eq:
  "env_size v (count, full_size) =
     (count + length v, full_size + sizeof_ptr * length v + length (packed (map (\<lambda>(var, val). var @ ''='' @ val) v)))"
  by (induction v arbitrary: count full_size) auto

lemma copy_size_eq:
  "copy_size ss (count, full_size) = (count + length ss, full_size + sizeof_ptr * length ss + length (packed ss))"
  by (induction ss arbitrary: count full_size) auto

lemma args_size_eq: "args_size ss full_size = full_size + length (packed ss)"
  by (induction ss arbitrary: full_size) auto

text \<open>The packing of a list of strings into a block of exactly the size computed beforehand.\<close>

lemma pack_block:
  assumes "malloc A (length ss + 1) (sizeof_ptr * (length ss + 1) + length (packed ss)) = Some b"
    and "NUL \<notin> \<Union> (set ` set ss)"
  defines "b' \<equiv> (strings_fill ss 0 b (sizeof_ptr * (length ss + 1)))"
  shows "c_strings (b'\<lparr>ptrs := (ptrs b')[length ss := None]\<rparr>) = ss"
    and "length (mem b') = length (mem b)"
proof -
  have len: "length (mem b) = sizeof_ptr * (length ss + 1) + length (packed ss)" "length (ptrs b) = length ss + 1"
    using assms(1) by (auto simp: malloc_def split: if_splits)
  have b': "b' = b\<lparr>ptrs := memcpy (ptrs b) 0 (map Some (offsets ss (sizeof_ptr * (length ss + 1)))),
      mem := memcpy (mem b) (sizeof_ptr * (length ss + 1)) (packed ss)\<rparr>"
    using len by (simp add: b'_def strings_fill_layout)
  note P = packed_block [OF assms(2) len(1) [symmetric] len(2)]
  show "c_strings (b'\<lparr>ptrs := (ptrs b')[length ss := None]\<rparr>) = ss"
    using P(1) by (cases b) (simp add: b')
  show "length (mem b') = length (mem b)"
    using P(2) by (simp add: b')
qed

lemma alloc_string_array_pack:
  "alloc_string_array A argv0 args =
     (let ss = argv0 # args
      in case malloc A (length ss + 1) (sizeof_ptr * (length ss + 1) + length (packed ss)) of
           None \<Rightarrow> Inl Out_of_memory
         | Some b \<Rightarrow> (let b' = strings_fill ss 0 b (sizeof_ptr * (length ss + 1))
             in Inr (b'\<lparr>ptrs := (ptrs b')[length ss := None]\<rparr>)))"
  by (simp add: alloc_string_array_def args_size_eq Let_def ac_simps split: option.split)

lemma copy_c_string_array_pack:
  "copy_c_string_array A ss =
     (case malloc A (length ss + 1) (sizeof_ptr * (length ss + 1) + length (packed ss)) of
        None \<Rightarrow> Inl Out_of_memory
      | Some b \<Rightarrow> (let b' = strings_fill ss 0 b (sizeof_ptr * (length ss + 1))
          in Inr (b'\<lparr>ptrs := (ptrs b')[length ss := None]\<rparr>)))"
  by (simp add: copy_c_string_array_def copy_size_eq Let_def split: option.split)

lemma length_mem_malloc: "malloc A k n = Some b \<Longrightarrow> length (mem b) = n"
  by (auto simp: malloc_def split: if_splits)

lemma alloc_env_list_pack:
  "alloc_env_list A v =
     (let ss = map (\<lambda>(var, val). var @ ''='' @ val) v
      in case malloc A (length ss + 1) (sizeof_ptr * (length ss + 1) + length (packed ss)) of
           None \<Rightarrow> Inl Out_of_memory
         | Some b \<Rightarrow> (let b' = strings_fill ss 0 b (sizeof_ptr * (length ss + 1))
             in Inr (b'\<lparr>ptrs := (ptrs b')[length ss := None]\<rparr>)))"
  by (simp add: alloc_env_list_def env_size_eq Let_def env_fill_strings_fill length_mem_malloc split: option.split)





end
