(* ===== verification/Spawn_Child.thy ===== *)
theory Spawn_Child
  imports Spawn_Fds Spawn_Mem
begin

unbundle bit_operations_syntax

text \<open>
  The child side of \<open>spawn_stubs.c\<close>: the description of the process to start (\<open>struct spawn_info\<close>), the
  error record the child sends to its parent, and \<open>subprocess\<close> with the functions it calls, from the
  fork to \<open>execve\<close>. A process is a record of what the code changes of it; the calls whose outcome the
  process does not determine answer from a record \<open>kernel\<close>. The Landlock stubs are here as well.
\<close>

section \<open>Processes and the kernel\<close>

record proc =
  fds :: fd_table
  cwd :: nat
  sigmask :: "int set"
  pending :: "int option"
  handled :: "int set"
  pgid :: int
  pdeathsig :: int
  no_new_privs :: bool
  landlocked :: "nat list"

text \<open>The answers of the environment: \<open>None\<close> is success where the call returns nothing.\<close>

record kernel =
  fd_limit :: nat
  is_linux :: bool
  has_landlock :: bool
  nsig :: int
  k_setpgid :: "int \<Rightarrow> errno option"
  k_chdir :: "string \<Rightarrow> errno + nat"
  k_fchdir :: "nat \<Rightarrow> errno + nat"
  k_pdeathsig :: "errno option"
  k_getppid :: int
  k_kill :: "errno option"
  k_terminates :: "int \<Rightarrow> bool"
  k_no_new_privs :: "errno option"
  k_restrict_self :: "nat \<Rightarrow> errno option"
  k_execve :: "string \<Rightarrow> string list \<Rightarrow> string list \<Rightarrow> errno option"

text \<open>\<open>sigfillset\<close>, as a mask: \<open>SIGKILL\<close> and \<open>SIGSTOP\<close> are never blocked.\<close>

definition all_signals :: "kernel \<Rightarrow> int set" where
  "all_signals K = {1..<nsig K} - {9, 19}"

section \<open>The error record\<close>

datatype error_arg = NOTHING | CWD | PROG

record failure_struct =
  error :: errno
  func :: "char list"
  arg :: error_arg

text \<open>\<open>None\<close> is a failed assertion: the name does not fit the 32 characters of the field.\<close>

definition set_error :: "errno \<Rightarrow> string \<Rightarrow> error_arg \<Rightarrow> failure_struct option" where
  "set_error err f a =
     (let len = length f
      in if len + 1 \<le> 32
         then Some \<lparr>error = err, func = memcpy (replicate 32 NUL) 0 (f @ [NUL]), arg = a\<rparr>
         else None)"

text \<open>How the child ends: it runs the new program, it exits after writing a record to the open file
  that the failure descriptor denotes at that moment (if any), a signal kills it, or it aborts.\<close>

datatype child_end =
  Exec string "string list" "string list" proc
| Exit127 "(nat \<times> failure_struct) option"
| Killed int
| Aborted

definition subprocess_failure :: "int \<Rightarrow> errno \<Rightarrow> string \<Rightarrow> error_arg \<Rightarrow> proc \<Rightarrow> child_end" where
  "subprocess_failure failure_fd err f a p =
     (case set_error err f a of
        None \<Rightarrow> Aborted
      | Some failure \<Rightarrow> Exit127 (map_option (\<lambda>e. (ofile e, failure)) (fds p failure_fd)))"

text \<open>The statements of the child run one after the other until one of them ends it.\<close>

type_synonym step = "proc \<Rightarrow> child_end + proc"

definition seq :: "step \<Rightarrow> step \<Rightarrow> step" where
  "seq f g p = (case f p of Inl e \<Rightarrow> Inl e | Inr p \<Rightarrow> g p)"

definition seqs :: "step list \<Rightarrow> step" where
  "seqs fs = foldr seq fs Inr"

section \<open>The process to start\<close>

datatype working_dir = PATH string | FD int | INHERIT

record spawn_info =
  env :: block
  si_cwd :: working_dir
  prog :: string
  argv :: block
  std_fds :: "int \<times> int \<times> int"
  si_pgid :: "int option"
  landlock_fd :: int
  si_pdeathsig :: int
  parent_pid :: int
  child_sigmask :: "int set"

section \<open>Steps of the child\<close>

definition reset_signal_to_default :: "int \<Rightarrow> proc \<Rightarrow> proc" where
  "reset_signal_to_default s p = p\<lparr>handled := handled p - {s}\<rparr>"

text \<open>\<open>kill (getpid (), s)\<close>: a blocked signal stays pending until the mask lets it through; its handler is
  already the default one.\<close>

definition kill_self :: "kernel \<Rightarrow> int \<Rightarrow> step" where
  "kill_self K s p =
     (if s \<in> sigmask p then Inr (p\<lparr>pending := Some s\<rparr>)
      else if k_terminates K s then Inl (Killed s) else Inr p)"

definition set_parent_death_signal :: "kernel \<Rightarrow> int \<Rightarrow> spawn_info \<Rightarrow> step" where
  "set_parent_death_signal K failure_fd info p =
     (if is_linux K then
        if si_pdeathsig info = 0 then Inr p
        else
          let p = reset_signal_to_default (si_pdeathsig info) p
          in case k_pdeathsig K of
               Some err \<Rightarrow> Inl (subprocess_failure failure_fd err ''prctl'' NOTHING p)
             | None \<Rightarrow>
                 let p = p\<lparr>pdeathsig := si_pdeathsig info\<rparr>
                 in if k_getppid K \<noteq> parent_pid info then
                      case k_kill K of
                        Some err \<Rightarrow> Inl (subprocess_failure failure_fd err ''kill'' NOTHING p)
                      | None \<Rightarrow> kill_self K (si_pdeathsig info) p
                    else Inr p
      else Inr p)"

definition apply_landlock :: "kernel \<Rightarrow> int \<Rightarrow> spawn_info \<Rightarrow> step" where
  "apply_landlock K failure_fd info p =
     (if landlock_fd info = - 1 then Inr p
      else if has_landlock K then
        case k_no_new_privs K of
          Some err \<Rightarrow> Inl (subprocess_failure failure_fd err ''prctl'' NOTHING p)
        | None \<Rightarrow>
            let p = p\<lparr>no_new_privs := True\<rparr>
            in case fds p (landlock_fd info) of
                 None \<Rightarrow> Inl (subprocess_failure failure_fd EBADF ''landlock_restrict_self'' NOTHING p)
               | Some e \<Rightarrow>
                   (case k_restrict_self K (ofile e) of
                      Some err \<Rightarrow> Inl (subprocess_failure failure_fd err ''landlock_restrict_self'' NOTHING p)
                    | None \<Rightarrow> Inr (p\<lparr>landlocked := ofile e # landlocked p, fds := sys_close (fds p) (landlock_fd info)\<rparr>))
      else Inl (subprocess_failure failure_fd ENOSYS ''landlock_restrict_self'' NOTHING p))"

definition child_setpgid :: "kernel \<Rightarrow> int \<Rightarrow> spawn_info \<Rightarrow> step" where
  "child_setpgid K failure_fd info p =
     (case si_pgid info of
        None \<Rightarrow> Inr p
      | Some g \<Rightarrow>
          (case k_setpgid K g of
             Some err \<Rightarrow> Inl (subprocess_failure failure_fd err ''setpgid'' NOTHING p)
           | None \<Rightarrow> Inr (p\<lparr>pgid := g\<rparr>)))"

definition child_reset_signals :: "kernel \<Rightarrow> step" where
  "child_reset_signals K p = Inr (fold reset_signal_to_default [1..nsig K - 1] p)"

definition child_chdir :: "kernel \<Rightarrow> int \<Rightarrow> spawn_info \<Rightarrow> step" where
  "child_chdir K failure_fd info p =
     (case si_cwd info of
        INHERIT \<Rightarrow> Inr p
      | PATH path \<Rightarrow>
          (case k_chdir K path of
             Inl err \<Rightarrow> Inl (subprocess_failure failure_fd err ''chdir'' CWD p)
           | Inr d \<Rightarrow> Inr (p\<lparr>cwd := d\<rparr>))
      | FD fd \<Rightarrow>
          (case (case fds p fd of None \<Rightarrow> Inl EBADF | Some e \<Rightarrow> k_fchdir K (ofile e)) of
             Inl err \<Rightarrow> Inl (subprocess_failure failure_fd err ''fchdir'' NOTHING p)
           | Inr d \<Rightarrow> Inr (p\<lparr>cwd := d, fds := sys_close (fds p) fd\<rparr>)))"

text \<open>\<open>safe_dup_failure_fd\<close> hands the new descriptor to the rest of the child.\<close>

definition safe_dup_failure_fd :: "kernel \<Rightarrow> int \<Rightarrow> int \<Rightarrow> (int \<Rightarrow> step) \<Rightarrow> step" where
  "safe_dup_failure_fd K failure_fd fd k p =
     (case safe_dup (fd_limit K) (fds p) fd of
        (Inl err, t) \<Rightarrow> Inl (subprocess_failure failure_fd err ''dup'' NOTHING (p\<lparr>fds := t\<rparr>))
      | (Inr new_fd, t) \<Rightarrow> k new_fd (p\<lparr>fds := t\<rparr>))"

definition child_close :: "int \<Rightarrow> step" where
  "child_close fd p = Inr (p\<lparr>fds := sys_close (fds p) fd\<rparr>)"

definition child_dup2 :: "kernel \<Rightarrow> int \<Rightarrow> int \<Rightarrow> int \<Rightarrow> step" where
  "child_dup2 K failure_fd tmp fd p =
     (case sys_dup2 (fd_limit K) (fds p) tmp fd of
        (Inl err, t) \<Rightarrow> Inl (subprocess_failure failure_fd err ''dup2'' NOTHING (p\<lparr>fds := t\<rparr>))
      | (Inr _, t) \<Rightarrow> Inr (p\<lparr>fds := sys_close t tmp\<rparr>))"

text \<open>The three loops over the standard descriptors.\<close>

definition child_redirect :: "kernel \<Rightarrow> int \<Rightarrow> spawn_info \<Rightarrow> step" where
  "child_redirect K failure_fd info =
     (case std_fds info of
        (s0, s1, s2) \<Rightarrow>
          safe_dup_failure_fd K failure_fd s0 (\<lambda>t0.
          safe_dup_failure_fd K failure_fd s1 (\<lambda>t1.
          safe_dup_failure_fd K failure_fd s2 (\<lambda>t2.
          seqs [child_close s0, child_close s1, child_close s2,
                child_dup2 K failure_fd t0 0, child_dup2 K failure_fd t1 1, child_dup2 K failure_fd t2 2]))))"

definition child_sigmask_step :: "kernel \<Rightarrow> spawn_info \<Rightarrow> step" where
  "child_sigmask_step K info p =
     (let p = p\<lparr>sigmask := child_sigmask info - {9, 19}\<rparr>
      in case pending p of
           None \<Rightarrow> Inr p
         | Some s \<Rightarrow>
             if s \<in> sigmask p then Inr p
             else if k_terminates K s then Inl (Killed s) else Inr (p\<lparr>pending := None\<rparr>))"

definition child_execve :: "kernel \<Rightarrow> int \<Rightarrow> spawn_info \<Rightarrow> proc \<Rightarrow> child_end" where
  "child_execve K failure_fd info p =
     (case k_execve K (prog info) (c_strings (argv info)) (c_strings (env info)) of
        None \<Rightarrow> Exec (prog info) (c_strings (argv info)) (c_strings (env info)) (p\<lparr>fds := exec_fds (fds p)\<rparr>)
      | Some err \<Rightarrow> subprocess_failure failure_fd err ''execve'' PROG p)"

definition subprocess :: "kernel \<Rightarrow> int \<Rightarrow> spawn_info \<Rightarrow> proc \<Rightarrow> child_end" where
  "subprocess K failure_fd info p =
     (case seqs [set_parent_death_signal K failure_fd info, child_setpgid K failure_fd info,
                 child_reset_signals K, child_chdir K failure_fd info, child_redirect K failure_fd info,
                 apply_landlock K failure_fd info, child_sigmask_step K info] p of
        Inl e \<Rightarrow> e
      | Inr p \<Rightarrow> child_execve K failure_fd info p)"

section \<open>Redirection\<close>

text \<open>The table the redirections are meant to give: the descriptors 0, 1 and 2 denote what the three
  given descriptors denoted at the start, whatever their numbers, and survive \<open>execve\<close>; the given ones
  are closed; nothing else changes.\<close>

definition redirected :: "fd_table \<Rightarrow> int \<times> int \<times> int \<Rightarrow> fd_table" where
  "redirected t s =
     (case s of (s0, s1, s2) \<Rightarrow>
        (\<lambda>fd. if fd = 0 then map_option (cloexec_update (\<lambda>_. False)) (t s0)
              else if fd = 1 then map_option (cloexec_update (\<lambda>_. False)) (t s1)
              else if fd = 2 then map_option (cloexec_update (\<lambda>_. False)) (t s2)
              else if fd = s0 \<or> fd = s1 \<or> fd = s2 then None
              else t fd))"

lemma seqs_simps [simp]:
  "seqs [] p = Inr p"
  "seqs (f # fs) p = (case f p of Inl e \<Rightarrow> Inl e | Inr p \<Rightarrow> seqs fs p)"
  by (simp_all add: seqs_def seq_def split: sum.split)

lemma child_dup2_table:
  "t tmp = Some e \<Longrightarrow> 0 \<le> fd \<Longrightarrow> fd < 3 \<Longrightarrow> 3 \<le> tmp \<Longrightarrow> 3 \<le> fd_limit K \<Longrightarrow>
   child_dup2 K ffd tmp fd (p\<lparr>fds := t\<rparr>) = Inr (p\<lparr>fds := t(fd \<mapsto> e\<lparr>cloexec := False\<rparr>, tmp := None)\<rparr>)"
  by (auto simp: child_dup2_def sys_dup2_def sys_close_def)

lemma child_dups:
  assumes "t s0 = Some e0" "t s1 = Some e1" "t s2 = Some e2" "3 \<le> fd_limit K"
    and "t t0 = None" "t t1 = None" "t t2 = None" "t0 \<noteq> t1" "t0 \<noteq> t2" "t1 \<noteq> t2" "3 \<le> t0" "3 \<le> t1" "3 \<le> t2"
  shows "seqs [child_close s0, child_close s1, child_close s2,
      child_dup2 K ffd t0 0, child_dup2 K ffd t1 1, child_dup2 K ffd t2 2]
      (p\<lparr>fds := t(t0 \<mapsto> e0\<lparr>cloexec := False\<rparr>, t1 \<mapsto> e1\<lparr>cloexec := False\<rparr>, t2 \<mapsto> e2\<lparr>cloexec := False\<rparr>)\<rparr>) =
    Inr (p\<lparr>fds := redirected t (s0, s1, s2)\<rparr>)"
proof -
  have ne: "s0 \<noteq> t0" "s0 \<noteq> t1" "s0 \<noteq> t2" "s1 \<noteq> t0" "s1 \<noteq> t1" "s1 \<noteq> t2" "s2 \<noteq> t0" "s2 \<noteq> t1" "s2 \<noteq> t2"
    using assms by auto
  show ?thesis
    using assms ne
    by (simp add: child_close_def sys_close_def child_dup2_table redirected_def) (auto simp: fun_eq_iff)
qed

lemma safe_dup_cases:
  assumes "t fd = Some e"
  obtains (fail) "safe_dup lim t fd = (Inl EMFILE, t)"
    | (ok) n where "safe_dup lim t fd = (Inr n, t(n \<mapsto> e\<lparr>cloexec := False\<rparr>))" "t n = None" "3 \<le> n"
  using assms by (cases "lowest_free 3 lim t") (auto simp: safe_dup_dupfd dupfd_def lowest_free_Some_iff)

definition keeps :: "fd_table \<Rightarrow> fd_table \<Rightarrow> bool" where
  "keeps t t' \<longleftrightarrow> (\<forall>fd e. t fd = Some e \<longrightarrow> t' fd = Some e)"

lemma child_redirect_cases:
  assumes "std_fds info = (s0, s1, s2)" "fds p s0 = Some e0" "fds p s1 = Some e1" "fds p s2 = Some e2" "3 \<le> fd_limit K"
  shows "child_redirect K ffd info p = Inr (p\<lparr>fds := redirected (fds p) (s0, s1, s2)\<rparr>) \<or>
    (\<exists>t'. child_redirect K ffd info p = Inl (subprocess_failure ffd EMFILE ''dup'' NOTHING (p\<lparr>fds := t'\<rparr>)) \<and> keeps (fds p) t')"
proof (cases rule: safe_dup_cases [of "fds p" s0 e0 "fd_limit K", OF assms(2)])
  case 1
  then show ?thesis
    by (intro disjI2 exI [of _ "fds p"]) (simp add: child_redirect_def assms(1) safe_dup_failure_fd_def keeps_def)
next
  case (2 t0)
  let ?T = "(fds p)(t0 \<mapsto> e0\<lparr>cloexec := False\<rparr>)"
  have "?T s1 = Some e1" "?T s2 = Some e2"
    using 2 assms by auto
  note T = this
  show ?thesis
  proof (cases rule: safe_dup_cases [of ?T s1 e1 "fd_limit K", OF T(1)])
    case 1
    with 2 show ?thesis
      by (intro disjI2 exI [of _ ?T]) (auto simp: child_redirect_def assms(1) safe_dup_failure_fd_def keeps_def)
  next
    case t1: (2 t1)
    let ?T1 = "?T(t1 \<mapsto> e1\<lparr>cloexec := False\<rparr>)"
    have T2: "?T1 s2 = Some e2"
      using T t1 by auto
    show ?thesis
    proof (cases rule: safe_dup_cases [of ?T1 s2 e2 "fd_limit K", OF T2])
      case 1
      with 2 t1 show ?thesis
        by (intro disjI2 exI [of _ ?T1]) (auto simp: child_redirect_def assms(1) safe_dup_failure_fd_def keeps_def)
    next
      case t2: (2 t2)
      have "t0 \<noteq> t1" "t0 \<noteq> t2" "t1 \<noteq> t2" "fds p t1 = None" "fds p t2 = None"
        using 2 t1 t2 by (auto split: if_splits)
      then show ?thesis
        using 2 t1 t2 assms child_dups [of "fds p" s0 e0 s1 e1 s2 e2 K t0 t1 t2 ffd p]
        by (simp add: child_redirect_def safe_dup_failure_fd_def)
    qed
  qed
qed

section \<open>From the fork to execve\<close>

text \<open>What the caller of \<open>dune_spawn_unix\<close> is expected to pass: descriptors that are open, the one of
  the working directory apart from the standard ones, the one of the ruleset above them.\<close>

definition info_ok :: "kernel \<Rightarrow> fd_table \<Rightarrow> spawn_info \<Rightarrow> bool" where
  "info_ok K t info \<longleftrightarrow>
     3 \<le> fd_limit K \<and>
     (case std_fds info of (s0, s1, s2) \<Rightarrow>
        t s0 \<noteq> None \<and> t s1 \<noteq> None \<and> t s2 \<noteq> None \<and>
        (case si_cwd info of FD fd \<Rightarrow> t fd \<noteq> None \<and> fd \<noteq> s0 \<and> fd \<noteq> s1 \<and> fd \<noteq> s2 | _ \<Rightarrow> True)) \<and>
     (landlock_fd info = - 1 \<or> 3 \<le> landlock_fd info \<and> t (landlock_fd info) \<noteq> None)"

definition cwd_closed :: "spawn_info \<Rightarrow> fd_table \<Rightarrow> fd_table" where
  "cwd_closed info t = (case si_cwd info of FD fd \<Rightarrow> t(fd := None) | _ \<Rightarrow> t)"

text \<open>The table of the new program.\<close>

definition child_table :: "spawn_info \<Rightarrow> fd_table \<Rightarrow> fd_table" where
  "child_table info t =
     (let t = redirected (cwd_closed info t) (std_fds info)
      in exec_fds (if landlock_fd info = - 1 then t else t(landlock_fd info := None)))"

lemma fold_reset_signals:
  "fold reset_signal_to_default ss p = p\<lparr>handled := handled p - set ss\<rparr>"
  by (induction ss arbitrary: p) (auto simp: reset_signal_to_default_def set_diff_eq intro!: arg_cong [where f = "\<lambda>x. _\<lparr>handled := x\<rparr>"])

text \<open>The failure record always fits, so the child never aborts.\<close>

lemma set_error_short: "length f < 32 \<Longrightarrow> set_error err f a = Some \<lparr>error = err, func = f @ replicate (32 - length f) NUL, arg = a\<rparr>"
proof -
  assume "length f < 32"
  then have "32 - length f = Suc (31 - length f)"
    by simp
  then show ?thesis
    using \<open>length f < 32\<close> by (simp add: set_error_def memcpy_def Let_def)
qed

lemma c_string_padded: "string_is_c_safe f \<Longrightarrow> c_string (f @ replicate n NUL) = f"
  by (auto simp: c_string_def string_is_c_safe_def takeWhile_append)

definition reported :: "nat \<Rightarrow> errno \<Rightarrow> string \<Rightarrow> error_arg \<Rightarrow> child_end" where
  "reported w err f a = Exit127 (Some (w, \<lparr>error = err, func = f @ replicate (32 - length f) NUL, arg = a\<rparr>))"

lemma subprocess_failure_reported:
  "fds p ffd = Some e \<Longrightarrow> length f < 32 \<Longrightarrow> subprocess_failure ffd err f a p = reported (ofile e) err f a"
  by (simp add: subprocess_failure_def set_error_short reported_def)

text \<open>The failure descriptor stays usable: it is none of the descriptors the child closes or
  overwrites.\<close>

definition failure_fd_ok :: "int \<Rightarrow> fd_table \<Rightarrow> spawn_info \<Rightarrow> bool" where
  "failure_fd_ok ffd t info \<longleftrightarrow>
     3 \<le> ffd \<and> t ffd \<noteq> None \<and> (case std_fds info of (s0, s1, s2) \<Rightarrow> ffd \<noteq> s0 \<and> ffd \<noteq> s1 \<and> ffd \<noteq> s2) \<and>
     si_cwd info \<noteq> FD ffd \<and> landlock_fd info \<noteq> ffd"

lemma redirected_above: "3 \<le> fd \<Longrightarrow> std_fds info = (s0, s1, s2) \<Longrightarrow> fd \<noteq> s0 \<Longrightarrow> fd \<noteq> s1 \<Longrightarrow> fd \<noteq> s2 \<Longrightarrow>
   redirected t (std_fds info) fd = t fd"
  by (simp add: redirected_def)

text \<open>What each step may do, as long as the failure descriptor denotes the open file \<open>w\<close>: end the child
  with a record on \<open>w\<close> or by a signal, or go on.\<close>

definition failure_sites :: "(string \<times> error_arg) set" where
  "failure_sites = {(''prctl'', NOTHING), (''kill'', NOTHING), (''setpgid'', NOTHING), (''chdir'', CWD), (''fchdir'', NOTHING),
     (''dup'', NOTHING), (''dup2'', NOTHING), (''landlock_restrict_self'', NOTHING), (''execve'', PROG)}"

definition good_end :: "nat \<Rightarrow> child_end \<Rightarrow> bool" where
  "good_end w x \<longleftrightarrow> (\<exists>s. x = Killed s) \<or> (\<exists>err f a. x = reported w err f a \<and> (f, a) \<in> failure_sites)"

lemma failure_sites_names:
  assumes "(f, a) \<in> failure_sites"
  shows "length f < 32" "string_is_c_safe f"
proof -
  have "f \<in> fst ` failure_sites"
    using assms by (metis fst_conv imageI)
  then have "f \<in> {''prctl'', ''kill'', ''setpgid'', ''chdir'', ''fchdir'', ''dup'', ''dup2'', ''landlock_restrict_self'', ''execve''}"
    by (simp add: failure_sites_def)
  moreover have "\<forall>f \<in> {''prctl'', ''kill'', ''setpgid'', ''chdir'', ''fchdir'', ''dup'', ''dup2'', ''landlock_restrict_self'', ''execve''}.
      length f < 32 \<and> string_is_c_safe f"
    by (simp add: string_is_c_safe_def)
  ultimately show "length f < 32" "string_is_c_safe f"
    by (metis (lifting))+
qed

lemma good_end_failure:
  assumes "fds p ffd = Some e" "(f, a) \<in> failure_sites"
  shows "good_end (ofile e) (subprocess_failure ffd err f a p)"
  unfolding good_end_def subprocess_failure_reported [of p ffd e f err a, OF assms(1) failure_sites_names(1) [OF assms(2)]]
  using assms(2) by blast

lemma failure_sites_simps [simp]:
  "(''prctl'', NOTHING) \<in> failure_sites" "(''kill'', NOTHING) \<in> failure_sites" "(''setpgid'', NOTHING) \<in> failure_sites"
  "(''chdir'', CWD) \<in> failure_sites" "(''fchdir'', NOTHING) \<in> failure_sites" "(''dup'', NOTHING) \<in> failure_sites"
  "(''dup2'', NOTHING) \<in> failure_sites" "(''landlock_restrict_self'', NOTHING) \<in> failure_sites"
  "(''execve'', PROG) \<in> failure_sites"
  by (simp_all add: failure_sites_def)

lemma death_signal_step:
  assumes "fds p ffd = Some e"
  shows "case set_parent_death_signal K ffd info p of
      Inl x \<Rightarrow> good_end (ofile e) x
    | Inr p' \<Rightarrow> fds p' = fds p \<and> pgid p' = pgid p \<and> cwd p' = cwd p \<and> handled p' \<subseteq> handled p \<and> landlocked p' = landlocked p \<and>
        no_new_privs p' = no_new_privs p \<and>
        pdeathsig p' = (if is_linux K \<and> si_pdeathsig info \<noteq> 0 then si_pdeathsig info else pdeathsig p)"
  using assms
  by (auto simp: set_parent_death_signal_def reset_signal_to_default_def kill_self_def Let_def good_end_def [of _ "Killed _"]
      intro!: good_end_failure split: option.splits)

lemma setpgid_step:
  assumes "fds p ffd = Some e"
  shows "case child_setpgid K ffd info p of
      Inl x \<Rightarrow> good_end (ofile e) x
    | Inr p' \<Rightarrow> p' = p\<lparr>pgid := (case si_pgid info of Some g \<Rightarrow> g | None \<Rightarrow> pgid p)\<rparr>"
  using assms by (auto simp: child_setpgid_def intro!: good_end_failure split: option.splits)

lemma chdir_step:
  assumes "fds p ffd = Some e"
  shows "case child_chdir K ffd info p of
      Inl x \<Rightarrow> good_end (ofile e) x
    | Inr p' \<Rightarrow> \<exists>d. p' = p\<lparr>cwd := d, fds := cwd_closed info (fds p)\<rparr> \<and>
        (case si_cwd info of INHERIT \<Rightarrow> d = cwd p | PATH path \<Rightarrow> k_chdir K path = Inr d
         | FD fd \<Rightarrow> (\<exists>e. fds p fd = Some e \<and> k_fchdir K (ofile e) = Inr d))"
  using assms
  by (auto simp: child_chdir_def cwd_closed_def sys_close_def intro!: good_end_failure
      split: option.splits sum.splits working_dir.splits)

lemma landlock_step:
  assumes "fds p ffd = Some e"
  shows "case apply_landlock K ffd info p of
      Inl x \<Rightarrow> good_end (ofile e) x
    | Inr p' \<Rightarrow> if landlock_fd info = - 1 then p' = p
        else \<exists>r. fds p (landlock_fd info) = Some r \<and> k_restrict_self K (ofile r) = None \<and>
          p' = p\<lparr>no_new_privs := True, landlocked := ofile r # landlocked p, fds := (fds p)(landlock_fd info := None)\<rparr>"
  using assms
  by (auto simp: apply_landlock_def sys_close_def Let_def intro!: good_end_failure split: option.splits)

lemma sigmask_step:
  "case child_sigmask_step K info p of
      Inl x \<Rightarrow> good_end w x
    | Inr p' \<Rightarrow> \<exists>s. p' = p\<lparr>sigmask := child_sigmask info - {9, 19}, pending := s\<rparr>"
  by (auto simp: child_sigmask_step_def Let_def good_end_def split: option.splits intro: exI [of _ "pending p"])

lemma redirect_step:
  assumes "info_ok K t info" "failure_fd_ok ffd t info" "fds p = cwd_closed info t" "t ffd = Some e"
  shows "case child_redirect K ffd info p of
      Inl x \<Rightarrow> good_end (ofile e) x
    | Inr p' \<Rightarrow> p' = p\<lparr>fds := redirected (cwd_closed info t) (std_fds info)\<rparr> \<and> fds p' ffd = Some e"
proof -
  obtain s0 s1 s2 where s: "std_fds info = (s0, s1, s2)" by (cases "std_fds info")
  obtain e0 e1 e2 where open_fds: "fds p s0 = Some e0" "fds p s1 = Some e1" "fds p s2 = Some e2"
    using assms(1,3) s by (auto simp: info_ok_def cwd_closed_def split: working_dir.splits)
  have ffd: "fds p ffd = Some e"
    using assms(2,3,4) by (auto simp: failure_fd_ok_def cwd_closed_def split: working_dir.splits)
  have "3 \<le> fd_limit K"
    using assms(1) by (simp add: info_ok_def)
  then consider "child_redirect K ffd info p = Inr (p\<lparr>fds := redirected (fds p) (s0, s1, s2)\<rparr>)"
    | t' where "child_redirect K ffd info p = Inl (subprocess_failure ffd EMFILE ''dup'' NOTHING (p\<lparr>fds := t'\<rparr>))" "keeps (fds p) t'"
    using child_redirect_cases [OF s open_fds] by blast
  then show ?thesis
  proof cases
    case 1
    moreover have "redirected (fds p) (std_fds info) ffd = Some e"
      using assms(2) s ffd by (subst redirected_above) (auto simp: failure_fd_ok_def)
    ultimately show ?thesis
      using s assms(3) by simp
  next
    case 2
    then show ?thesis
      using ffd by (auto simp: keeps_def intro!: good_end_failure)
  qed
qed

text \<open>A program logic for the steps: from a state with \<open>P\<close> a step ends the child well or leaves a state
  with \<open>Q\<close>.\<close>

definition triple :: "nat \<Rightarrow> (proc \<Rightarrow> bool) \<Rightarrow> step \<Rightarrow> (proc \<Rightarrow> bool) \<Rightarrow> bool" where
  "triple w P f Q \<longleftrightarrow> (\<forall>p. P p \<longrightarrow> (case f p of Inl x \<Rightarrow> good_end w x | Inr p' \<Rightarrow> Q p'))"

lemma tripleI: "(\<And>p. P p \<Longrightarrow> case f p of Inl x \<Rightarrow> good_end w x | Inr p' \<Rightarrow> Q p') \<Longrightarrow> triple w P f Q"
  by (simp add: triple_def)

lemma triple_Nil: "triple w P (seqs []) P"
  by (simp add: triple_def)

lemma triple_Cons: "triple w P f Q \<Longrightarrow> triple w Q (seqs fs) R \<Longrightarrow> triple w P (seqs (f # fs)) R"
  by (fastforce simp: triple_def split: sum.splits)

text \<open>The state after the \<open>k\<close>-th statement of \<open>subprocess\<close>, relative to the state \<open>p0\<close> at its start.\<close>

definition stage_fds :: "spawn_info \<Rightarrow> fd_table \<Rightarrow> nat \<Rightarrow> fd_table" where
  "stage_fds info t k =
     (let t4 = cwd_closed info t;
          t5 = redirected t4 (std_fds info);
          t6 = (if landlock_fd info = - 1 then t5 else t5(landlock_fd info := None))
      in if k < 4 then t else if k < 5 then t4 else if k < 6 then t5 else t6)"

definition cwd_reached :: "kernel \<Rightarrow> spawn_info \<Rightarrow> proc \<Rightarrow> nat \<Rightarrow> bool" where
  "cwd_reached K info p0 d \<longleftrightarrow>
     (case si_cwd info of
        INHERIT \<Rightarrow> d = cwd p0
      | PATH path \<Rightarrow> k_chdir K path = Inr d
      | FD fd \<Rightarrow> \<exists>e. fds p0 fd = Some e \<and> k_fchdir K (ofile e) = Inr d)"

definition stage :: "kernel \<Rightarrow> spawn_info \<Rightarrow> proc \<Rightarrow> nat \<Rightarrow> proc \<Rightarrow> bool" where
  "stage K info p0 k p \<longleftrightarrow>
     fds p = stage_fds info (fds p0) k \<and>
     pdeathsig p = (if is_linux K \<and> si_pdeathsig info \<noteq> 0 \<and> 1 \<le> k then si_pdeathsig info else pdeathsig p0) \<and>
     pgid p = (if si_pgid info \<noteq> None \<and> 2 \<le> k then the (si_pgid info) else pgid p0) \<and>
     (3 \<le> k \<longrightarrow> handled p \<inter> {1..<nsig K} = {}) \<and>
     (if 4 \<le> k then cwd_reached K info p0 (cwd p) else cwd p = cwd p0) \<and>
     (6 \<le> k \<and> landlock_fd info \<noteq> - 1 \<longrightarrow> no_new_privs p \<and> landlocked p \<noteq> []) \<and>
     (7 \<le> k \<longrightarrow> sigmask p = child_sigmask info - {9, 19})"

lemma stage_failure_fd:
  assumes "failure_fd_ok ffd t info" "t ffd = Some e"
  shows "stage_fds info t k ffd = Some e"
  using assms by (auto simp: stage_fds_def Let_def failure_fd_ok_def cwd_closed_def redirected_def split: working_dir.splits)

lemma subprocess_stages:
  assumes ok: "info_ok K (fds p0) info" and ffd: "failure_fd_ok ffd (fds p0) info" and e: "fds p0 ffd = Some e"
  shows "triple (ofile e) (stage K info p0 0) (set_parent_death_signal K ffd info) (stage K info p0 1)"
    and "triple (ofile e) (stage K info p0 1) (child_setpgid K ffd info) (stage K info p0 2)"
    and "triple (ofile e) (stage K info p0 2) (child_reset_signals K) (stage K info p0 3)"
    and "triple (ofile e) (stage K info p0 3) (child_chdir K ffd info) (stage K info p0 4)"
    and "triple (ofile e) (stage K info p0 4) (child_redirect K ffd info) (stage K info p0 5)"
    and "triple (ofile e) (stage K info p0 5) (apply_landlock K ffd info) (stage K info p0 6)"
    and "triple (ofile e) (stage K info p0 6) (child_sigmask_step K info) (stage K info p0 7)"
proof -
  have e': "stage K info p0 k p \<Longrightarrow> fds p ffd = Some e" for k p
    using stage_failure_fd [OF ffd e] by (simp add: stage_def)
  show "triple (ofile e) (stage K info p0 0) (set_parent_death_signal K ffd info) (stage K info p0 1)"
    by (rule tripleI, frule e', drule death_signal_step [where K = K and info = info])
      (auto simp: stage_def stage_fds_def split: sum.splits option.splits)
  show "triple (ofile e) (stage K info p0 1) (child_setpgid K ffd info) (stage K info p0 2)"
    by (rule tripleI, frule e', drule setpgid_step [where K = K and info = info])
      (auto simp: stage_def stage_fds_def split: sum.splits option.splits)
  show "triple (ofile e) (stage K info p0 2) (child_reset_signals K) (stage K info p0 3)"
    by (rule tripleI) (auto simp: child_reset_signals_def fold_reset_signals stage_def stage_fds_def)
  show "triple (ofile e) (stage K info p0 3) (child_chdir K ffd info) (stage K info p0 4)"
    by (rule tripleI, frule e', drule chdir_step [where K = K and info = info])
      (auto simp: stage_def stage_fds_def Let_def cwd_reached_def split: sum.splits working_dir.splits)
  show "triple (ofile e) (stage K info p0 4) (child_redirect K ffd info) (stage K info p0 5)"
  proof (rule tripleI)
    fix p assume p: "stage K info p0 4 p"
    then have "fds p = cwd_closed info (fds p0)"
      by (simp add: stage_def stage_fds_def Let_def)
    from redirect_step [OF ok ffd this e] p
    show "case child_redirect K ffd info p of Inl x \<Rightarrow> good_end (ofile e) x | Inr p' \<Rightarrow> stage K info p0 5 p'"
      by (auto simp: stage_def stage_fds_def Let_def split: sum.splits)
  qed
  show "triple (ofile e) (stage K info p0 5) (apply_landlock K ffd info) (stage K info p0 6)"
    by (rule tripleI, frule e', drule landlock_step [where K = K and info = info])
      (auto simp: stage_def stage_fds_def Let_def split: sum.splits if_splits)
  show "triple (ofile e) (stage K info p0 6) (child_sigmask_step K info) (stage K info p0 7)"
  proof (rule tripleI)
    fix p assume "stage K info p0 6 p"
    with sigmask_step [where K = K and info = info and p = p and w = "ofile e"]
    show "case child_sigmask_step K info p of Inl x \<Rightarrow> good_end (ofile e) x | Inr p' \<Rightarrow> stage K info p0 7 p'"
      by (auto simp: stage_def stage_fds_def Let_def split: sum.splits)
  qed
qed

text \<open>The state of the new program, when there is one.\<close>

definition exec_ok :: "kernel \<Rightarrow> spawn_info \<Rightarrow> proc \<Rightarrow> child_end \<Rightarrow> bool" where
  "exec_ok K info p x \<longleftrightarrow>
     (\<exists>q. x = Exec (prog info) (c_strings (argv info)) (c_strings (env info)) (q\<lparr>fds := child_table info (fds p)\<rparr>) \<and>
        stage K info p 7 q \<and> k_execve K (prog info) (c_strings (argv info)) (c_strings (env info)) = None)"

lemma execve_step:
  assumes "fds p ffd = Some e"
  shows "good_end (ofile e) (child_execve K ffd info p) \<or>
    (child_execve K ffd info p = Exec (prog info) (c_strings (argv info)) (c_strings (env info)) (p\<lparr>fds := exec_fds (fds p)\<rparr>) \<and>
     k_execve K (prog info) (c_strings (argv info)) (c_strings (env info)) = None)"
  using assms by (auto simp: child_execve_def intro!: good_end_failure split: option.splits)

lemma subprocess_outcome:
  assumes ok: "info_ok K (fds p) info" and ffd: "failure_fd_ok ffd (fds p) info" and e: "fds p ffd = Some e"
  shows "good_end (ofile e) (subprocess K ffd info p) \<or> exec_ok K info p (subprocess K ffd info p)"
proof -
  let ?steps = "[set_parent_death_signal K ffd info, child_setpgid K ffd info, child_reset_signals K,
    child_chdir K ffd info, child_redirect K ffd info, apply_landlock K ffd info, child_sigmask_step K info]"
  have "triple (ofile e) (stage K info p 0) (seqs ?steps) (stage K info p 7)"
    using subprocess_stages [OF assms] triple_Nil [of "ofile e" "stage K info p 7"]
    by (metis triple_Cons)
  moreover have "stage K info p 0 p"
    by (simp add: stage_def stage_fds_def split: option.split)
  ultimately have s: "case seqs ?steps p of Inl x \<Rightarrow> good_end (ofile e) x | Inr q \<Rightarrow> stage K info p 7 q"
    unfolding triple_def by blast
  show ?thesis
  proof (cases "seqs ?steps p")
    case (Inl x)
    with s show ?thesis
      unfolding subprocess_def by (simp del: seqs_simps)
  next
    case (Inr q)
    with s have q: "stage K info p 7 q" by (simp del: seqs_simps)
    then have "fds q ffd = Some e"
      using stage_failure_fd [OF ffd e] by (simp add: stage_def)
    from execve_step [OF this, of K info] show ?thesis
      using q Inr unfolding subprocess_def exec_ok_def
      by (auto simp: stage_def stage_fds_def child_table_def Let_def simp del: seqs_simps)
  qed
qed

lemma child_table_fds:
  assumes "info_ok K t info" "std_fds info = (s0, s1, s2)"
  shows "child_table info t 0 = map_option (cloexec_update (\<lambda>_. False)) (t s0)"
    "child_table info t 1 = map_option (cloexec_update (\<lambda>_. False)) (t s1)"
    "child_table info t 2 = map_option (cloexec_update (\<lambda>_. False)) (t s2)"
    "fd < 0 \<or> 3 \<le> fd \<Longrightarrow> child_table info t fd =
      (if fd \<in> {s0, s1, s2} \<or> fd = landlock_fd info \<and> fd \<noteq> - 1 \<or> si_cwd info = FD fd then None else exec_fds t fd)"
proof -
  let ?f = "map_option (cloexec_update (\<lambda>_. False)) :: fd_entry option \<Rightarrow> fd_entry option"
  have c: "cwd_closed info t s0 = t s0" "cwd_closed info t s1 = t s1" "cwd_closed info t s2 = t s2"
    using assms by (auto simp: info_ok_def cwd_closed_def split: working_dir.splits)
  have l: "landlock_fd info = - 1 \<or> 3 \<le> landlock_fd info"
    using assms(1) by (auto simp: info_ok_def)
  let ?T = "redirected (cwd_closed info t) (s0, s1, s2)"
  have x: "child_table info t k = ?f (t s)" if "?T k = ?f (t s)" "0 \<le> k" "k < 3" for k s
  proof -
    have "(if landlock_fd info = - 1 then ?T else ?T(landlock_fd info := None)) k = ?f (t s)"
      using l that by auto
    then show ?thesis
      unfolding child_table_def Let_def assms(2) exec_fds_def by (cases "t s") simp_all
  qed
  show "child_table info t 0 = ?f (t s0)" "child_table info t 1 = ?f (t s1)" "child_table info t 2 = ?f (t s2)"
    by (rule x; simp add: redirected_def c)+
  show "child_table info t fd =
      (if fd \<in> {s0, s1, s2} \<or> fd = landlock_fd info \<and> fd \<noteq> - 1 \<or> si_cwd info = FD fd then None else exec_fds t fd)"
    if "fd < 0 \<or> 3 \<le> fd"
  proof -
    have "fd \<noteq> 0" "fd \<noteq> 1" "fd \<noteq> 2"
      using that by auto
    then have T: "?T fd = (if fd \<in> {s0, s1, s2} \<or> si_cwd info = FD fd then None else t fd)"
      by (cases "si_cwd info") (simp_all add: redirected_def cwd_closed_def)
    have "child_table info t fd = (case (if landlock_fd info = - 1 then ?T else ?T(landlock_fd info := None)) fd of
        Some e \<Rightarrow> (if cloexec e then None else Some e) | None \<Rightarrow> None)"
      by (simp only: child_table_def Let_def assms(2) exec_fds_def)
    also have "(if landlock_fd info = - 1 then ?T else ?T(landlock_fd info := None)) fd =
        (if fd = landlock_fd info \<and> fd \<noteq> - 1 then None else ?T fd)"
      by simp
    finally show ?thesis
      unfolding T exec_fds_def by (simp del: insert_iff)
  qed
qed


text \<open>A concrete instance: a kernel that refuses nothing and a request that swaps the standard output
  and the standard error of a shell.\<close>

definition easy_kernel :: kernel where
  "easy_kernel = \<lparr>fd_limit = 16, is_linux = True, has_landlock = True, nsig = 65, k_setpgid = \<lambda>_. None,
     k_chdir = \<lambda>_. Inr 1, k_fchdir = \<lambda>_. Inr 2, k_pdeathsig = None, k_getppid = 1, k_kill = None,
     k_terminates = \<lambda>_. True, k_no_new_privs = None, k_restrict_self = \<lambda>_. None, k_execve = \<lambda>_ _ _. None\<rparr>"

definition plain_proc :: proc where
  "plain_proc = \<lparr>fds = [0 \<mapsto> \<lparr>ofile = 10, cloexec = False\<rparr>, 1 \<mapsto> \<lparr>ofile = 11, cloexec = False\<rparr>,
       2 \<mapsto> \<lparr>ofile = 12, cloexec = False\<rparr>, 3 \<mapsto> \<lparr>ofile = 13, cloexec = True\<rparr>],
     cwd = 0, sigmask = {}, pending = None, handled = {2}, pgid = 1, pdeathsig = 0, no_new_privs = False, landlocked = []\<rparr>"

definition plain_info :: "int \<times> int \<times> int \<Rightarrow> spawn_info" where
  "plain_info s = \<lparr>env = \<lparr>ptrs = [None], mem = []\<rparr>, si_cwd = INHERIT, prog = ''/bin/sh'',
     argv = \<lparr>ptrs = [Some 0, None], mem = ''sh'' @ [NUL]\<rparr>, std_fds = s, si_pgid = None, landlock_fd = - 1,
     si_pdeathsig = 0, parent_pid = 1, child_sigmask = {}\<rparr>"

lemmas plain_defs = easy_kernel_def plain_proc_def plain_info_def

lemma plain_swap_exec:
  "\<exists>q. subprocess easy_kernel 3 (plain_info (0, 2, 1)) plain_proc = Exec ''/bin/sh'' [''sh''] [] q"
  by (simp add: plain_defs subprocess_def set_parent_death_signal_def child_setpgid_def child_reset_signals_def
      fold_reset_signals child_chdir_def child_redirect_def safe_dup_failure_fd_def safe_dup_dupfd dupfd_def lowest_free_def
      upt_rec child_close_def sys_close_def child_dup2_def sys_dup2_def apply_landlock_def child_sigmask_step_def
      child_execve_def c_strings_def c_string_def Let_def)


section \<open>Landlock\<close>

text \<open>The bits of \<open>linux/landlock.h\<close>.\<close>

definition LANDLOCK_ACCESS_FS_WRITE_FILE :: u64 where "LANDLOCK_ACCESS_FS_WRITE_FILE = push_bit 1 1"
definition LANDLOCK_ACCESS_FS_REMOVE_DIR :: u64 where "LANDLOCK_ACCESS_FS_REMOVE_DIR = push_bit 4 1"
definition LANDLOCK_ACCESS_FS_REMOVE_FILE :: u64 where "LANDLOCK_ACCESS_FS_REMOVE_FILE = push_bit 5 1"
definition LANDLOCK_ACCESS_FS_MAKE_CHAR :: u64 where "LANDLOCK_ACCESS_FS_MAKE_CHAR = push_bit 6 1"
definition LANDLOCK_ACCESS_FS_MAKE_DIR :: u64 where "LANDLOCK_ACCESS_FS_MAKE_DIR = push_bit 7 1"
definition LANDLOCK_ACCESS_FS_MAKE_REG :: u64 where "LANDLOCK_ACCESS_FS_MAKE_REG = push_bit 8 1"
definition LANDLOCK_ACCESS_FS_MAKE_SOCK :: u64 where "LANDLOCK_ACCESS_FS_MAKE_SOCK = push_bit 9 1"
definition LANDLOCK_ACCESS_FS_MAKE_FIFO :: u64 where "LANDLOCK_ACCESS_FS_MAKE_FIFO = push_bit 10 1"
definition LANDLOCK_ACCESS_FS_MAKE_BLOCK :: u64 where "LANDLOCK_ACCESS_FS_MAKE_BLOCK = push_bit 11 1"
definition LANDLOCK_ACCESS_FS_MAKE_SYM :: u64 where "LANDLOCK_ACCESS_FS_MAKE_SYM = push_bit 12 1"
definition LANDLOCK_ACCESS_FS_REFER :: u64 where "LANDLOCK_ACCESS_FS_REFER = push_bit 13 1"
definition LANDLOCK_ACCESS_FS_TRUNCATE :: u64 where "LANDLOCK_ACCESS_FS_TRUNCATE = push_bit 14 1"

lemmas landlock_bits = LANDLOCK_ACCESS_FS_WRITE_FILE_def LANDLOCK_ACCESS_FS_REMOVE_DIR_def LANDLOCK_ACCESS_FS_REMOVE_FILE_def
  LANDLOCK_ACCESS_FS_MAKE_CHAR_def LANDLOCK_ACCESS_FS_MAKE_DIR_def LANDLOCK_ACCESS_FS_MAKE_REG_def LANDLOCK_ACCESS_FS_MAKE_SOCK_def
  LANDLOCK_ACCESS_FS_MAKE_FIFO_def LANDLOCK_ACCESS_FS_MAKE_BLOCK_def LANDLOCK_ACCESS_FS_MAKE_SYM_def LANDLOCK_ACCESS_FS_REFER_def
  LANDLOCK_ACCESS_FS_TRUNCATE_def

definition landlock_write_access_rights :: "int \<Rightarrow> u64" where
  "landlock_write_access_rights abi =
     (let access = LANDLOCK_ACCESS_FS_WRITE_FILE OR LANDLOCK_ACCESS_FS_REMOVE_DIR OR LANDLOCK_ACCESS_FS_REMOVE_FILE OR
            LANDLOCK_ACCESS_FS_MAKE_CHAR OR LANDLOCK_ACCESS_FS_MAKE_DIR OR LANDLOCK_ACCESS_FS_MAKE_REG OR
            LANDLOCK_ACCESS_FS_MAKE_SOCK OR LANDLOCK_ACCESS_FS_MAKE_FIFO OR LANDLOCK_ACCESS_FS_MAKE_BLOCK OR
            LANDLOCK_ACCESS_FS_MAKE_SYM;
          access = (if 2 \<le> abi then access OR LANDLOCK_ACCESS_FS_REFER else access);
          access = (if 3 \<le> abi then access OR LANDLOCK_ACCESS_FS_TRUNCATE else access)
      in access)"

text \<open>The four stubs; \<open>r\<close> is what the system call answers.\<close>

definition dune_spawn_landlock_abi_version :: "bool \<Rightarrow> errno + int \<Rightarrow> exn + int" where
  "dune_spawn_landlock_abi_version has r =
     (if has then
        case r of
          Inl err \<Rightarrow> (if err \<in> {ENOSYS, EOPNOTSUPP, EINVAL} then Inr 0 else Inl (Unix_error err ''landlock_create_ruleset'' []))
        | Inr abi \<Rightarrow> Inr abi
      else Inr 0)"

definition dune_spawn_landlock_write_access_rights :: "bool \<Rightarrow> int \<Rightarrow> u64" where
  "dune_spawn_landlock_write_access_rights has abi = (if has then landlock_write_access_rights abi else 0)"

definition dune_spawn_landlock_create_ruleset :: "bool \<Rightarrow> (u64 \<Rightarrow> errno + int) \<Rightarrow> u64 \<Rightarrow> exn + int" where
  "dune_spawn_landlock_create_ruleset has sys handled_access =
     (if has then
        case sys handled_access of
          Inl err \<Rightarrow> Inl (Unix_error err ''landlock_create_ruleset'' [])
        | Inr ruleset_fd \<Rightarrow> Inr ruleset_fd
      else Inl (Unix_error ENOSYS ''landlock_create_ruleset'' []))"

definition dune_spawn_landlock_add_rule ::
    "bool \<Rightarrow> (int \<Rightarrow> int \<Rightarrow> u64 \<Rightarrow> errno option) \<Rightarrow> int \<Rightarrow> int \<Rightarrow> u64 \<Rightarrow> exn + unit" where
  "dune_spawn_landlock_add_rule has sys ruleset_fd parent_fd allowed_access =
     (if has then
        case sys ruleset_fd parent_fd allowed_access of
          Some err \<Rightarrow> Inl (Unix_error err ''landlock_add_rule'' [])
        | None \<Rightarrow> Inr ()
      else Inl (Unix_error ENOSYS ''landlock_add_rule'' []))"

definition dune_spawn_landlock_restrict_self :: "kernel \<Rightarrow> int \<Rightarrow> proc \<Rightarrow> (exn + unit) \<times> proc" where
  "dune_spawn_landlock_restrict_self K ruleset_fd p =
     (if has_landlock K then
        case k_no_new_privs K of
          Some err \<Rightarrow> (Inl (Unix_error err ''prctl'' []), p)
        | None \<Rightarrow>
            let p = p\<lparr>no_new_privs := True\<rparr>
            in case fds p ruleset_fd of
                 None \<Rightarrow> (Inl (Unix_error EBADF ''landlock_restrict_self'' []), p)
               | Some e \<Rightarrow>
                   (case k_restrict_self K (ofile e) of
                      Some err \<Rightarrow> (Inl (Unix_error err ''landlock_restrict_self'' []), p)
                    | None \<Rightarrow> (Inr (), p\<lparr>landlocked := ofile e # landlocked p\<rparr>))
      else (Inl (Unix_error ENOSYS ''landlock_restrict_self'' []), p))"

text \<open>The write rights of an ABI version: they grow with the version, stay the same from version
  3 on, and no version handles a right its kernel does not know (the rights of version 1 are the bits
  below 13, version 2 adds bit 13 and version 3 bit 14), so that the ruleset is accepted; reading and
  executing (bits 0, 2 and 3) are never restricted.\<close>

theorem landlock_rights:
  "(abi \<le> abi' \<longrightarrow> landlock_write_access_rights abi AND landlock_write_access_rights abi' = landlock_write_access_rights abi) \<and>
   (3 \<le> abi \<longrightarrow> landlock_write_access_rights abi = landlock_write_access_rights 3) \<and>
   drop_bit (if abi \<le> 1 then 13 else if abi = 2 then 14 else 15) (landlock_write_access_rights abi) = 0 \<and>
   landlock_write_access_rights abi AND 0b1101 = 0"
  by (auto simp: landlock_write_access_rights_def landlock_bits Let_def)

theorem landlock_rights_witness:
  "landlock_write_access_rights 1 AND landlock_write_access_rights 4 = landlock_write_access_rights 1"
  using landlock_rights [of 1 4] by simp

end
