(* ===== verification/Spawn.thy ===== *)
theory Spawn
  imports Spawn_Child
begin

text \<open>
  The parent side of \<open>spawn_stubs.c\<close>: filling \<open>struct spawn_info\<close> from the OCaml arguments, starting the
  child with \<open>fork\<close> or \<open>vfork\<close> and reading its error record from a pipe, the \<open>posix_spawn\<close> variant of macOS,
  the Windows variant, and the bytecode wrappers. Memory that is still allocated when a function
  returns or raises is part of its result.
\<close>

section \<open>Arguments\<close>

record spawn_args =
  a_env :: "(string \<times> string) list option"
  a_cwd :: working_dir
  a_prog :: string
  a_argv0 :: string
  a_args :: "string list"
  a_stdin :: int
  a_stdout :: int
  a_stderr :: int
  a_use_vfork :: bool
  a_setpgid :: "int option"
  a_sigprocmask :: "(int \<times> int list) option"
  a_landlock_fd :: "int option"
  a_pdeathsig :: int

text \<open>What the parent takes from its surroundings: the allocator, the strings of \<open>environ\<close>, the signal
  numbers of the OCaml runtime, its process identifier.\<close>

record parent_env =
  alloc :: allocator
  environ :: "string list"
  convert_signal_number :: "int \<Rightarrow> int"
  getpid :: int

datatype chunk = Cwd_path | Prog_string | Argv_block | Env_block

definition strdup :: "allocator \<Rightarrow> string \<Rightarrow> string option" where
  "strdup A s = (if malloc_ok A (length (c_string s) + 1) then Some (c_string s) else None)"

definition CAML_SIG_SETMASK :: int where "CAML_SIG_SETMASK = 0"
definition CAML_SIG_BLOCK :: int where "CAML_SIG_BLOCK = 1"
definition CAML_SIG_UNBLOCK :: int where "CAML_SIG_UNBLOCK = 2"

definition init_sigmask :: "parent_env \<Rightarrow> int set \<Rightarrow> (int \<times> int list) option \<Rightarrow> exn + int set" where
  "init_sigmask E current sigprocmask =
     (case sigprocmask of
        None \<Rightarrow> Inr {}
      | Some (command, signals) \<Rightarrow>
          if command = CAML_SIG_SETMASK then
            Inr (fold (\<lambda>s m. insert (convert_signal_number E s) m) signals {})
          else if command = CAML_SIG_BLOCK then
            Inr (fold (\<lambda>s m. insert (convert_signal_number E s) m) signals current)
          else if command = CAML_SIG_UNBLOCK then
            Inr (fold (\<lambda>s m. m - {convert_signal_number E s}) signals current)
          else Inl (Failure ''Unknown sigprocmask action''))"

definition init_cwd :: "allocator \<Rightarrow> working_dir \<Rightarrow> exn + (working_dir \<times> chunk list)" where
  "init_cwd A w =
     (case w of
        INHERIT \<Rightarrow> Inr (INHERIT, [])
      | PATH s \<Rightarrow> (case strdup A s of None \<Rightarrow> Inl Out_of_memory | Some path \<Rightarrow> Inr (PATH path, [Cwd_path]))
      | FD fd \<Rightarrow> Inr (FD fd, []))"

text \<open>\<open>init_spawn_info\<close>: the result or the exception, with the chunks that are allocated then.\<close>

definition init_spawn_info :: "kernel \<Rightarrow> parent_env \<Rightarrow> proc \<Rightarrow> spawn_args \<Rightarrow> (exn + spawn_info) \<times> chunk list" where
  "init_spawn_info K E p a =
     (case init_cwd (alloc E) (a_cwd a) of
        Inl e \<Rightarrow> (Inl e, [])
      | Inr (w, m) \<Rightarrow>
     (case strdup (alloc E) (a_prog a) of
        None \<Rightarrow> (Inl Out_of_memory, m)
      | Some pr \<Rightarrow>
     (case alloc_string_array (alloc E) (a_argv0 a) (a_args a) of
        Inl e \<Rightarrow> (Inl e, m @ [Prog_string])
      | Inr av \<Rightarrow>
     (case (case a_env a of
              Some v \<Rightarrow> alloc_env_list (alloc E) v
            | None \<Rightarrow> copy_c_string_array (alloc E) (environ E)) of
        Inl e \<Rightarrow> (Inl e, m @ [Prog_string, Argv_block])
      | Inr en \<Rightarrow>
     (case init_sigmask E (sigmask p) (a_sigprocmask a) of
        Inl e \<Rightarrow> (Inl e, m @ [Prog_string, Argv_block, Env_block])
      | Inr sigs \<Rightarrow>
          (Inr \<lparr>env = en, si_cwd = w, prog = pr, argv = av,
              std_fds = (a_stdin a, a_stdout a, a_stderr a),
              si_pgid = a_setpgid a,
              landlock_fd = (case a_landlock_fd a of Some fd \<Rightarrow> fd | None \<Rightarrow> - 1),
              si_pdeathsig = (if is_linux K then if a_pdeathsig a = 0 then 0 else convert_signal_number E (a_pdeathsig a) else 0),
              parent_pid = (if is_linux K then getpid E else 0),
              child_sigmask = sigs\<rparr>,
           m @ [Prog_string, Argv_block, Env_block]))))))"

definition free_spawn_info :: "spawn_info \<Rightarrow> chunk list \<Rightarrow> chunk list" where
  "free_spawn_info info m =
     (let m = (case si_cwd info of PATH _ \<Rightarrow> remove1 Cwd_path m | _ \<Rightarrow> m)
      in remove1 Env_block (remove1 Argv_block (remove1 Prog_string m)))"

section \<open>Starting a process with fork\<close>

definition raise_subprocess_failure :: "failure_struct \<Rightarrow> working_dir \<Rightarrow> string \<Rightarrow> exn" where
  "raise_subprocess_failure failure v_cwd v_prog =
     (let a = (case arg failure of
                 NOTHING \<Rightarrow> []
               | CWD \<Rightarrow> (case v_cwd of PATH s \<Rightarrow> s | _ \<Rightarrow> [])
               | PROG \<Rightarrow> v_prog)
      in Unix_error (error failure) (c_string (func failure)) a)"

text \<open>The answers the parent gets: the pipe's two open files, whether \<open>fork\<close> fails, and what \<open>read\<close> answers
  before the pipe does: an error, or (\<open>Inr ()\<close>) a number of bytes that is neither 0 nor the size of the
  record.\<close>

record fork_env =
  pipe_ends :: "nat \<times> nat"
  k_fork :: "errno + int"
  k_reads :: "(errno + unit) list"

text \<open>The outcome of \<open>dune_spawn_unix\<close>.\<close>

datatype spawn_result = Pid int | Raised exn | Assertion_failed | Undefined_behaviour

record spawn_out =
  result :: spawn_result
  parent :: proc
  leaked :: "chunk list"
  child :: "child_end option"
  reaped :: bool

text \<open>What the pipe delivers once the parent has closed its write end: the record if the child wrote one
  to it, the end of the file if no process holds the write end any more. A program that still holds it
  would block the reader: \<open>None\<close>.\<close>

definition pipe_delivers :: "nat \<Rightarrow> child_end \<Rightarrow> failure_struct option option" where
  "pipe_delivers w c =
     (case c of
        Exit127 (Some (f, failure)) \<Rightarrow> Some (if f = w then Some failure else None)
      | Exec pr av en q \<Rightarrow> (if \<exists>fd \<in> dom (fds q). ofile (the (fds q fd)) = w then None else Some None)
      | _ \<Rightarrow> Some None)"

text \<open>The \<open>do ... while\<close> loop over \<open>read\<close> and the handling of its result: \<open>None\<close> if it blocks, otherwise the
  failure to raise, if any, where the inner option is a failed assertion.\<close>

fun read_failure :: "(errno + unit) list \<Rightarrow> failure_struct option option \<Rightarrow> failure_struct option option option" where
  "read_failure [] pipe_data =
     (case pipe_data of None \<Rightarrow> None | Some None \<Rightarrow> Some None | Some (Some failure) \<Rightarrow> Some (Some (Some failure)))"
| "read_failure (Inl err # rs) pipe_data =
     (if err = EINTR then read_failure rs pipe_data else Some (Some (set_error err ''read'' NOTHING)))"
| "read_failure (Inr _ # rs) pipe_data = Some (Some (set_error EINVAL ''read'' NOTHING))"

definition dune_spawn_unix_fork ::
    "kernel \<Rightarrow> parent_env \<Rightarrow> fork_env \<Rightarrow> proc \<Rightarrow> spawn_args \<Rightarrow> spawn_out option" where
  "dune_spawn_unix_fork K E F p a =
     (case init_spawn_info K E p a of
        (Inl e, m) \<Rightarrow> Some \<lparr>result = Raised e, parent = p, leaked = m, child = None, reaped = False\<rparr>
      | (Inr info, m) \<Rightarrow>
     (case safe_pipe (fd_limit K) (pipe_ends F) (fds p) of
        (Inl err, t) \<Rightarrow>
          Some \<lparr>result = Raised (Unix_error err ''pipe'' []), parent = p\<lparr>fds := t\<rparr>, leaked = free_spawn_info info m,
            child = None, reaped = False\<rparr>
      | (Inr (r, w), t) \<Rightarrow>
          let saved_procmask = sigmask p;
              p = p\<lparr>fds := t, sigmask := all_signals K\<rparr>;
              c = (case k_fork F of
                     Inl _ \<Rightarrow> None
                   | Inr _ \<Rightarrow> Some (subprocess K w info (p\<lparr>fds := sys_close (fds p) r\<rparr>)));
              m = free_spawn_info info m;
              p = p\<lparr>fds := sys_close (fds p) w\<rparr>;
              got = (case k_fork F of
                       Inl errno_after_forking \<Rightarrow> Some (Some (set_error errno_after_forking ''vfork'' NOTHING))
                     | Inr _ \<Rightarrow> read_failure (k_reads F) (pipe_delivers (snd (pipe_ends F)) (the c)));
              p = p\<lparr>fds := sys_close (fds p) r, sigmask := saved_procmask\<rparr>
          in case got of
               None \<Rightarrow> None
             | Some g \<Rightarrow>
                 Some \<lparr>result =
                     (case g of
                        None \<Rightarrow> (case k_fork F of Inr pid \<Rightarrow> Pid pid | Inl _ \<Rightarrow> Pid (- 1))
                      | Some None \<Rightarrow> Assertion_failed
                      | Some (Some failure) \<Rightarrow> Raised (raise_subprocess_failure failure (a_cwd a) (a_prog a))),
                   parent = p, leaked = m, child = c, reaped = (c \<noteq> None \<and> g \<noteq> None)\<rparr>))"

section \<open>Starting a process with posix\_spawn\<close>

datatype file_action = Dup2 int int | Close int

text \<open>The answers of the \<open>posix_spawn\<close> family, \<open>None\<close> for success; \<open>q_ignored\<close> are the signals the parent
  ignores, which stay ignored in the new program.\<close>

record posix_env =
  q_actions_init :: "errno option"
  q_attr_init :: "errno option"
  q_setflags :: "errno option"
  q_setsigmask :: "errno option"
  q_setpgroup :: "errno option"
  q_adddup2 :: "int \<Rightarrow> errno option"
  q_addclose :: "int \<Rightarrow> errno option"
  q_fork :: "errno + int"
  q_ignored :: "int set"

fun run_actions :: "nat \<Rightarrow> fd_table \<Rightarrow> file_action list \<Rightarrow> errno + fd_table" where
  "run_actions lim t [] = Inr t"
| "run_actions lim t (Dup2 old new # acts) =
     (case sys_dup2 lim t old new of (Inl err, _) \<Rightarrow> Inl err | (Inr _, t) \<Rightarrow> run_actions lim t acts)"
| "run_actions lim t (Close fd # acts) = run_actions lim (sys_close t fd) acts"

text \<open>\<open>posix_spawn\<close> itself: the file actions and the attributes are applied in the new process, then the
  program is started; an error at any point is the result of the call.\<close>

definition sys_posix_spawn ::
    "kernel \<Rightarrow> posix_env \<Rightarrow> spawn_info \<Rightarrow> file_action list \<Rightarrow> nat \<Rightarrow> proc \<Rightarrow> errno + (int \<times> child_end)" where
  "sys_posix_spawn K Q info acts dir p =
     (case q_fork Q of
        Inl err \<Rightarrow> Inl err
      | Inr pid \<Rightarrow>
          (case run_actions (fd_limit K) (fds p) acts of
             Inl err \<Rightarrow> Inl err
           | Inr t \<Rightarrow>
               (case k_execve K (prog info) (c_strings (argv info)) (c_strings (env info)) of
                  Some err \<Rightarrow> Inl err
                | None \<Rightarrow>
                    Inr (pid, Exec (prog info) (c_strings (argv info)) (c_strings (env info))
                      (p\<lparr>fds := exec_fds t, cwd := dir, sigmask := child_sigmask info - {9, 19},
                         handled := handled p \<inter> q_ignored Q,
                         pgid := (case si_pgid info of Some g \<Rightarrow> g | None \<Rightarrow> pgid p)\<rparr>)))))"

text \<open>The loop that duplicates the three descriptors and records the file actions. \<open>tmp_fds\<close> holds what
  the loop stored so far; a failed \<open>safe_dup\<close> stores -1.\<close>

fun posix_dups :: "kernel \<Rightarrow> posix_env \<Rightarrow> (int \<times> int) list \<Rightarrow> fd_table \<Rightarrow> int list \<Rightarrow> file_action list \<Rightarrow>
    (errno \<times> string) option \<times> fd_table \<times> int list \<times> file_action list" where
  "posix_dups K Q [] t tmp_fds acts = (None, t, tmp_fds, acts)"
| "posix_dups K Q ((fd, std_fd) # rest) t tmp_fds acts =
     (case safe_dup (fd_limit K) t std_fd of
        (Inl err, t) \<Rightarrow> (Some (err, ''dup''), t, tmp_fds @ [- 1], acts)
      | (Inr tmp_fd, t) \<Rightarrow>
          let tmp_fds = tmp_fds @ [tmp_fd]
          in case q_adddup2 Q fd of
               Some err \<Rightarrow> (Some (err, ''posix_spawn_file_actions_adddup2''), t, tmp_fds, acts)
             | None \<Rightarrow>
                 (let acts = acts @ [Dup2 tmp_fd fd]
                  in case q_addclose Q fd of
                       Some err \<Rightarrow> (Some (err, ''posix_spawn_file_actions_addclose''), t, tmp_fds, acts)
                     | None \<Rightarrow> posix_dups K Q rest t tmp_fds (acts @ [Close tmp_fd])))"

text \<open>The attributes: flags, signal mask, process group.\<close>

definition posix_attributes :: "posix_env \<Rightarrow> spawn_info \<Rightarrow> (errno \<times> string) option" where
  "posix_attributes Q info =
     (case q_setflags Q of
        Some err \<Rightarrow> Some (err, ''posix_spawnattr_setflags'')
      | None \<Rightarrow>
     (case q_setsigmask Q of
        Some err \<Rightarrow> Some (err, ''posix_spawnattr_setsigmask'')
      | None \<Rightarrow>
          if si_pgid info \<noteq> None
          then map_option (\<lambda>err. (err, ''posix_spawnattr_setpgroup'')) (q_setpgroup Q)
          else None))"

text \<open>The directory of the thread: \<open>None\<close> while it follows the process.\<close>

definition posix_chdir :: "kernel \<Rightarrow> spawn_info \<Rightarrow> proc \<Rightarrow> working_dir \<Rightarrow> (errno \<times> string \<times> string) + nat option" where
  "posix_chdir K info p v_cwd =
     (case si_cwd info of
        INHERIT \<Rightarrow> Inr None
      | PATH path \<Rightarrow>
          (case k_chdir K path of
             Inl err \<Rightarrow> Inl (err, ''__pthread_chdir'', (case v_cwd of PATH s \<Rightarrow> s | _ \<Rightarrow> []))
           | Inr d \<Rightarrow> Inr (Some d))
      | FD fd \<Rightarrow>
          (case (case fds p fd of None \<Rightarrow> Inl EBADF | Some e \<Rightarrow> k_fchdir K (ofile e)) of
             Inl err \<Rightarrow> Inl (err, ''__pthread_fchdir'', [])
           | Inr d \<Rightarrow> Inr (Some d)))"

text \<open>Everything between the initialisation and the label \<open>cleanup\<close>: the error or the process, the
  table, the temporary descriptors, and the directory of the thread.\<close>

definition posix_attempt :: "kernel \<Rightarrow> posix_env \<Rightarrow> spawn_info \<Rightarrow> proc \<Rightarrow> working_dir \<Rightarrow>
    ((errno \<times> string \<times> string) + (int \<times> child_end)) \<times> fd_table \<times> int list \<times> nat option" where
  "posix_attempt K Q info p v_cwd =
     (case posix_attributes Q info of
        Some (err, f) \<Rightarrow> (Inl (err, f, []), fds p, [], None)
      | None \<Rightarrow>
     (case std_fds info of
        (s0, s1, s2) \<Rightarrow>
     (case posix_dups K Q [(0, s0), (1, s1), (2, s2)] (fds p) [] [] of
        (Some (err, f), t, tmp_fds, acts) \<Rightarrow> (Inl (err, f, []), t, tmp_fds, None)
      | (None, t, tmp_fds, acts) \<Rightarrow>
          let p = p\<lparr>fds := t\<rparr>
          in case posix_chdir K info p v_cwd of
               Inl e \<Rightarrow> (Inl e, t, tmp_fds, None)
             | Inr dir \<Rightarrow>
                 let e_error = sys_posix_spawn K Q info acts (case dir of Some d \<Rightarrow> d | None \<Rightarrow> cwd p) p;
                     dir = (if si_cwd info \<noteq> INHERIT then None else dir)
                 in case e_error of
                      Inl err \<Rightarrow> (Inl (err, ''posix_spawn'', []), t, tmp_fds, dir)
                    | Inr r \<Rightarrow> (Inr r, t, tmp_fds, dir))))"

definition close_tmp_fds :: "fd_table \<Rightarrow> int list \<Rightarrow> fd_table" where
  "close_tmp_fds t tmp_fds = fold (\<lambda>fd t. if 2 < fd then sys_close t fd else t) tmp_fds t"

definition dune_spawn_unix_posix ::
    "kernel \<Rightarrow> parent_env \<Rightarrow> posix_env \<Rightarrow> proc \<Rightarrow> spawn_args \<Rightarrow> spawn_out \<times> nat option" where
  "dune_spawn_unix_posix K E Q p a =
     (if q_actions_init Q \<noteq> None \<or> q_attr_init Q \<noteq> None then
        (\<lparr>result = Undefined_behaviour, parent = p, leaked = [], child = None, reaped = False\<rparr>, None)
      else
        case init_spawn_info K E p a of
          (Inl e, m) \<Rightarrow> (\<lparr>result = Raised e, parent = p, leaked = m, child = None, reaped = False\<rparr>, None)
        | (Inr info, m) \<Rightarrow>
            (case posix_attempt K Q info p (a_cwd a) of
               (r, t, tmp_fds, dir) \<Rightarrow>
                 let p = p\<lparr>fds := close_tmp_fds t tmp_fds\<rparr>;
                     m = free_spawn_info info m
                 in case r of
                      Inl (err, f, e_arg) \<Rightarrow>
                        (\<lparr>result = Raised (Unix_error err f e_arg), parent = p, leaked = m, child = None, reaped = False\<rparr>, dir)
                    | Inr (pid, c) \<Rightarrow>
                        (\<lparr>result = Pid pid, parent = p, leaked = m, child = Some c, reaped = False\<rparr>, dir)))"

section \<open>Windows, and the bytecode wrappers\<close>

text \<open>On Unix the Windows entry point only raises, and the other way round.\<close>

definition dune_spawn_windows_on_unix :: "exn + int" where
  "dune_spawn_windows_on_unix = Inl (Unix_error ENOSYS ''spawn_windows'' [])"

definition dune_spawn_unix_on_windows :: "exn + int" where
  "dune_spawn_unix_on_windows = Inl (Unix_error ENOSYS ''spawn_unix'' [])"

text \<open>Handles are numbers and the list \<open>hs\<close> holds those of this process. \<open>w_dup\<close> answers a new handle for one of
  the three standard ones, \<open>w_create\<close> the handles of the new process and of its thread; strings are
  converted to UTF-16 up to their first NUL, the environment block as a whole.\<close>

record win_env =
  w_dup :: "nat \<Rightarrow> errno + nat"
  w_utf16 :: "string \<Rightarrow> nat list"
  w_create :: "nat list \<Rightarrow> nat list \<Rightarrow> nat list option \<Rightarrow> nat list option \<Rightarrow> errno + nat \<times> nat"

record win_args =
  w_env :: "string option"
  w_cwd :: "string option"
  w_prog :: string
  w_cmdline :: string
  w_std :: "nat \<times> nat \<times> nat"

definition dup2_and_clear_close_on_exec :: "win_env \<Rightarrow> nat \<Rightarrow> nat list \<Rightarrow> (errno + nat) \<times> nat list" where
  "dup2_and_clear_close_on_exec W fd hs =
     (case w_dup W fd of Inl err \<Rightarrow> (Inl err, hs) | Inr h \<Rightarrow> (Inr h, h # hs))"

definition close_std_handles :: "nat option \<times> nat option \<times> nat option \<Rightarrow> nat list \<Rightarrow> nat list" where
  "close_std_handles si hs =
     (case si of (i, out, err) \<Rightarrow>
        let hs = (case i of Some h \<Rightarrow> remove1 h hs | None \<Rightarrow> hs);
            hs = (case out of Some h \<Rightarrow> remove1 h hs | None \<Rightarrow> hs);
            hs = (case err of Some h \<Rightarrow> remove1 h hs | None \<Rightarrow> hs)
        in hs)"

definition dune_spawn_windows :: "win_env \<Rightarrow> win_args \<Rightarrow> nat list \<Rightarrow> (exn + nat) \<times> nat list" where
  "dune_spawn_windows W a hs =
     (case w_std a of (v_stdin, v_stdout, v_stderr) \<Rightarrow>
     (case dup2_and_clear_close_on_exec W v_stdin hs of
        (Inl err, hs) \<Rightarrow> (Inl (Unix_error err ''DuplicateHandle'' []), close_std_handles (None, None, None) hs)
      | (Inr i, hs) \<Rightarrow>
     (case dup2_and_clear_close_on_exec W v_stdout hs of
        (Inl err, hs) \<Rightarrow> (Inl (Unix_error err ''DuplicateHandle'' []), close_std_handles (Some i, None, None) hs)
      | (Inr out, hs) \<Rightarrow>
     (case dup2_and_clear_close_on_exec W v_stderr hs of
        (Inl err, hs) \<Rightarrow> (Inl (Unix_error err ''DuplicateHandle'' []), close_std_handles (Some i, Some out, None) hs)
      | (Inr errh, hs) \<Rightarrow>
          let prog = w_utf16 W (c_string (w_prog a));
              cmdline = w_utf16 W (c_string (w_cmdline a));
              env = map_option (w_utf16 W) (w_env a);
              cwd = map_option (\<lambda>s. w_utf16 W (c_string s)) (w_cwd a);
              si = (Some i, Some out, Some errh)
          in case w_create W prog cmdline env cwd of
               Inl err \<Rightarrow> (Inl (Unix_error err ''CreateProcess'' []), close_std_handles si hs)
             | Inr (process, thread) \<Rightarrow>
                 (Inr process, remove1 thread (close_std_handles si (thread # process # hs)))))))"

text \<open>The bytecode entry points unpack the array of their arguments.\<close>

definition dune_spawn_unix_byte where
  "dune_spawn_unix_byte f args =
     f (args ! 0) (args ! 1) (args ! 2) (args ! 3) (args ! 4) (args ! 5) (args ! 6) (args ! 7) (args ! 8)
       (args ! 9) (args ! 10) (args ! 11) (args ! 12)"

definition dune_spawn_windows_byte where
  "dune_spawn_windows_byte f args =
     f (args ! 0) (args ! 1) (args ! 2) (args ! 3) (args ! 4) (args ! 5) (args ! 6)"

section \<open>Arguments of the child\<close>

lemma fold_insert_signals: "fold (\<lambda>s m. insert (f s) m) ss m = m \<union> f ` set ss"
  by (induction ss arbitrary: m) auto

lemma fold_remove_signals: "fold (\<lambda>s m. m - {f s}) ss m = m - f ` set ss"
  by (induction ss arbitrary: m) auto

text \<open>The signal mask of the child: empty without a request, the given set for \<open>SIG_SETMASK\<close>, the mask
  of the caller with the set added or removed for \<open>SIG_BLOCK\<close> and \<open>SIG_UNBLOCK\<close>, and an exception for any
  other command.\<close>

theorem child_sigmask_spec:
  "init_sigmask E current req =
     (case req of
        None \<Rightarrow> Inr {}
      | Some (cmd, ss) \<Rightarrow>
          (let S = convert_signal_number E ` set ss
           in if cmd = 0 then Inr S else if cmd = 1 then Inr (current \<union> S) else if cmd = 2 then Inr (current - S)
              else Inl (Failure ''Unknown sigprocmask action'')))"
  by (simp add: init_sigmask_def CAML_SIG_SETMASK_def CAML_SIG_BLOCK_def CAML_SIG_UNBLOCK_def fold_insert_signals
      fold_remove_signals Let_def split: option.split)

lemma init_spawn_info_Inr:
  assumes "init_spawn_info K E p a = (Inr info, m)"
  shows "free_spawn_info info m = []" "std_fds info = (a_stdin a, a_stdout a, a_stderr a)"
    "landlock_fd info = (case a_landlock_fd a of Some fd \<Rightarrow> fd | None \<Rightarrow> - 1)"
    "si_cwd info = (case a_cwd a of PATH s \<Rightarrow> PATH (c_string s) | w \<Rightarrow> w)"
    "prog info = c_string (a_prog a)"
    "alloc_string_array (alloc E) (a_argv0 a) (a_args a) = Inr (argv info)"
    "(case a_env a of Some v \<Rightarrow> alloc_env_list (alloc E) v | None \<Rightarrow> copy_c_string_array (alloc E) (environ E)) = Inr (env info)"
  using assms
  by (auto simp: init_spawn_info_def init_cwd_def strdup_def free_spawn_info_def
      split: sum.splits option.splits if_splits working_dir.splits)

section \<open>The parent is left as it was\<close>

lemma proc_restore: "p\<lparr>fds := t, sigmask := m, fds := t', fds := t'', sigmask := m'\<rparr> = p\<lparr>fds := t'', sigmask := m'\<rparr>"
  by simp

lemma sys_close_commute: "sys_close (sys_close t a) b = sys_close (sys_close t b) a"
  by (auto simp: sys_close_def fun_eq_iff)

lemma pipe_closed_proc:
  assumes "safe_pipe lim ends (fds p) = (Inr (r, w), t)"
  shows "p\<lparr>fds := sys_close (sys_close t w) r\<rparr> = p"
proof -
  have "sys_close (sys_close t w) r = fds p"
    using pipe_closed [of lim True ends "fds p" r w t] assms by (simp add: safe_pipe_def sys_close_commute)
  then show ?thesis
    by simp
qed

text \<open>C9. Whatever happens, \<open>dune_spawn_unix\<close> with \<open>fork\<close> gives the parent back as it was, descriptors and
  signal mask included: both ends of the pipe are closed on every path. Nothing it allocated is left
  unless the arguments themselves could not be built (no memory, or an unknown mask command), and a
  child whose failure is raised has been waited for.\<close>

theorem fork_parent_restored:
  assumes "dune_spawn_unix_fork K E F p a = Some out"
  shows "parent out = p \<and> (leaked out \<noteq> [] \<longrightarrow> (\<exists>e. init_spawn_info K E p a = (Inl e, leaked out) \<and> result out = Raised e)) \<and>
    (child out \<noteq> None \<and> (\<forall>pid. result out \<noteq> Pid pid) \<longrightarrow> reaped out)"
proof (cases "init_spawn_info K E p a")
  case (Pair i m)
  show ?thesis
  proof (cases i)
    case (Inl e)
    then show ?thesis
      using assms Pair by (auto simp: dune_spawn_unix_fork_def)
  next
    case (Inr info)
    note free = init_spawn_info_Inr(1) [OF Pair [unfolded Inr]]
    show ?thesis
    proof (cases "safe_pipe (fd_limit K) (pipe_ends F) (fds p)")
      case pipe: (Pair rw t)
      show ?thesis
      proof (cases rw)
        case (Inl err)
        moreover have "t = fds p"
          using pipe Inl sys_pipe_Inl by (simp add: safe_pipe_def)
        ultimately show ?thesis
          using assms Pair Inr pipe free by (auto simp: dune_spawn_unix_fork_def)
      next
        case rw: (Inr y)
        obtain r w where "y = (r, w)" by (cases y)
        note * = pipe_closed_proc [OF pipe [unfolded rw this]]
        have "p\<lparr>fds := sys_close (sys_close t w) r, sigmask := sigmask p\<rparr> = p"
          using * by simp
        then show ?thesis
          using assms Pair Inr pipe rw free \<open>y = (r, w)\<close>
          by (auto simp: dune_spawn_unix_fork_def Let_def split: option.splits sum.splits)
      qed
    qed
  qed
qed

section \<open>What the parent learns\<close>

lemma info_ok_mono:
  assumes "info_ok K t info" "\<And>fd. t fd \<noteq> None \<Longrightarrow> t' fd \<noteq> None"
  shows "info_ok K t' info"
  using assms by (auto simp: info_ok_def split: prod.splits working_dir.splits)

lemma child_table_origin:
  assumes "info_ok K t info" "std_fds info = (s0, s1, s2)" "child_table info t fd = Some e"
  shows "\<exists>fd' e'. t fd' = Some e' \<and> ofile e' = ofile e \<and> (fd' \<in> {s0, s1, s2} \<or> \<not> cloexec e')"
proof -
  have x: "\<exists>e'. t s = Some e' \<and> ofile e' = ofile e" if "map_option (cloexec_update (\<lambda>_. False)) (t s) = Some e" for s
    using that by auto
  consider "fd = 0" | "fd = 1" | "fd = 2" | "fd < 0 \<or> 3 \<le> fd" by linarith
  then show ?thesis
  proof cases
    case 4
    then have "exec_fds t fd = Some e"
      using child_table_fds(4) [OF assms(1,2)] assms(3) by (simp split: if_splits)
    then show ?thesis
      by (auto simp: exec_fds_def split: option.splits if_splits)
  qed (use child_table_fds(1-3) [OF assms(1,2)] assms(3) x [of s0] x [of s1] x [of s2] in \<open>metis insertCI\<close>)+
qed

text \<open>The child's table: the parent's with the write end of the pipe in a descriptor above 2.\<close>

lemma child_pipe:
  assumes "safe_pipe lim ends (fds p) = (Inr (r, w), t)" "{0, 1, 2} \<subseteq> dom (fds p)"
  shows "sys_close t r = (fds p)(w \<mapsto> \<lparr>ofile = snd ends, cloexec = True\<rparr>)" "3 \<le> w" "fds p w = None"
proof -
  note P = sys_pipe_Inr [OF assms(1) [unfolded safe_pipe_def]]
  show "fds p w = None"
    by (rule P)
  then have "w \<noteq> 0" "w \<noteq> 1" "w \<noteq> 2"
    using assms(2) by auto
  with P(5) show "3 \<le> w" by linarith
  show "sys_close t r = (fds p)(w \<mapsto> \<lparr>ofile = snd ends, cloexec = True\<rparr>)"
    using P by (auto simp: sys_close_def)
qed

definition fresh_pipe :: "nat \<times> nat \<Rightarrow> fd_table \<Rightarrow> bool" where
  "fresh_pipe ends t \<longleftrightarrow> (\<forall>fd e. t fd = Some e \<longrightarrow> ofile e \<noteq> fst ends \<and> ofile e \<noteq> snd ends)"

lemma child_failure_fd_ok:
  assumes "info_ok K t info" "t w = None" "3 \<le> w"
  shows "failure_fd_ok w (t(w \<mapsto> e)) info"
  using assms by (auto simp: info_ok_def failure_fd_ok_def split: prod.splits working_dir.splits)

lemma exec_ok_pipe_closed:
  assumes "exec_ok K info p c" "info_ok K t info" "fds p = t(w \<mapsto> \<lparr>ofile = snd ends, cloexec = True\<rparr>)"
    "t w = None" "fresh_pipe ends t"
  shows "pipe_delivers (snd ends) c = Some None"
proof -
  obtain pr av en q where c: "c = Exec pr av en q" "fds q = child_table info (fds p)"
    using assms(1) by (auto simp: exec_ok_def)
  obtain s0 s1 s2 where s: "std_fds info = (s0, s1, s2)" by (cases "std_fds info")
  have ok: "info_ok K (fds p) info"
    using assms(2,3) by (auto intro: info_ok_mono)
  have "ofile e \<noteq> snd ends" if qe: "fds q fd = Some e" for fd e
  proof -
    obtain fd' e' where e': "fds p fd' = Some e'" "ofile e' = ofile e" "fd' \<in> {s0, s1, s2} \<or> \<not> cloexec e'"
      using child_table_origin [OF ok s, of fd e] qe c(2) by auto
    moreover have "w \<notin> {s0, s1, s2}"
      using assms(2,4) s by (auto simp: info_ok_def)
    ultimately have "t fd' = Some e'"
      using assms(3) by (auto split: if_splits)
    with e'(2) assms(5) show ?thesis
      by (metis fresh_pipe_def)
  qed
  then show ?thesis
    by (auto simp: c(1) pipe_delivers_def)
qed

lemma read_failure_interrupted: "set rs \<subseteq> {Inl EINTR} \<Longrightarrow> read_failure rs d = read_failure [] d"
  by (induction rs) auto

lemma raise_reported:
  assumes "(f, a) \<in> failure_sites"
  shows "raise_subprocess_failure \<lparr>error = err, func = f @ replicate n NUL, arg = a\<rparr> v_cwd v_prog =
    Unix_error err f (case a of NOTHING \<Rightarrow> [] | CWD \<Rightarrow> (case v_cwd of PATH s \<Rightarrow> s | _ \<Rightarrow> []) | PROG \<Rightarrow> v_prog)"
  using failure_sites_names(2) [OF assms] by (simp add: raise_subprocess_failure_def c_string_padded)

text \<open>The result of the call, given the end of the child and that \<open>read\<close> was at most interrupted.\<close>

lemma fork_result:
  assumes "init_spawn_info K E p a = (Inr info, m)" "safe_pipe (fd_limit K) (pipe_ends F) (fds p) = (Inr (r, w), t)"
    "k_fork F = Inr pid" "set (k_reads F) \<subseteq> {Inl EINTR}"
    "pipe_delivers (snd (pipe_ends F)) (subprocess K w info (p\<lparr>sigmask := all_signals K, fds := sys_close t r\<rparr>)) = Some d"
  shows "\<exists>out. dune_spawn_unix_fork K E F p a = Some out \<and>
    child out = Some (subprocess K w info (p\<lparr>sigmask := all_signals K, fds := sys_close t r\<rparr>)) \<and>
    result out = (case d of None \<Rightarrow> Pid pid | Some f \<Rightarrow> Raised (raise_subprocess_failure f (a_cwd a) (a_prog a))) \<and>
    (reaped out \<longleftrightarrow> d \<noteq> None)"
  using assms
  by (auto simp: dune_spawn_unix_fork_def Let_def read_failure_interrupted split: option.splits)

text \<open>C2. If the standard descriptors of the parent are open, the call returns (however often its \<open>read\<close> is
  interrupted, since no program it starts holds the pipe), and it returns the truth: the process
  identifier if the child runs the program in the requested state or was killed by a signal; otherwise
  exactly the error the child met, with the name of the failed call and the directory or program as
  argument, after waiting for the child.\<close>

theorem fork_outcome:
  assumes "{0, 1, 2} \<subseteq> dom (fds p)" "fresh_pipe (pipe_ends F) (fds p)"
    "init_spawn_info K E p a = (Inr info, m)" "info_ok K (fds p) info"
    "safe_pipe (fd_limit K) (pipe_ends F) (fds p) = (Inr (r, w), t)"
    "k_fork F = Inr pid" "set (k_reads F) \<subseteq> {Inl EINTR}"
  shows "\<exists>out c. dune_spawn_unix_fork K E F p a = Some out \<and> child out = Some c \<and>
    (exec_ok K info (p\<lparr>sigmask := all_signals K, fds := sys_close t r\<rparr>) c \<and> result out = Pid pid \<and> \<not> reaped out \<or>
     (\<exists>s. c = Killed s) \<and> result out = Pid pid \<and> \<not> reaped out \<or>
     (\<exists>err f arg. c = reported (snd (pipe_ends F)) err f arg \<and> (f, arg) \<in> failure_sites \<and> reaped out \<and>
        result out = Raised (Unix_error err f (case arg of NOTHING \<Rightarrow> [] | CWD \<Rightarrow> (case a_cwd a of PATH s \<Rightarrow> s | _ \<Rightarrow> []) | PROG \<Rightarrow> a_prog a))))"
proof -
  let ?p = "p\<lparr>sigmask := all_signals K, fds := sys_close t r\<rparr>"
  let ?c = "subprocess K w info ?p"
  note C = child_pipe [OF assms(5,1)]
  have ok: "info_ok K (fds ?p) info"
    using assms(4) by (rule info_ok_mono) (simp add: C(1))
  have ffd: "failure_fd_ok w (fds ?p) info"
    using child_failure_fd_ok [OF assms(4) C(3,2)] C(1) by simp
  have w: "fds ?p w = Some \<lparr>ofile = snd (pipe_ends F), cloexec = True\<rparr>"
    by (simp add: C(1))
  consider "exec_ok K info ?p ?c" | s where "?c = Killed s"
    | err f a' where "?c = reported (snd (pipe_ends F)) err f a'" "(f, a') \<in> failure_sites"
    using subprocess_outcome [OF ok ffd w] by (auto simp: good_end_def)
  then show ?thesis
  proof cases
    case 1
    have "pipe_delivers (snd (pipe_ends F)) ?c = Some None"
      using exec_ok_pipe_closed [OF 1 assms(4) _ C(3) assms(2)] C(1) by simp
    from fork_result [OF assms(3,5,6,7) this] 1 show ?thesis
      by auto
  next
    case 2
    then have "pipe_delivers (snd (pipe_ends F)) ?c = Some None"
      by (simp add: pipe_delivers_def)
    from fork_result [OF assms(3,5,6,7) this] 2 show ?thesis
      by auto
  next
    case 3
    then have "pipe_delivers (snd (pipe_ends F)) ?c =
        Some (Some \<lparr>error = err, func = f @ replicate (32 - length f) NUL, arg = a'\<rparr>)"
      by (simp add: pipe_delivers_def reported_def)
    from fork_result [OF assms(3,5,6,7) this] 3 show ?thesis
      by (auto simp: raise_reported)
  qed
qed

text \<open>Concrete arguments: a shell with the descriptors of its parent.\<close>

definition plain_args :: "int \<times> int \<times> int \<Rightarrow> spawn_args" where
  "plain_args s = \<lparr>a_env = Some [(''A'', ''b'')], a_cwd = INHERIT, a_prog = ''/bin/sh'', a_argv0 = ''sh'', a_args = [''-c''],
     a_stdin = fst s, a_stdout = fst (snd s), a_stderr = snd (snd s), a_use_vfork = True, a_setpgid = None,
     a_sigprocmask = None, a_landlock_fd = None, a_pdeathsig = 0\<rparr>"

definition plain_env :: parent_env where
  "plain_env = \<lparr>alloc = \<lparr>malloc_ok = \<lambda>_. True, junk = \<lambda>_. []\<rparr>, environ = [], convert_signal_number = id, getpid = 1\<rparr>"

definition plain_fork :: "errno + int \<Rightarrow> fork_env" where
  "plain_fork r = \<lparr>pipe_ends = (20, 21), k_fork = r, k_reads = [Inl EINTR]\<rparr>"

lemma malloc_always: "malloc_ok A n \<Longrightarrow> malloc A k n \<noteq> None"
  by (simp add: malloc_def)

lemma alloc_always:
  assumes "\<And>n. malloc_ok A n"
  shows "\<exists>b. alloc_env_list A v = Inr b" "\<exists>b. alloc_string_array A x xs = Inr b"
  using malloc_always [of A] assms
  by (auto simp: alloc_env_list_pack alloc_string_array_pack Let_def split: option.splits)

lemma plain_init:
  "\<exists>av en. init_spawn_info easy_kernel plain_env p (plain_args s) =
     (Inr \<lparr>env = en, si_cwd = INHERIT, prog = ''/bin/sh'', argv = av, std_fds = s, si_pgid = None, landlock_fd = - 1,
        si_pdeathsig = 0, parent_pid = 1, child_sigmask = {}\<rparr>, [Prog_string, Argv_block, Env_block])"
proof -
  have A: "malloc_ok (alloc plain_env) n" for n
    by (simp add: plain_env_def)
  obtain b b' where "alloc_env_list (alloc plain_env) [(''A'', ''b'')] = Inr b" "alloc_string_array (alloc plain_env) ''sh'' [''-c''] = Inr b'"
    using alloc_always [OF A] by metis
  then show ?thesis
    by (simp add: init_spawn_info_def plain_args_def init_cwd_def strdup_def c_string_def init_sigmask_def A easy_kernel_def)
      (simp add: plain_env_def)
qed

lemma plain_fork_refused:
  "\<exists>out. dune_spawn_unix_fork easy_kernel plain_env (plain_fork (Inl EAGAIN)) plain_proc (plain_args (0, 1, 2)) = Some out \<and>
     result out = Raised (Unix_error EAGAIN ''vfork'' [])"
proof -
  obtain info m where i: "init_spawn_info easy_kernel plain_env plain_proc (plain_args (0, 1, 2)) = (Inr info, m)"
    using plain_init by blast
  obtain r w t where t: "safe_pipe (fd_limit easy_kernel) (20, 21) (fds plain_proc) = (Inr (r, w), t)"
    by (simp add: safe_pipe_def sys_pipe_def lowest_free_def upt_rec easy_kernel_def plain_proc_def Let_def)
  show ?thesis
    by (simp add: dune_spawn_unix_fork_def i t plain_fork_def set_error_short raise_subprocess_failure_def c_string_def Let_def)
qed

theorem fork_parent_restored_witness:
  "\<exists>out. dune_spawn_unix_fork easy_kernel plain_env (plain_fork (Inl EAGAIN)) plain_proc (plain_args (0, 1, 2)) = Some out \<and>
     parent out = plain_proc"
  using plain_fork_refused fork_parent_restored [of easy_kernel plain_env "plain_fork (Inl EAGAIN)" plain_proc "plain_args (0, 1, 2)"]
  by blast

theorem fork_outcome_witness:
  "\<exists>out c. dune_spawn_unix_fork easy_kernel plain_env (plain_fork (Inr 42)) plain_proc (plain_args (0, 2, 1)) = Some out \<and>
     child out = Some c"
proof -
  obtain av en m where i: "init_spawn_info easy_kernel plain_env plain_proc (plain_args (0, 2, 1)) =
     (Inr \<lparr>env = en, si_cwd = INHERIT, prog = ''/bin/sh'', argv = av, std_fds = (0, 2, 1), si_pgid = None, landlock_fd = - 1,
        si_pdeathsig = 0, parent_pid = 1, child_sigmask = {}\<rparr>, m)"
    using plain_init by blast
  obtain t where t: "safe_pipe (fd_limit easy_kernel) (pipe_ends (plain_fork (Inr 42))) (fds plain_proc) = (Inr (4, 5), t)"
    by (simp add: safe_pipe_def sys_pipe_def lowest_free_def upt_rec easy_kernel_def plain_proc_def plain_fork_def Let_def)
  have "{0, 1, 2} \<subseteq> dom (fds plain_proc)" "fresh_pipe (pipe_ends (plain_fork (Inr 42))) (fds plain_proc)"
    by (auto simp: plain_proc_def plain_fork_def fresh_pipe_def)
  from fork_outcome [OF this i _ t] show ?thesis
    by (simp add: plain_proc_def plain_fork_def info_ok_def easy_kernel_def) blast
qed

text \<open>With one of the standard descriptors closed in the parent, the pipe can take its number, and the
  redirection then overwrites the descriptor the child reports failures on: \<open>execve\<close> fails, the
  record goes to the standard output of the child, and the parent returns a process identifier.\<close>

definition no_std_proc :: proc where
  "no_std_proc = plain_proc\<lparr>fds := [3 \<mapsto> \<lparr>ofile = 13, cloexec = True\<rparr>, 4 \<mapsto> \<lparr>ofile = 14, cloexec = True\<rparr>,
     5 \<mapsto> \<lparr>ofile = 15, cloexec = True\<rparr>]\<rparr>"

definition no_prog_kernel :: kernel where
  "no_prog_kernel = easy_kernel\<lparr>k_execve := \<lambda>_ _ _. Some ENOENT\<rparr>"

lemma init_spawn_info_execve: "init_spawn_info (K\<lparr>k_execve := x\<rparr>) E p a = init_spawn_info K E p a"
  by (simp add: init_spawn_info_def)

lemma failure_lost_child:
  "subprocess no_prog_kernel 1 \<lparr>env = en, si_cwd = INHERIT, prog = ''/bin/sh'', argv = av, std_fds = (3, 4, 5),
      si_pgid = None, landlock_fd = - 1, si_pdeathsig = 0, parent_pid = 1, child_sigmask = {}\<rparr>
      (no_std_proc\<lparr>sigmask := m, fds := (fds no_std_proc)(1 \<mapsto> \<lparr>ofile = 21, cloexec = True\<rparr>)\<rparr>) =
    reported 14 ENOENT ''execve'' PROG"
  by (simp add: no_std_proc_def no_prog_kernel_def plain_defs subprocess_def set_parent_death_signal_def child_setpgid_def
      child_reset_signals_def fold_reset_signals child_chdir_def child_redirect_def safe_dup_failure_fd_def safe_dup_dupfd
      dupfd_def lowest_free_def upt_rec child_close_def sys_close_def child_dup2_def sys_dup2_def apply_landlock_def
      child_sigmask_step_def child_execve_def subprocess_failure_def set_error_short reported_def Let_def)

lemma failure_lost:
  "\<exists>out. dune_spawn_unix_fork no_prog_kernel plain_env (plain_fork (Inr 42)) no_std_proc (plain_args (3, 4, 5)) = Some out \<and>
     result out = Pid 42 \<and> child out = Some (reported 14 ENOENT ''execve'' PROG)"
proof -
  obtain av en m where i: "init_spawn_info no_prog_kernel plain_env no_std_proc (plain_args (3, 4, 5)) =
     (Inr \<lparr>env = en, si_cwd = INHERIT, prog = ''/bin/sh'', argv = av, std_fds = (3, 4, 5), si_pgid = None, landlock_fd = - 1,
        si_pdeathsig = 0, parent_pid = 1, child_sigmask = {}\<rparr>, m)"
    using plain_init unfolding no_prog_kernel_def init_spawn_info_execve by blast
  have t: "safe_pipe (fd_limit no_prog_kernel) (pipe_ends (plain_fork (Inr 42))) (fds no_std_proc) =
      (Inr (0, 1), (fds no_std_proc)(0 \<mapsto> \<lparr>ofile = 20, cloexec = True\<rparr>, 1 \<mapsto> \<lparr>ofile = 21, cloexec = True\<rparr>))"
    by (simp add: safe_pipe_def sys_pipe_def lowest_free_def upt_rec no_prog_kernel_def no_std_proc_def easy_kernel_def plain_fork_def Let_def)
  have c: "sys_close ((fds no_std_proc)(0 \<mapsto> \<lparr>ofile = 20, cloexec = True\<rparr>, 1 \<mapsto> \<lparr>ofile = 21, cloexec = True\<rparr>)) 0 =
      (fds no_std_proc)(1 \<mapsto> \<lparr>ofile = 21, cloexec = True\<rparr>)"
    by (auto simp: sys_close_def no_std_proc_def)
  show ?thesis
    using fork_result [OF i t, of 42 None] unfolding c failure_lost_child
    by (auto simp: plain_fork_def pipe_delivers_def reported_def)
qed

section \<open>The posix\_spawn variant\<close>

lemma close_tmp_fds_eq: "close_tmp_fds t l = (\<lambda>fd. if fd \<in> set l \<and> 2 < fd then None else t fd)"
  unfolding close_tmp_fds_def
proof (induction l arbitrary: t)
  case (Cons x l)
  then show ?case
    by (auto simp: sys_close_def fun_eq_iff)
qed simp

lemma close_tmp_fds_Nil [simp]: "close_tmp_fds t [] = t"
  by (simp add: close_tmp_fds_def)

lemma posix_dups_tmp:
  "posix_dups K Q l t tmps acts = (e, t', tmps', acts') \<Longrightarrow> close_tmp_fds t' tmps' = close_tmp_fds t tmps"
proof (induction l arbitrary: t tmps acts)
  case (Cons x l)
  obtain fd s where x: "x = (fd, s)" by (cases x)
  show ?case
  proof (cases "dupfd 3 (fd_limit K) t s")
    case (Pair r t1)
    show ?thesis
    proof (cases r)
      case (Inl err)
      then show ?thesis
        using Cons.prems Pair dupfd_Inl [of 3 "fd_limit K" t s err t1]
        by (auto simp: x safe_dup_dupfd close_tmp_fds_eq fun_eq_iff)
    next
      case (Inr n)
      then obtain en where n: "t n = None" "t1 = t(n \<mapsto> en)" "3 \<le> n"
        using Pair by (auto elim: dupfd_Inr)
      then have "close_tmp_fds t1 (tmps @ [n]) = close_tmp_fds t tmps"
        by (auto simp: close_tmp_fds_eq fun_eq_iff)
      then show ?thesis
        using Cons.prems Cons.IH Pair Inr by (auto simp: x safe_dup_dupfd Let_def split: option.splits)
    qed
  qed
qed auto

lemma posix_attempt_tmp:
  assumes "posix_attempt K Q info p v_cwd = (r, t, tmps, dir)"
  shows "close_tmp_fds t tmps = fds p" "dir = None"
proof -
  obtain s0 s1 s2 where s: "std_fds info = (s0, s1, s2)" by (cases "std_fds info")
  obtain e t1 tmps1 acts where d: "posix_dups K Q [(0, s0), (1, s1), (2, s2)] (fds p) [] [] = (e, t1, tmps1, acts)"
    by (metis prod_cases4)
  have c: "close_tmp_fds t1 tmps1 = fds p"
    using posix_dups_tmp [OF d] by (simp add: close_tmp_fds_eq)
  show "close_tmp_fds t tmps = fds p"
    using assms c
    by (auto simp: posix_attempt_def s d Let_def simp del: posix_dups.simps
        split: option.splits sum.splits prod.splits)
  show "dir = None"
    using assms
    by (auto simp: posix_attempt_def s d Let_def posix_chdir_def simp del: posix_dups.simps
        split: option.splits sum.splits prod.splits working_dir.splits if_splits)
qed


text \<open>The table the file actions give.\<close>

lemma posix_actions_table:
  assumes "t s0 = Some e0" "t s1 = Some e1" "t s2 = Some e2" "3 \<le> fd_limit K"
    and "posix_dups K Q [(0, s0), (1, s1), (2, s2)] t [] [] = (None, t', tmps, acts)"
  shows "run_actions (fd_limit K) t' acts =
    Inr (t(0 \<mapsto> e0\<lparr>cloexec := False\<rparr>, 1 \<mapsto> e1\<lparr>cloexec := False\<rparr>, 2 \<mapsto> e2\<lparr>cloexec := False\<rparr>))"
proof -
  let ?c = "\<lambda>e. e\<lparr>cloexec := False\<rparr>"
  obtain t0 where t0: "safe_dup (fd_limit K) t s0 = (Inr t0, t(t0 \<mapsto> ?c e0))" "t t0 = None" "3 \<le> t0"
    using assms(5) by (cases rule: safe_dup_cases [of t s0 e0 "fd_limit K", OF assms(1)]) auto
  let ?T = "t(t0 \<mapsto> ?c e0)"
  have T: "?T s1 = Some e1"
    using t0 assms by auto
  obtain t1 where t1: "safe_dup (fd_limit K) ?T s1 = (Inr t1, ?T(t1 \<mapsto> ?c e1))" "?T t1 = None" "3 \<le> t1"
    using assms(5) t0(1)
    by (cases rule: safe_dup_cases [of ?T s1 e1 "fd_limit K", OF T]) (auto simp: Let_def split: option.splits)
  let ?T1 = "?T(t1 \<mapsto> ?c e1)"
  have T1: "?T1 s2 = Some e2"
    using t0 t1 assms by auto
  obtain t2 where t2: "safe_dup (fd_limit K) ?T1 s2 = (Inr t2, ?T1(t2 \<mapsto> ?c e2))" "?T1 t2 = None" "3 \<le> t2"
    using assms(5) t0(1) t1(1)
    by (cases rule: safe_dup_cases [of ?T1 s2 e2 "fd_limit K", OF T1]) (auto simp: Let_def split: option.splits)
  have r: "t' = ?T1(t2 \<mapsto> ?c e2)" "acts = [Dup2 t0 0, Close t0, Dup2 t1 1, Close t1, Dup2 t2 2, Close t2]"
    using assms(5) t0(1) t1(1) t2(1) by (auto simp: Let_def split: option.splits)
  have ne: "t0 \<noteq> t1" "t0 \<noteq> t2" "t1 \<noteq> t2" "t t1 = None" "t t2 = None"
    using t1(2) t2(2) by (auto split: if_splits)
  show ?thesis
    unfolding r using t0(2,3) t1(3) t2(3) ne assms(4)
    by (simp add: sys_dup2_def sys_close_def) (auto simp: fun_eq_iff)
qed

lemma posix_attempt_Exec:
  assumes "posix_attempt K Q info p v_cwd = (Inr (pid, c), t, tmps, dir)" "std_fds info = (s0, s1, s2)"
    "fds p s0 = Some e0" "fds p s1 = Some e1" "fds p s2 = Some e2" "3 \<le> fd_limit K"
  shows "\<exists>q. c = Exec (prog info) (c_strings (argv info)) (c_strings (env info)) q \<and>
    fds q = exec_fds ((fds p)(0 \<mapsto> e0\<lparr>cloexec := False\<rparr>, 1 \<mapsto> e1\<lparr>cloexec := False\<rparr>, 2 \<mapsto> e2\<lparr>cloexec := False\<rparr>)) \<and>
    sigmask q = child_sigmask info - {9, 19} \<and> pgid q = (case si_pgid info of Some g \<Rightarrow> g | None \<Rightarrow> pgid p)"
proof -
  obtain e t1 tmps1 acts where d: "posix_dups K Q [(0, s0), (1, s1), (2, s2)] (fds p) [] [] = (e, t1, tmps1, acts)"
    by (metis prod_cases4)
  have "e = None"
    using assms(1,2) d by (cases e) (auto simp: posix_attempt_def simp del: posix_dups.simps split: option.splits)
  with posix_actions_table [OF assms(3-6)] d
  have "run_actions (fd_limit K) t1 acts =
      Inr ((fds p)(0 \<mapsto> e0\<lparr>cloexec := False\<rparr>, 1 \<mapsto> e1\<lparr>cloexec := False\<rparr>, 2 \<mapsto> e2\<lparr>cloexec := False\<rparr>))"
    by simp
  then show ?thesis
    using assms(1,2) d \<open>e = None\<close>
    by (auto simp: posix_attempt_def sys_posix_spawn_def Let_def simp del: posix_dups.simps fun_upd_apply
        split: option.splits sum.splits)
qed

text \<open>C17. A program started with \<open>posix_spawn\<close> finds the same standard descriptors as one started with
  \<open>fork\<close>: 0, 1 and 2 denote the open files of the three given descriptors, whatever their numbers, and
  every other descriptor is kept exactly if it is not close-on-exec, so that no temporary descriptor
  leaks into it.\<close>

theorem posix_image:
  assumes "dune_spawn_unix_posix K E Q p a = (out, dir)" "child out = Some (Exec pr av en q)" "3 \<le> fd_limit K"
    "fds p (a_stdin a) = Some e0" "fds p (a_stdout a) = Some e1" "fds p (a_stderr a) = Some e2"
  shows "map (fds q) [0, 1, 2] = map (\<lambda>e. Some (e\<lparr>cloexec := False\<rparr>)) [e0, e1, e2] \<and>
    (\<forall>fd \<ge> 3. fds q fd = exec_fds (fds p) fd) \<and> pr = c_string (a_prog a) \<and> (\<exists>pid. result out = Pid pid)"
proof -
  have inits: "q_actions_init Q = None" "q_attr_init Q = None"
    using assms(1,2) by (auto simp: dune_spawn_unix_posix_def split: if_splits)
  obtain info m where i: "init_spawn_info K E p a = (Inr info, m)"
    using assms(1,2) inits by (auto simp: dune_spawn_unix_posix_def split: prod.splits sum.splits)
  note I = init_spawn_info_Inr [OF i]
  obtain r t tmps d where at: "posix_attempt K Q info p (a_cwd a) = (r, t, tmps, d)"
    by (metis prod_cases4)
  obtain pid where r: "r = Inr (pid, Exec pr av en q)" "result out = Pid pid"
    using assms(1,2) inits i at by (auto simp: dune_spawn_unix_posix_def Let_def split: sum.splits)
  from posix_attempt_Exec [OF at [unfolded r(1)] I(2) assms(4-6,3)] I(5) r(2) show ?thesis
    by (auto simp: exec_fds_def)
qed

definition plain_posix :: posix_env where
  "plain_posix = \<lparr>q_actions_init = None, q_attr_init = None, q_setflags = None, q_setsigmask = None, q_setpgroup = None,
     q_adddup2 = \<lambda>_. None, q_addclose = \<lambda>_. None, q_fork = Inr 42, q_ignored = {}\<rparr>"

lemma plain_posix_run:
  "\<exists>out dir pr av en q. dune_spawn_unix_posix easy_kernel plain_env plain_posix plain_proc (plain_args (0, 2, 1)) = (out, dir) \<and>
     child out = Some (Exec pr av en q)"
proof -
  obtain av en m where i: "init_spawn_info easy_kernel plain_env plain_proc (plain_args (0, 2, 1)) =
     (Inr \<lparr>env = en, si_cwd = INHERIT, prog = ''/bin/sh'', argv = av, std_fds = (0, 2, 1), si_pgid = None, landlock_fd = - 1,
        si_pdeathsig = 0, parent_pid = 1, child_sigmask = {}\<rparr>, m)"
    using plain_init by blast
  show ?thesis
    unfolding dune_spawn_unix_posix_def i
    by (simp add: plain_posix_def plain_defs posix_attempt_def posix_attributes_def safe_dup_dupfd dupfd_def lowest_free_def
        upt_rec posix_chdir_def sys_posix_spawn_def sys_dup2_def sys_close_def Let_def)
qed


theorem posix_image_witness:
  "\<exists>out dir pr av en q. dune_spawn_unix_posix easy_kernel plain_env plain_posix plain_proc (plain_args (0, 2, 1)) = (out, dir) \<and>
     child out = Some (Exec pr av en q) \<and> map (fds q) [0, 1, 2] = map Some
       [\<lparr>ofile = 10, cloexec = False\<rparr>, \<lparr>ofile = 12, cloexec = False\<rparr>, \<lparr>ofile = 11, cloexec = False\<rparr>] \<and> fds q 3 = None"
proof -
  obtain out dir pr av en q where r: "dune_spawn_unix_posix easy_kernel plain_env plain_posix plain_proc (plain_args (0, 2, 1)) = (out, dir)"
    "child out = Some (Exec pr av en q)"
    using plain_posix_run by blast
  have "3 \<le> fd_limit easy_kernel" "fds plain_proc (a_stdin (plain_args (0, 2, 1))) = Some \<lparr>ofile = 10, cloexec = False\<rparr>"
    "fds plain_proc (a_stdout (plain_args (0, 2, 1))) = Some \<lparr>ofile = 12, cloexec = False\<rparr>"
    "fds plain_proc (a_stderr (plain_args (0, 2, 1))) = Some \<lparr>ofile = 11, cloexec = False\<rparr>"
    by (simp_all add: easy_kernel_def plain_proc_def plain_args_def)
  note im = posix_image [OF r this]
  have "fds q 3 = exec_fds (fds plain_proc) 3"
    using im by simp
  then show ?thesis
    using im r by (simp add: exec_fds_def plain_proc_def)
qed

text \<open>If one of the two initialisations fails, the code jumps to its cleanup with \<open>info\<close> (and in the first
  case \<open>attr\<close>) uninitialised and frees it.\<close>

lemma posix_init_failure:
  "q_actions_init Q \<noteq> None \<or> q_attr_init Q \<noteq> None \<Longrightarrow>
   result (fst (dune_spawn_unix_posix K E Q p a)) = Undefined_behaviour"
  by (auto simp: dune_spawn_unix_posix_def)

text \<open>The memory of the arguments that were already built is lost when a later one fails.\<close>

lemma init_failure_leaks:
  "init_spawn_info K plain_env p (plain_args s\<lparr>a_sigprocmask := Some (3, [])\<rparr>) =
     (Inl (Failure ''Unknown sigprocmask action''), [Prog_string, Argv_block, Env_block])"
proof -
  have A: "malloc_ok (alloc plain_env) n" for n
    by (simp add: plain_env_def)
  obtain b b' where "alloc_env_list (alloc plain_env) [(''A'', ''b'')] = Inr b" "alloc_string_array (alloc plain_env) ''sh'' [''-c''] = Inr b'"
    using alloc_always [OF A] by metis
  then show ?thesis
    by (simp add: init_spawn_info_def plain_args_def init_cwd_def strdup_def init_sigmask_def A CAML_SIG_SETMASK_def
        CAML_SIG_BLOCK_def CAML_SIG_UNBLOCK_def)
qed

section \<open>Handles on Windows\<close>


end
