(* ===== verification/Stdune_Copy.thy ===== *)
theory Stdune_Copy
  imports Posix
begin

text \<open>
  \<open>copyfile_stubs.c\<close>: copying a file with \<open>copyfile\<close> on macOS, and on Linux with \<open>copy_file_range\<close> or
  \<open>sendfile\<close>, whichever the kernel version allows. The two Linux loops work on the unread rest of the
  input and on the output; the kernel answers from a script how many bytes it is willing to move.
\<close>

section \<open>macOS\<close>

definition PATH_MAX :: nat where "PATH_MAX = 1024"

record copyfile_env =
  c_realpath :: "string \<Rightarrow> errno + string"
  c_unlink :: "string \<Rightarrow> errno option"
  c_copyfile :: "string \<Rightarrow> string \<Rightarrow> bool \<Rightarrow> errno option"

text \<open>The calls that change the file system, in order: \<open>Copy from to excl\<close> has the flag \<open>COPYFILE_EXCL\<close>.\<close>

datatype copy_call = Unlink string | Copy string string bool

definition stdune_copyfile_mac :: "copyfile_env \<Rightarrow> string \<Rightarrow> string \<Rightarrow> bool \<Rightarrow> (exn + unit) \<times> copy_call list" where
  "stdune_copyfile_mac C v_from v_to overwrite =
     (if \<not> string_is_c_safe v_from then (Inl (Unix_error ENOENT ''copyfile'' v_from), [])
      else if \<not> string_is_c_safe v_to then (Inl (Unix_error ENOENT ''copyfile'' v_to), [])
      else if PATH_MAX \<le> length v_from then (Inl (Unix_error ENAMETOOLONG ''copyfile'' v_from), [])
      else if PATH_MAX \<le> length v_to then (Inl (Unix_error ENAMETOOLONG ''copyfile'' v_to), [])
      else
        case c_realpath C v_from of
          Inl err \<Rightarrow> (Inl (Unix_error err ''realpath'' v_from), [])
        | Inr real_from \<Rightarrow>
            let (unlink_err, calls) = (if overwrite then (c_unlink C v_to, [Unlink v_to]) else (None, []))
            in if unlink_err \<noteq> None \<and> unlink_err \<noteq> Some ENOENT
               then (Inl (Unix_error (the unlink_err) ''unlink'' v_to), calls)
               else
                 case c_copyfile C real_from v_to (\<not> overwrite) of
                   Some err \<Rightarrow> (Inl (Unix_error err ''copyfile'' v_to), calls @ [Copy real_from v_to (\<not> overwrite)])
                 | None \<Rightarrow> (Inr (), calls @ [Copy real_from v_to (\<not> overwrite)]))"

definition stdune_copyfile_other :: "exn + unit" where
  "stdune_copyfile_other = Inl (Failure ''copyfile: only on macos'')"

definition stdune_sendfile_other :: "exn + unit" where
  "stdune_sendfile_other = Inl (Failure ''sendfile: linux'')"

section \<open>Linux\<close>

record copy_state =
  src :: "byte list"
  dst :: "byte list"

text \<open>One call that moves bytes: at most as many as asked for, as there are, and as the kernel will.\<close>

definition transfer :: "nat \<Rightarrow> nat \<Rightarrow> copy_state \<Rightarrow> nat \<times> copy_state" where
  "transfer n len st =
     (let k = min n (min len (length (src st)))
      in (k, \<lparr>src = drop k (src st), dst = dst st @ take k (src st)\<rparr>))"

text \<open>The loops. \<open>None\<close> says that the script ended first; the last component is the rest of the script.\<close>

fun dune_sendfile :: "(errno + nat) list \<Rightarrow> nat \<Rightarrow> copy_state \<Rightarrow> ((errno + nat) \<times> copy_state) option" where
  "dune_sendfile script 0 st = Some (Inr 0, st)"
| "dune_sendfile [] (Suc len) st = None"
| "dune_sendfile (Inl err # script) (Suc len) st = Some (Inl err, st)"
| "dune_sendfile (Inr n # script) (Suc len) st =
     (let (ret, st) = transfer n (Suc len) st
      in if ret = 0 then Some (Inl EIO, st) else dune_sendfile script (Suc len - ret) st)"

fun dune_copy_file_range ::
    "(errno + nat) list \<Rightarrow> (errno + nat) list \<Rightarrow> nat \<Rightarrow> copy_state \<Rightarrow> ((errno + nat) \<times> copy_state) option" where
  "dune_copy_file_range cfr sf 0 st = Some (Inr 0, st)"
| "dune_copy_file_range [] sf (Suc len) st = None"
| "dune_copy_file_range (Inl err # cfr) sf (Suc len) st = dune_sendfile sf (Suc len) st"
| "dune_copy_file_range (Inr n # cfr) sf (Suc len) st =
     (let (ret, st) = transfer n (Suc len) st
      in if ret = 0 then Some (Inl EIO, st) else dune_copy_file_range cfr sf (Suc len - ret) st)"

text \<open>The kernel version, read with \<open>sscanf (release, "%d.%d.%d")\<close>.\<close>

definition is_space :: "char \<Rightarrow> bool" where
  "is_space c \<longleftrightarrow> c \<in> {CHR '' '', CHR 0x09, CHR 0x0A, CHR 0x0B, CHR 0x0C, CHR 0x0D}"

definition is_digit :: "char \<Rightarrow> bool" where
  "is_digit c \<longleftrightarrow> 48 \<le> (of_char c :: nat) \<and> (of_char c :: nat) \<le> 57"

definition digits_value :: "string \<Rightarrow> int" where
  "digits_value ds = foldl (\<lambda>n c. 10 * n + (of_char c - 48)) 0 ds"

definition scan_int :: "string \<Rightarrow> (int \<times> string) option" where
  "scan_int s =
     (let s = dropWhile is_space s;
          (sign, s) = (case s of c # r \<Rightarrow> if c = CHR ''-'' then (- 1, r) else if c = CHR ''+'' then (1, r) else (1, s) | [] \<Rightarrow> (1, s));
          ds = takeWhile is_digit s
      in if ds = [] then None else Some (sign * digits_value ds, dropWhile is_digit s))"

definition scan_dot :: "string \<Rightarrow> string option" where
  "scan_dot s = (case s of c # r \<Rightarrow> if c = CHR ''.'' then Some r else None | [] \<Rightarrow> None)"

definition scan_version :: "string \<Rightarrow> (int \<times> int \<times> int) option" where
  "scan_version s =
     Option.bind (scan_int s) (\<lambda>(major, s).
     Option.bind (scan_dot s) (\<lambda>s.
     Option.bind (scan_int s) (\<lambda>(minor, s).
     Option.bind (scan_dot s) (\<lambda>s.
     Option.bind (scan_int s) (\<lambda>(patch, s). Some (major, minor, patch))))))"

definition KERNEL_VERSION :: "int \<Rightarrow> int \<Rightarrow> int \<Rightarrow> int" where
  "KERNEL_VERSION a b c = a * 2 ^ 16 + b * 2 ^ 8 + c"

definition kernel_version :: "errno + string \<Rightarrow> int" where
  "kernel_version uname =
     (case uname of
        Inl _ \<Rightarrow> - 1
      | Inr release \<Rightarrow>
          (case scan_version release of
             None \<Rightarrow> - 1
           | Some (major, minor, patch) \<Rightarrow> KERNEL_VERSION major minor patch))"

text \<open>\<open>stdune_sendfile\<close>: the choice is made once and kept in a static variable.\<close>

datatype copier = Use_sendfile | Use_copy_file_range

record sendfile_env =
  k_uname :: "errno + string"
  has_copy_file_range :: bool
  cfr_script :: "(errno + nat) list"
  sf_script :: "(errno + nat) list"

definition choose_copier :: "sendfile_env \<Rightarrow> copier option \<Rightarrow> copier" where
  "choose_copier E dune_copyfile =
     (case dune_copyfile of
        Some c \<Rightarrow> c
      | None \<Rightarrow>
          if kernel_version (k_uname E) < KERNEL_VERSION 5 19 0 \<or> \<not> has_copy_file_range E
          then Use_sendfile else Use_copy_file_range)"

definition stdune_sendfile :: "sendfile_env \<Rightarrow> copier option \<Rightarrow> nat \<Rightarrow> copy_state \<Rightarrow>
    ((exn + unit) \<times> copy_state \<times> copier option) option" where
  "stdune_sendfile E dune_copyfile len st =
     (let c = choose_copier E dune_copyfile
      in map_option (\<lambda>(ret, st). (case ret of Inl err \<Rightarrow> Inl (Unix_error err ''sendfile'' []) | Inr _ \<Rightarrow> Inr (), st, Some c))
           (case c of
              Use_sendfile \<Rightarrow> dune_sendfile (sf_script E) len st
            | Use_copy_file_range \<Rightarrow> dune_copy_file_range (cfr_script E) (sf_script E) len st))"

section \<open>Every byte is copied once\<close>

text \<open>\<open>copied k st st'\<close>: the next \<open>k\<close> bytes of the input were appended to the output.\<close>

definition copied :: "nat \<Rightarrow> copy_state \<Rightarrow> copy_state \<Rightarrow> bool" where
  "copied k st st' \<longleftrightarrow> k \<le> length (src st) \<and> src st' = drop k (src st) \<and> dst st' = dst st @ take k (src st)"

lemma copied_0: "copied 0 st st"
  by (simp add: copied_def)

lemma copied_trans: "copied k st st1 \<Longrightarrow> copied m st1 st2 \<Longrightarrow> copied (k + m) st st2"
  by (auto simp: copied_def take_add add.commute)

lemma transfer_copied: "transfer n len st = (k, st') \<Longrightarrow> k \<le> len \<and> k \<le> n \<and> copied k st st'"
  by (auto simp: transfer_def copied_def Let_def)

text \<open>The outcome both loops promise.\<close>

definition copy_outcome :: "nat \<Rightarrow> copy_state \<Rightarrow> (errno + nat) \<times> copy_state \<Rightarrow> bool" where
  "copy_outcome len st r =
     (case r of
        (Inr n, st') \<Rightarrow> n = 0 \<and> copied len st st'
      | (Inl err, st') \<Rightarrow> (\<exists>k < len. copied k st st'))"

lemma copy_outcome_step:
  assumes "copied k st st1" "k \<le> len" "copy_outcome (len - k) st1 r"
  shows "copy_outcome len st r"
proof -
  have "copied len st st2" if "copied (len - k) st1 st2" for st2
    using copied_trans [OF assms(1) that] assms(2) by simp
  moreover have "\<exists>i < len. copied i st st2" if "copied m st1 st2" "m < len - k" for m st2
    using copied_trans [OF assms(1) that(1)] that(2) by (intro exI [of _ "k + m"]) auto
  ultimately show ?thesis
    using assms(3) by (auto simp: copy_outcome_def split: sum.splits)
qed

lemma copy_outcome_transfer:
  assumes "transfer n (Suc len) st = (k, st1)" "k = 0 \<Longrightarrow> r = (Inl EIO, st1)" "k \<noteq> 0 \<Longrightarrow> copy_outcome (Suc len - k) st1 r"
  shows "copy_outcome (Suc len) st r"
proof (cases "k = 0")
  case True
  then show ?thesis
    using assms(2) transfer_copied [OF assms(1)] by (auto simp: copy_outcome_def)
next
  case False
  then show ?thesis
    using assms(3) transfer_copied [OF assms(1)] by (auto intro: copy_outcome_step)
qed

lemma copy_outcome_error: "copy_outcome (Suc len) st (Inl err, st)"
  using copied_0 by (auto simp: copy_outcome_def)

lemma copy_outcome_0: "copy_outcome 0 st (Inr 0, st)"
  by (simp add: copy_outcome_def copied_0)

lemma dune_sendfile_outcome: "dune_sendfile script len st = Some r \<Longrightarrow> copy_outcome len st r"
proof (induction script len st rule: dune_sendfile.induct)
  case (4 n script len st)
  obtain k st1 where t: "transfer n (Suc len) st = (k, st1)" by fastforce
  show ?case
    by (rule copy_outcome_transfer [OF t]) (use 4 t in auto)
qed (auto intro: copy_outcome_0 copy_outcome_error)

lemma dune_copy_file_range_outcome: "dune_copy_file_range cfr sf len st = Some r \<Longrightarrow> copy_outcome len st r"
proof (induction cfr sf len st rule: dune_copy_file_range.induct)
  case (4 n cfr sf len st)
  obtain k st1 where t: "transfer n (Suc len) st = (k, st1)" by fastforce
  show ?case
    by (rule copy_outcome_transfer [OF t]) (use 4 t in auto)
qed (auto intro: copy_outcome_0 dune_sendfile_outcome)

text \<open>A kernel that keeps moving bytes: both loops end, with success if the input is long enough.\<close>

lemma transfer_progress: "0 < n \<Longrightarrow> Suc len \<le> length (src st) \<Longrightarrow> transfer n (Suc len) st = (k, st1) \<Longrightarrow>
   0 < k \<and> Suc len - k \<le> length (src st1)"
  by (auto simp: transfer_def Let_def)

lemma dune_sendfile_ends:
  "set script \<subseteq> range Inr - {Inr 0} \<Longrightarrow> len \<le> length script \<Longrightarrow> len \<le> length (src st) \<Longrightarrow>
   \<exists>st'. dune_sendfile script len st = Some (Inr 0, st')"
proof (induction script len st rule: dune_sendfile.induct)
  case (4 n script len st)
  obtain k st1 where t: "transfer n (Suc len) st = (k, st1)" by fastforce
  have "0 < n"
    using 4(2) by auto
  with transfer_progress [OF this 4(4) t] 4(1) [OF t [symmetric] refl] 4(2,3) t show ?case
    by auto
qed auto

lemma dune_copy_file_range_ends:
  "set cfr \<subseteq> range Inr - {Inr 0} \<Longrightarrow> len \<le> length cfr \<Longrightarrow> len \<le> length (src st) \<Longrightarrow>
   \<exists>st'. dune_copy_file_range cfr sf len st = Some (Inr 0, st')"
proof (induction cfr sf len st rule: dune_copy_file_range.induct)
  case (4 n cfr sf len st)
  obtain k st1 where t: "transfer n (Suc len) st = (k, st1)" by fastforce
  have "0 < n"
    using 4(2) by auto
  with transfer_progress [OF this 4(4) t] 4(1) [OF t [symmetric] refl] 4(2,3) t show ?case
    by auto
qed auto



section \<open>Kernel versions\<close>

text \<open>The packed version is compared as the triple as long as the last two parts fit a byte.\<close>

lemma kernel_version_order:
  assumes "0 \<le> b" "b < 256" "0 \<le> c" "c < 256"
  shows "KERNEL_VERSION a b c < KERNEL_VERSION 5 19 0 \<longleftrightarrow> a < 5 \<or> a = 5 \<and> b < 19"
proof -
  have v: "KERNEL_VERSION a b c = 65536 * a + 256 * b + c" "KERNEL_VERSION 5 19 0 = 332544"
    by (simp_all add: KERNEL_VERSION_def)
  consider "a \<le> 4" | "a = 5" | "6 \<le> a" by linarith
  then show ?thesis
    by cases (use assms v in linarith)+
qed

text \<open>A patch level of 256 or more carries into the minor version.\<close>

lemma kernel_version_carry: "\<not> kernel_version (Inr ''5.18.256'') < KERNEL_VERSION 5 19 0"
  by (simp add: kernel_version_def scan_version_def scan_int_def scan_dot_def is_space_def is_digit_def digits_value_def
      KERNEL_VERSION_def Let_def)

end
