(* ===== verification/Stdune_Stubs.thy ===== *)
theory Stdune_Stubs
  imports Posix
begin

unbundle bit_operations_syntax

text \<open>
  The small stubs of \<open>otherlibs/stdune/src\<close> and \<open>otherlibs/xdg\<close>: \<open>wait4_stubs.c\<close>, \<open>dune_clock.h\<close>, \<open>time_stubs.c\<close>,
  \<open>readdir.c\<close>, \<open>dune_flock.c\<close>, \<open>string_stubs.c\<close>, \<open>platform_stubs.c\<close>, \<open>signal_stubs.c\<close> and \<open>xdg_stubs.c\<close>. Status
  words, modes and flags are machine words decoded with the masks of the system headers; system calls
  are arguments.
\<close>

section \<open>The clock\<close>

text \<open>Windows counts intervals of 100 ns since 1601 in two 32-bit halves; the arithmetic is on
  \<open>uint64_t\<close> and the result is read as signed.\<close>

definition SEC_TO_UNIX_EPOCH :: int where "SEC_TO_UNIX_EPOCH = 11644473600"

definition dune_clock_gettime_ns_windows :: "u32 \<Rightarrow> u32 \<Rightarrow> int" where
  "dune_clock_gettime_ns_windows low high =
     (let li = push_bit 32 (ucast high) OR ucast low :: u64
      in sint ((li - word_of_int (SEC_TO_UNIX_EPOCH * 10000000)) * 100))"

text \<open>The static function pointer: the precise clock where the system has it, else the coarse one.\<close>

datatype win_clock = Precise | Coarse

definition dune_clock_select :: "bool \<Rightarrow> bool \<Rightarrow> win_clock option \<Rightarrow> win_clock" where
  "dune_clock_select has_module has_proc GetSystemTime =
     (case GetSystemTime of Some f \<Rightarrow> f | None \<Rightarrow> if has_module \<and> has_proc then Precise else Coarse)"

definition dune_clock_gettime_ns_timeval :: "int \<Rightarrow> int \<Rightarrow> int" where
  "dune_clock_gettime_ns_timeval tv_sec tv_usec = tv_sec * 1000000000 + tv_usec * 1000"

definition dune_clock_gettime_ns_timespec :: "int \<Rightarrow> int \<Rightarrow> int" where
  "dune_clock_gettime_ns_timespec tv_sec tv_nsec = tv_sec * 1000000000 + tv_nsec"

definition dune_clock_gettime_realtime :: "int \<Rightarrow> int" where
  "dune_clock_gettime_realtime ns = Val_long ns"

section \<open>wait4\<close>

text \<open>The macros of \<open>sys/wait.h\<close> on a status word.\<close>

definition WTERMSIG :: "u32 \<Rightarrow> u32" where "WTERMSIG status = status AND 0x7f"
definition WIFEXITED :: "u32 \<Rightarrow> bool" where "WIFEXITED status \<longleftrightarrow> WTERMSIG status = 0"
definition WEXITSTATUS :: "u32 \<Rightarrow> u32" where "WEXITSTATUS status = drop_bit 8 (status AND 0xff00)"
definition WIFSTOPPED :: "u32 \<Rightarrow> bool" where "WIFSTOPPED status \<longleftrightarrow> status AND 0xff = 0x7f"
definition WSTOPSIG :: "u32 \<Rightarrow> u32" where "WSTOPSIG status = WEXITSTATUS status"

datatype process_status = WEXITED int | WSIGNALED int | WSTOPPED int

definition alloc_process_status :: "(int \<Rightarrow> int) \<Rightarrow> u32 \<Rightarrow> process_status" where
  "alloc_process_status rev_convert_signal_number status =
     (if WIFEXITED status then WEXITED (uint (WEXITSTATUS status))
      else if WIFSTOPPED status then WSTOPPED (rev_convert_signal_number (uint (WSTOPSIG status)))
      else WSIGNALED (rev_convert_signal_number (uint (WTERMSIG status))))"

record rusage =
  ru_utime :: "int \<times> int"
  ru_stime :: "int \<times> int"
  ru_maxrss :: int
  ru_minflt :: int
  ru_majflt :: int
  ru_inblock :: int
  ru_oublock :: int
  ru_nvcsw :: int
  ru_nivcsw :: int

text \<open>The tuple of nine: two times in nanoseconds and the seven counters.\<close>

definition alloc_resource_usage :: "rusage \<Rightarrow> int list" where
  "alloc_resource_usage ru =
     [Val_long (fst (ru_utime ru) * 1000000000 + snd (ru_utime ru) * 1000),
      Val_long (fst (ru_stime ru) * 1000000000 + snd (ru_stime ru) * 1000),
      Val_long (ru_maxrss ru), Val_long (ru_minflt ru), Val_long (ru_majflt ru), Val_long (ru_inblock ru),
      Val_long (ru_oublock ru), Val_long (ru_nvcsw ru), Val_long (ru_nivcsw ru)]"

definition wait_flag_table :: "u32 list" where "wait_flag_table = [1, 2]"

definition convert_flag_list :: "nat list \<Rightarrow> u32 list \<Rightarrow> u32" where
  "convert_flag_list flags table = fold (\<lambda>f r. r OR table ! f) flags 0"

text \<open>\<open>dune_wait4\<close>; \<open>sys\<close> is the system call. On Solaris -1 becomes 0.\<close>

definition dune_wait4 ::
    "bool \<Rightarrow> (int \<Rightarrow> int) \<Rightarrow> (int \<Rightarrow> u32 \<Rightarrow> errno + (int \<times> u32 \<times> rusage)) \<Rightarrow> int \<Rightarrow> int \<Rightarrow> nat list \<Rightarrow>
     exn + (int \<times> process_status \<times> int \<times> int list) option" where
  "dune_wait4 sun rev_convert sys time_ns pid flags =
     (let cv_flags = convert_flag_list flags wait_flag_table
      in case sys (if sun \<and> pid = - 1 then 0 else pid) cv_flags of
           Inl err \<Rightarrow> (if err = ECHILD then Inr None else Inl (Unix_error err ''wait4'' []))
         | Inr (pid, status, ru) \<Rightarrow>
             if pid = 0 then Inr None
             else Inr (Some (pid, alloc_process_status rev_convert status, Val_long time_ns, alloc_resource_usage ru)))"

definition dune_wait4_windows :: "exn + unit" where
  "dune_wait4_windows = Inl (Failure ''wait4: not supported on windows'')"

definition dune_getrusage_self :: "bool \<Rightarrow> errno + rusage \<Rightarrow> exn + int list option" where
  "dune_getrusage_self win r =
     (if win then Inr None
      else case r of
             Inl err \<Rightarrow> Inl (Unix_error err ''getrusage'' [])
           | Inr ru \<Rightarrow> Inr (Some (alloc_resource_usage ru)))"

section \<open>stat\<close>

definition S_IFMT :: u32 where "S_IFMT = 0xf000"
definition S_IFSOCK :: u32 where "S_IFSOCK = 0xc000"
definition S_IFLNK :: u32 where "S_IFLNK = 0xa000"
definition S_IFREG :: u32 where "S_IFREG = 0x8000"
definition S_IFBLK :: u32 where "S_IFBLK = 0x6000"
definition S_IFDIR :: u32 where "S_IFDIR = 0x4000"
definition S_IFCHR :: u32 where "S_IFCHR = 0x2000"
definition S_IFIFO :: u32 where "S_IFIFO = 0x1000"

lemmas S_IF_defs = S_IFMT_def S_IFSOCK_def S_IFLNK_def S_IFREG_def S_IFBLK_def S_IFDIR_def S_IFCHR_def S_IFIFO_def

definition dune_time_stat_timestamp_ns :: "int \<Rightarrow> int \<Rightarrow> int" where
  "dune_time_stat_timestamp_ns sec nsec = sec * 1000000000 + nsec"

definition dune_time_stat_file_kind :: "bool \<Rightarrow> u32 \<Rightarrow> int" where
  "dune_time_stat_file_kind win mode =
     (if win then
        if mode AND S_IFMT = S_IFDIR then 1
        else if mode AND S_IFMT = S_IFCHR then 2
        else if mode AND S_IFMT = S_IFIFO then 5
        else 0
      else
        if mode AND S_IFMT = S_IFDIR then 1
        else if mode AND S_IFMT = S_IFCHR then 2
        else if mode AND S_IFMT = S_IFBLK then 3
        else if mode AND S_IFMT = S_IFLNK then 4
        else if mode AND S_IFMT = S_IFIFO then 5
        else if mode AND S_IFMT = S_IFSOCK then 6
        else 0)"

record stat_buf =
  st_mtime :: "int \<times> int"
  st_ctime :: "int \<times> int"
  st_size :: int
  st_mode :: u32
  st_dev :: int
  st_ino :: int

text \<open>Windows and Haiku have no nanoseconds in their \<open>stat\<close>.\<close>

definition dune_time_stat_mtime_ns :: "bool \<Rightarrow> stat_buf \<Rightarrow> int" where
  "dune_time_stat_mtime_ns coarse st =
     dune_time_stat_timestamp_ns (fst (st_mtime st)) (if coarse then 0 else snd (st_mtime st))"

definition dune_time_stat_ctime_ns :: "bool \<Rightarrow> stat_buf \<Rightarrow> int" where
  "dune_time_stat_ctime_ns coarse st =
     dune_time_stat_timestamp_ns (fst (st_ctime st)) (if coarse then 0 else snd (st_ctime st))"

record caml_stat =
  v_mtime :: int
  v_ctime :: int
  v_size :: int
  v_perm :: int
  v_kind :: int
  v_dev :: int
  v_ino :: int

definition dune_time_alloc_stat :: "bool \<Rightarrow> bool \<Rightarrow> stat_buf \<Rightarrow> caml_stat" where
  "dune_time_alloc_stat win coarse st =
     \<lparr>v_mtime = Val_long (dune_time_stat_mtime_ns coarse st),
      v_ctime = Val_long (dune_time_stat_ctime_ns coarse st),
      v_size = Val_long (st_size st),
      v_perm = Val_long (uint (st_mode st AND 0xfff)),
      v_kind = dune_time_stat_file_kind win (st_mode st),
      v_dev = Val_long (st_dev st),
      v_ino = Val_long (st_ino st)\<rparr>"

definition dune_stat :: "bool \<Rightarrow> bool \<Rightarrow> (string \<Rightarrow> errno + stat_buf) \<Rightarrow> string \<Rightarrow> exn + caml_stat" where
  "dune_stat win coarse sys path =
     (if \<not> string_is_c_safe path then Inl (Unix_error ENOENT ''stat'' path)
      else case sys path of
             Inl err \<Rightarrow> Inl (Unix_error err ''stat'' path)
           | Inr st \<Rightarrow> Inr (dune_time_alloc_stat win coarse st))"

section \<open>readdir\<close>

text \<open>A C string is read up to its NUL: index \<open>length name\<close> is the NUL.\<close>

definition is_dot_or_dot_dot :: "string \<Rightarrow> bool" where
  "is_dot_or_dot_dot name =
     (let s = name @ [CHR 0x00]
      in s ! 0 = CHR ''.'' \<and> (s ! 1 = CHR 0x00 \<or> (s ! 1 = CHR ''.'' \<and> s ! 2 = CHR 0x00)))"

text \<open>The constants of \<open>dirent.h\<close>.\<close>

definition val_file_type :: "bool \<Rightarrow> nat \<Rightarrow> int" where
  "val_file_type haiku typ =
     (if haiku then 7
      else if typ = 8 then 0
      else if typ = 4 then 1
      else if typ = 2 then 2
      else if typ = 6 then 3
      else if typ = 10 then 4
      else if typ = 1 then 5
      else if typ = 12 then 6
      else 7)"

datatype readdir_result = End_of_directory | Entry string int | Readdir_error exn

text \<open>The stream answers its entries one after the other, or an error; \<open>[]\<close> is NULL with \<open>errno\<close> 0. The
  result comes with the rest of the stream.\<close>

fun dune_readdir :: "bool \<Rightarrow> (errno + string \<times> nat) list \<Rightarrow> readdir_result \<times> (errno + string \<times> nat) list" where
  "dune_readdir haiku [] = (End_of_directory, [])"
| "dune_readdir haiku (Inl err # d) = (Readdir_error (Unix_error err ''readdir'' []), d)"
| "dune_readdir haiku (Inr (d_name, d_type) # d) =
     (if \<not> is_dot_or_dot_dot d_name then (Entry d_name (val_file_type haiku d_type), d)
      else dune_readdir haiku d)"

text \<open>The stub: a closed directory is an error, and on Windows there is no \<open>readdir\<close>.\<close>

definition caml_dune_filesystem_stubs_readdir ::
    "bool \<Rightarrow> bool \<Rightarrow> (errno + string \<times> nat) list option \<Rightarrow> readdir_result \<times> (errno + string \<times> nat) list option" where
  "caml_dune_filesystem_stubs_readdir win haiku vd =
     (if win then (Readdir_error (Unix_error ENOSYS ''readdir'' []), vd)
      else case vd of
             None \<Rightarrow> (Readdir_error (Unix_error EBADF ''readdir'' []), None)
           | Some d \<Rightarrow> (case dune_readdir haiku d of (r, d) \<Rightarrow> (r, Some d)))"

section \<open>flock\<close>

definition flock_flags :: "bool \<Rightarrow> bool \<Rightarrow> u32" where
  "flock_flags block exclusive =
     (let flags = 0;
          flags = (if exclusive then flags OR 2 else flags OR 1);
          flags = (if \<not> block then flags OR 4 else flags)
      in flags)"

definition dune_flock_lock :: "(int \<Rightarrow> u32 \<Rightarrow> errno option) \<Rightarrow> int \<Rightarrow> bool \<Rightarrow> bool \<Rightarrow> exn + unit" where
  "dune_flock_lock sys fd block exclusive =
     (case sys fd (flock_flags block exclusive) of
        None \<Rightarrow> Inr ()
      | Some err \<Rightarrow> Inl (Unix_error err ''flock'' []))"

definition dune_flock_unlock :: "(int \<Rightarrow> u32 \<Rightarrow> errno option) \<Rightarrow> int \<Rightarrow> exn + unit" where
  "dune_flock_unlock sys fd = (case sys fd 8 of None \<Rightarrow> Inr () | Some err \<Rightarrow> Inl (Unix_error err ''flock'' []))"

definition flock_flags_windows :: "bool \<Rightarrow> bool \<Rightarrow> u32" where
  "flock_flags_windows block exclusive =
     (let dwFlags = 0;
          dwFlags = (if exclusive then dwFlags OR 2 else dwFlags);
          dwFlags = (if \<not> block then dwFlags OR 1 else dwFlags)
      in dwFlags)"

definition dune_flock_lock_windows :: "(int \<Rightarrow> u32 \<Rightarrow> errno option) \<Rightarrow> int \<Rightarrow> bool \<Rightarrow> bool \<Rightarrow> exn + unit" where
  "dune_flock_lock_windows sys fd block exclusive =
     (case sys fd (flock_flags_windows block exclusive) of
        None \<Rightarrow> Inr ()
      | Some err \<Rightarrow> Inl (Unix_error err ''LockFileEx'' []))"

definition dune_flock_unlock_windows :: "(int \<Rightarrow> errno option) \<Rightarrow> int \<Rightarrow> exn + unit" where
  "dune_flock_unlock_windows sys fd = (case sys fd of None \<Rightarrow> Inr () | Some err \<Rightarrow> Inl (Unix_error err ''UnlockFileEx'' []))"

section \<open>Searching strings\<close>

text \<open>\<open>memchr\<close> on a suffix: the offset of the first match within \<open>n\<close> bytes.\<close>

fun memchr :: "byte list \<Rightarrow> byte \<Rightarrow> nat \<Rightarrow> nat option" where
  "memchr p c 0 = None"
| "memchr [] c (Suc n) = None"
| "memchr (x # p) c (Suc n) = (if x = c then Some 0 else map_option Suc (memchr p c n))"

definition dune_string_index_from :: "byte list \<Rightarrow> nat \<Rightarrow> int \<Rightarrow> int" where
  "dune_string_index_from s position c =
     (case memchr (drop position s) (word_of_int c) (length s - position) of
        None \<Rightarrow> - 1
      | Some i \<Rightarrow> int (position + i))"

definition dune_bytes_index_in_range :: "byte list \<Rightarrow> nat \<Rightarrow> nat \<Rightarrow> int \<Rightarrow> int" where
  "dune_bytes_index_in_range s position len c =
     (case memchr (drop position s) (word_of_int c) len of
        None \<Rightarrow> - 1
      | Some i \<Rightarrow> int (position + i))"

function rindex_loop :: "byte list \<Rightarrow> int \<Rightarrow> byte \<Rightarrow> int" where
  "rindex_loop s position chr =
     (if 0 \<le> position then
        if s ! nat position = chr then position else rindex_loop s (position - 1) chr
      else - 1)"
  by pat_completeness auto

termination rindex_loop
  by (relation "measure (\<lambda>(s, position, chr). nat (position + 1))") auto

definition dune_string_rindex_from :: "byte list \<Rightarrow> int \<Rightarrow> int \<Rightarrow> int" where
  "dune_string_rindex_from s position c = rindex_loop s position (word_of_int c)"

section \<open>Platform, signals, known folders\<close>

datatype target = Apple | FreeBSD | OpenBSD | NetBSD | DragonFly | Haiku | Win32 | Other_target

definition stdune_is_darwin :: "target \<Rightarrow> bool" where "stdune_is_darwin t \<longleftrightarrow> t = Apple"
definition stdune_is_freebsd :: "target \<Rightarrow> bool" where "stdune_is_freebsd t \<longleftrightarrow> t = FreeBSD"
definition stdune_is_openbsd :: "target \<Rightarrow> bool" where "stdune_is_openbsd t \<longleftrightarrow> t = OpenBSD"
definition stdune_is_netbsd :: "target \<Rightarrow> bool" where "stdune_is_netbsd t \<longleftrightarrow> t = NetBSD"
definition stdune_is_dragonfly :: "target \<Rightarrow> bool" where "stdune_is_dragonfly t \<longleftrightarrow> t = DragonFly"
definition stdune_is_haiku :: "target \<Rightarrow> bool" where "stdune_is_haiku t \<longleftrightarrow> t = Haiku"

definition stdune_winch_number :: "target \<Rightarrow> int" where
  "stdune_winch_number t = (if t = Win32 then 0 else 28)"

datatype known_folder = FOLDERID_InternetCache | FOLDERID_LocalAppData

text \<open>\<open>shell\<close> is \<open>SHGetKnownFolderPath\<close> and \<open>utf8\<close> is \<open>WideCharToMultiByte\<close> with the length check; the last
  component is whether the memory of the path was released.\<close>

definition dune_xdg_get_known_folder_path ::
    "bool \<Rightarrow> (known_folder \<Rightarrow> 'w option) \<Rightarrow> ('w \<Rightarrow> string option) \<Rightarrow> int \<Rightarrow> (exn + string option) \<times> bool" where
  "dune_xdg_get_known_folder_path win shell utf8 v_known_folder =
     (if \<not> win then (Inl (Invalid_argument ''get_known_folder_path: not implemented''), False)
      else if v_known_folder \<noteq> 0 \<and> v_known_folder \<noteq> 1 then (Inl (Invalid_argument ''get_known_folder_path''), False)
      else
        let rfid = (if v_known_folder = 0 then FOLDERID_InternetCache else FOLDERID_LocalAppData)
        in case shell rfid of
             None \<Rightarrow> (Inr None, True)
           | Some wcp \<Rightarrow>
               (case utf8 wcp of
                  None \<Rightarrow> (Inr None, True)
                | Some path \<Rightarrow> (if path = [] then (Inr None, True) else (Inr (Some path), True))))"

section \<open>Properties\<close>

text \<open>The status words the kernel makes.\<close>

definition exit_word :: "byte \<Rightarrow> u32" where "exit_word c = push_bit 8 (ucast c)"
definition signal_word :: "u32 \<Rightarrow> bool \<Rightarrow> u32" where "signal_word s core = s OR (if core then 0x80 else 0)"
definition stop_word :: "byte \<Rightarrow> u32" where "stop_word s = push_bit 8 (ucast s) OR 0x7f"

lemma u32_eqI: "(\<And>n. n \<in> set [0..<32] \<Longrightarrow> bit x n = bit y n) \<Longrightarrow> x = (y :: u32)"
  by (rule bit_word_eqI) simp

lemma byte_bits_high: "8 \<le> n \<Longrightarrow> \<not> bit (b :: byte) n"
  by (auto dest: bit_imp_le_length)

lemmas status_simps = WTERMSIG_def WEXITSTATUS_def exit_word_def signal_word_def stop_word_def upt_rec bit_simps byte_bits_high

lemma status_exit: "WTERMSIG (exit_word c) = 0" "WEXITSTATUS (exit_word c) = ucast c"
  by (rule u32_eqI, simp add: status_simps del: push_bit_and drop_bit_and,
      elim disjE; simp add: bit_simps byte_bits_high)+

lemma status_stop: "WTERMSIG (stop_word s) = 0x7f" "stop_word s AND 0xff = 0x7f" "WEXITSTATUS (stop_word s) = ucast s"
  by (rule u32_eqI; auto simp: status_simps simp del: push_bit_and drop_bit_and push_bit_or drop_bit_or)+

lemma small_word_bits: "(s :: u32) < 128 \<Longrightarrow> 7 \<le> n \<Longrightarrow> \<not> bit s n"
proof -
  assume s: "s < 128" and n: "7 \<le> n"
  have "unat (take_bit 7 s) = unat s"
    using s by (simp add: unsigned_take_bit_eq word_less_nat_alt take_bit_nat_eq_self)
  then have "take_bit 7 s = s"
    by (rule unsigned_word_eqI)
  then have "bit s n = bit (take_bit 7 s) n" by simp
  with n show "\<not> bit s n" by (simp add: bit_take_bit_iff)
qed

lemma uint_ucast_byte: "uint (ucast (c :: byte) :: u32) = uint c"
  using uint_lt2p [of c] by (simp add: unsigned_ucast_eq take_bit_int_eq_self)

lemma status_signal:
  assumes "s < 128"
  shows "WTERMSIG (signal_word s core) = s" "signal_word s core AND 0xff = signal_word s core"
  using small_word_bits [OF assms]
  by (rule_tac [!] u32_eqI) (auto simp: status_simps)

text \<open>C35. Process statuses come back as they were made: an exit code, a signal that killed the process
  (with or without a core dump), and a signal that stopped it are each decoded to the constructor with
  that number.\<close>

theorem process_status_roundtrip:
  "alloc_process_status conv (exit_word c) = WEXITED (uint c) \<and>
   alloc_process_status conv (stop_word (ucast s)) = WSTOPPED (conv (uint (ucast s :: byte))) \<and>
   (0 < s \<and> s < 127 \<longrightarrow> alloc_process_status conv (signal_word s core) = WSIGNALED (conv (uint s)))"
proof -
  have "alloc_process_status conv (signal_word s core) = WSIGNALED (conv (uint s))" if "0 < s" "s < 127"
  proof -
    have lt: "s < 128"
      using that(2) by (rule less_trans) simp
    have "WTERMSIG (signal_word s core) = (signal_word s core AND 0xff) AND 0x7f"
      by (simp add: WTERMSIG_def and.assoc)
    then have "WTERMSIG (signal_word s core) \<noteq> 0" "signal_word s core AND 0xff \<noteq> 0x7f"
      using that by (auto simp: status_signal [OF lt])
    then show ?thesis
      by (simp add: alloc_process_status_def WIFEXITED_def WIFSTOPPED_def status_signal [OF lt])
  qed
  moreover have "alloc_process_status conv (exit_word c) = WEXITED (uint c)"
    by (simp add: alloc_process_status_def WIFEXITED_def status_exit uint_ucast_byte)
  moreover have "alloc_process_status conv (stop_word (ucast s)) = WSTOPPED (conv (uint (ucast s :: byte)))"
    by (simp add: alloc_process_status_def WIFEXITED_def WIFSTOPPED_def WSTOPSIG_def status_stop uint_ucast_byte)
  ultimately show ?thesis by blast
qed

theorem process_status_roundtrip_witness: "alloc_process_status id (signal_word 11 True) = WSIGNALED 11"
  using process_status_roundtrip [where conv = id and s = 11 and core = True] by simp

lemma file_type_of_format:
  "m \<in> {S_IFREG, S_IFDIR, S_IFCHR, S_IFBLK, S_IFLNK, S_IFIFO, S_IFSOCK} \<Longrightarrow>
   val_file_type False (unat (drop_bit 12 m)) =
     (if m = S_IFDIR then 1 else if m = S_IFCHR then 2 else if m = S_IFBLK then 3 else if m = S_IFLNK then 4
      else if m = S_IFIFO then 5 else if m = S_IFSOCK then 6 else 0)"
  by (auto simp: val_file_type_def S_IF_defs)



lemma is_dot_or_dot_dot_iff:
  assumes "string_is_c_safe name"
  shows "is_dot_or_dot_dot name \<longleftrightarrow> name = ''.'' \<or> name = ''..''"
proof (cases name)
  case (Cons a xs)
  show ?thesis
  proof (cases xs)
    case xs: (Cons b ys)
    then show ?thesis
      using assms Cons by (cases ys) (auto simp: is_dot_or_dot_dot_def string_is_c_safe_def)
  qed (use Cons assms in \<open>auto simp: is_dot_or_dot_dot_def string_is_c_safe_def\<close>)
qed (simp add: is_dot_or_dot_dot_def)

text \<open>Calling the stub again and again, and what a directory stream is to the caller.\<close>

fun readdir_calls :: "nat \<Rightarrow> (errno + string \<times> nat) list \<Rightarrow> readdir_result list" where
  "readdir_calls 0 d = []"
| "readdir_calls (Suc n) d = (case dune_readdir False d of (r, d) \<Rightarrow> r # readdir_calls n d)"

fun listing :: "(errno + string \<times> nat) list \<Rightarrow> readdir_result list" where
  "listing [] = []"
| "listing (Inl err # d) = Readdir_error (Unix_error err ''readdir'' []) # listing d"
| "listing (Inr (name, typ) # d) =
     (if name = ''.'' \<or> name = ''..'' then listing d else Entry name (val_file_type False typ) # listing d)"

definition names_ok :: "(errno + string \<times> nat) list \<Rightarrow> bool" where
  "names_ok d = list_all (\<lambda>x. case x of Inl _ \<Rightarrow> True | Inr (name, _) \<Rightarrow> string_is_c_safe name) d"

lemma dune_readdir_listing:
  assumes "names_ok d"
  shows "case dune_readdir False d of (r, d') \<Rightarrow>
    names_ok d' \<and> (if listing d = [] then r = End_of_directory \<and> d' = [] else listing d = r # listing d')"
  using assms by (induction d rule: listing.induct) (auto simp: is_dot_or_dot_dot_iff names_ok_def)

text \<open>C37. Reading a directory: calling the stub until the end answers every entry except \<open>.\<close> and \<open>..\<close>, once
  and in order, errors at their place, and then the end.\<close>

theorem readdir_listing:
  assumes "names_ok d"
  shows "readdir_calls (Suc (length (listing d))) d = listing d @ [End_of_directory]"
  using assms
proof (induction "length (listing d)" arbitrary: d)
  case 0
  then show ?case
    using dune_readdir_listing [OF 0(2)] by (auto split: prod.splits)
next
  case (Suc n)
  obtain r d' where r: "dune_readdir False d = (r, d')" by fastforce
  have d': "names_ok d'" "listing d = r # listing d'"
    using dune_readdir_listing [OF Suc.prems] Suc.hyps(2) r by (auto split: if_splits)
  have "readdir_calls (Suc (length (listing d'))) d' = listing d' @ [End_of_directory]"
    using Suc.hyps d' by (intro Suc.hyps(1)) auto
  then show ?case
    using r d'(2) by simp
qed

theorem readdir_listing_witness:
  "readdir_calls 2 [Inr (''.'', 4), Inr (''a'', 8), Inr (''..'', 4)] = [Entry ''a'' 0, End_of_directory]"
  using readdir_listing [of "[Inr (''.'', 4), Inr (''a'', 8), Inr (''..'', 4)]"]
  by (simp add: names_ok_def string_is_c_safe_def val_file_type_def numeral_2_eq_2)

text \<open>Searching.\<close>

lemma memchr_Some: "memchr p c n = Some i \<Longrightarrow> i < n \<and> i < length p \<and> p ! i = c \<and> (\<forall>j < i. p ! j \<noteq> c)"
proof (induction p c n arbitrary: i rule: memchr.induct)
  case (3 x p c n)
  then show ?case
    by (auto split: if_splits simp: nth_Cons less_Suc_eq_0_disj split: nat.splits)
qed auto

lemma memchr_None: "memchr p c n = None \<Longrightarrow> i < n \<Longrightarrow> i < length p \<Longrightarrow> p ! i \<noteq> c"
proof (induction p c n arbitrary: i rule: memchr.induct)
  case (3 x p c n)
  then show ?case
    by (cases i) (auto split: if_splits)
qed auto

definition last_at :: "byte list \<Rightarrow> int \<Rightarrow> byte \<Rightarrow> int \<Rightarrow> bool" where
  "last_at s pos c r \<longleftrightarrow>
     (if r = - 1 then \<forall>i. 0 \<le> i \<and> i \<le> pos \<longrightarrow> s ! nat i \<noteq> c
      else 0 \<le> r \<and> r \<le> pos \<and> s ! nat r = c \<and> (\<forall>i. r < i \<and> i \<le> pos \<longrightarrow> s ! nat i \<noteq> c))"

lemma last_at_step: "last_at s (pos - 1) c r \<Longrightarrow> s ! nat pos \<noteq> c \<Longrightarrow> last_at s pos c r"
  by (auto simp: last_at_def split: if_splits) (metis order_le_less zle_diff1_eq)+

declare rindex_loop.simps [simp del]

lemma last_at_stop: "pos < 0 \<Longrightarrow> last_at s pos c (- 1)" "0 \<le> pos \<Longrightarrow> s ! nat pos = c \<Longrightarrow> last_at s pos c pos"
proof -
  have *: "\<not> (i < j \<and> j \<le> i)" "pos < 0 \<Longrightarrow> \<not> (0 \<le> j \<and> j \<le> pos)" for i j :: int
    by linarith+
  show "pos < 0 \<Longrightarrow> last_at s pos c (- 1)" "0 \<le> pos \<Longrightarrow> s ! nat pos = c \<Longrightarrow> last_at s pos c pos"
    by (simp_all only: last_at_def * if_True if_False simp_thms) simp_all
qed

lemma rindex_loop_cases:
  "pos < 0 \<Longrightarrow> rindex_loop s pos c = - 1"
  "0 \<le> pos \<Longrightarrow> s ! nat pos = c \<Longrightarrow> rindex_loop s pos c = pos"
  "0 \<le> pos \<Longrightarrow> s ! nat pos \<noteq> c \<Longrightarrow> rindex_loop s pos c = rindex_loop s (pos - 1) c"
  by (simp_all add: rindex_loop.simps [of s pos c])

lemma rindex_loop_spec: "last_at s pos c (rindex_loop s pos c)"
proof (induction s pos c rule: rindex_loop.induct)
  case (1 s pos c)
  consider "pos < 0" | "0 \<le> pos" "s ! nat pos = c" | "0 \<le> pos" "s ! nat pos \<noteq> c"
    by linarith
  then show ?case
  proof cases
    case 1
    then show ?thesis by (simp only: rindex_loop_cases(1) last_at_stop)
  next
    case 2
    then show ?thesis by (simp only: rindex_loop_cases(2) last_at_stop)
  next
    case 3
    then have "last_at s (pos - 1) c (rindex_loop s (pos - 1) c)"
      by (rule "1.IH")
    then show ?thesis
      unfolding rindex_loop_cases(3) [OF 3] using 3(2) by (rule last_at_step)
  qed
qed

lemma index_from_spec:
  assumes "pos \<le> length s"
  shows "case memchr (drop pos s) c (length s - pos) of
      None \<Rightarrow> \<forall>j. pos \<le> j \<and> j < length s \<longrightarrow> s ! j \<noteq> c
    | Some i \<Rightarrow> pos + i < length s \<and> s ! (pos + i) = c \<and> (\<forall>j. pos \<le> j \<and> j < pos + i \<longrightarrow> s ! j \<noteq> c)"
proof (cases "memchr (drop pos s) c (length s - pos)")
  case None
  have "s ! j \<noteq> c" if "pos \<le> j" "j < length s" for j
    using memchr_None [OF None, of "j - pos"] that by auto
  with None show ?thesis by simp
next
  case (Some i)
  note m = memchr_Some [OF Some]
  have "s ! j \<noteq> c" if "pos \<le> j" "j < pos + i" for j
  proof -
    have "j - pos < i"
      using that by simp
    then have "drop pos s ! (j - pos) \<noteq> c"
      using m by blast
    then show ?thesis
      using that assms by simp
  qed
  with m Some assms show ?thesis by auto
qed

text \<open>Both directions of the search end and are exact: the forward search answers the first position
  from the start on at which the byte occurs, the backward search the last position up to the start,
  and both answer -1 exactly if there is none.\<close>

theorem string_search:
  assumes "pos < length s"
  shows "(case dune_string_index_from s pos c of r \<Rightarrow>
      (r = - 1 \<and> word_of_int c \<notin> set (drop pos s)) \<or>
      (\<exists>i. r = int i \<and> pos \<le> i \<and> i < length s \<and> s ! i = word_of_int c \<and> (\<forall>j. pos \<le> j \<and> j < i \<longrightarrow> s ! j \<noteq> word_of_int c))) \<and>
    last_at s (int pos) (word_of_int c) (dune_string_rindex_from s (int pos) c)"
proof
  note spec = index_from_spec [OF less_imp_le [OF assms], of "word_of_int c"]
  show "case dune_string_index_from s pos c of r \<Rightarrow>
      (r = - 1 \<and> word_of_int c \<notin> set (drop pos s)) \<or>
      (\<exists>i. r = int i \<and> pos \<le> i \<and> i < length s \<and> s ! i = word_of_int c \<and> (\<forall>j. pos \<le> j \<and> j < i \<longrightarrow> s ! j \<noteq> word_of_int c))"
  proof (cases "memchr (drop pos s) (word_of_int c) (length s - pos)")
    case None
    with spec show ?thesis
      by (simp add: dune_string_index_from_def in_set_conv_nth)
  next
    case (Some i)
    with spec show ?thesis
      by (intro disjI2 exI [of _ "pos + i"]) (simp add: dune_string_index_from_def)
  qed
  show "last_at s (int pos) (word_of_int c) (dune_string_rindex_from s (int pos) c)"
    by (simp add: dune_string_rindex_from_def rindex_loop_spec)
qed

theorem string_search_witness:
  "last_at [7, 9, 7, 8] 3 7 (dune_string_rindex_from [7, 9, 7, 8] 3 7)"
  using string_search [of 3 "[7, 9, 7, 8]" 7] by simp

end
