(* ===== verification/Fswatch_Parse.thy ===== *)
theory Fswatch_Parse
  imports Posix
begin

text \<open>
  The notification packets of \<open>fswatch_win_stubs.c\<close>: a buffer that \<open>ReadDirectoryChangesW\<close> filled is a chain of
  records with the offset of the next one, an action, and a file name in UTF-16. \<open>parse_events\<close> walks the
  packets that were taken from the shared list, the newest first, and conses the events.
\<close>

section \<open>Reading a record\<close>

text \<open>A little-endian \<open>DWORD\<close> at an offset; \<open>None\<close> is a read outside the buffer.\<close>

definition dword_at :: "byte list \<Rightarrow> nat \<Rightarrow> nat option" where
  "dword_at b off =
     (if off + 4 \<le> length b
      then Some (unat (b ! off) + 256 * unat (b ! (off + 1)) + 65536 * unat (b ! (off + 2)) + 16777216 * unat (b ! (off + 3)))
      else None)"

definition bytes_at :: "byte list \<Rightarrow> nat \<Rightarrow> nat \<Rightarrow> byte list option" where
  "bytes_at b off n = (if off + n \<le> length b then Some (take n (drop off b)) else None)"

definition FILE_ACTION_ADDED :: nat where "FILE_ACTION_ADDED = 1"
definition FILE_ACTION_REMOVED :: nat where "FILE_ACTION_REMOVED = 2"
definition FILE_ACTION_MODIFIED :: nat where "FILE_ACTION_MODIFIED = 3"
definition FILE_ACTION_RENAMED_OLD_NAME :: nat where "FILE_ACTION_RENAMED_OLD_NAME = 4"
definition FILE_ACTION_RENAMED_NEW_NAME :: nat where "FILE_ACTION_RENAMED_NEW_NAME = 5"

definition actions :: "nat list" where
  "actions = [FILE_ACTION_ADDED, FILE_ACTION_REMOVED, FILE_ACTION_MODIFIED, FILE_ACTION_RENAMED_OLD_NAME,
     FILE_ACTION_RENAMED_NEW_NAME]"

text \<open>The search for the tag; \<open>None\<close> is the failed assertion.\<close>

fun val_action_from :: "nat list \<Rightarrow> nat \<Rightarrow> nat \<Rightarrow> nat option" where
  "val_action_from [] tag action = None"
| "val_action_from (a # as) tag action = (if a = action then Some tag else val_action_from as (tag + 1) action)"

definition Val_action :: "nat \<Rightarrow> nat option" where
  "Val_action action = val_action_from actions 0 action"

section \<open>parse\_events\<close>

type_synonym event = "string \<times> string \<times> nat"

datatype parse_result = Parsed "event list" | Bad_read | Bad_action

text \<open>The inner loop over the records of one packet, from offset \<open>off\<close>. \<open>decode\<close> is \<open>utf16_to_utf8\<close>; where it fails
  the rest of the packet is skipped. The loop ends because the offset grows.\<close>

function parse_packet :: "(byte list \<Rightarrow> string option) \<Rightarrow> string \<Rightarrow> byte list \<Rightarrow> nat \<Rightarrow> event list \<Rightarrow> parse_result" where
  "parse_packet decode path b off res =
     (case (dword_at b off, dword_at b (off + 4), dword_at b (off + 8)) of
        (Some nxt, Some action, Some len) \<Rightarrow>
          (case bytes_at b (off + 12) (2 * (len div 2)) of
             None \<Rightarrow> Bad_read
           | Some name \<Rightarrow>
               (case decode name of
                  None \<Rightarrow> Parsed res
                | Some filename \<Rightarrow>
                    (case Val_action action of
                       None \<Rightarrow> Bad_action
                     | Some tag \<Rightarrow>
                         let res = (path, filename, tag) # res
                         in if nxt = 0 then Parsed res
                            else parse_packet decode path b (off + nxt) res)))
      | _ \<Rightarrow> Bad_read)"
  by pat_completeness auto

termination parse_packet
  by (relation "measure (\<lambda>(decode, path, b, off, res). length b - off)") (auto simp: dword_at_def split: if_splits)

declare parse_packet.simps [simp del]

fun parse_events :: "(byte list \<Rightarrow> string option) \<Rightarrow> (string \<times> byte list) list \<Rightarrow> event list \<Rightarrow> parse_result" where
  "parse_events decode [] res = Parsed res"
| "parse_events decode ((path, b) # es) res =
     (case parse_packet decode path b 0 res of
        Parsed res \<Rightarrow> parse_events decode es res
      | err \<Rightarrow> err)"

section \<open>Well-formed packets\<close>

text \<open>How the system lays out the records \<open>(name, action)\<close> of a packet: the names have even length, a record
  is padded to a multiple of four bytes, and the last one has the next offset 0.\<close>

definition dword_bytes :: "nat \<Rightarrow> byte list" where
  "dword_bytes n = map of_nat [n mod 256, n div 256 mod 256, n div 256 div 256 mod 256, n div 256 div 256 div 256 mod 256]"

definition record_size :: "byte list \<Rightarrow> nat" where
  "record_size name = (12 + length name + 3) div 4 * 4"

definition encode_record :: "nat \<Rightarrow> byte list \<times> nat \<Rightarrow> byte list" where
  "encode_record nxt r =
     (case r of (name, action) \<Rightarrow>
        dword_bytes nxt @ dword_bytes action @ dword_bytes (length name) @ name @
        replicate (record_size name - (12 + length name)) 0)"

fun encode_packet :: "(byte list \<times> nat) list \<Rightarrow> byte list" where
  "encode_packet [] = []"
| "encode_packet [r] = encode_record 0 r"
| "encode_packet (r # r' # rs) = encode_record (record_size (fst r)) r @ encode_packet (r' # rs)"

definition record_ok :: "(byte list \<Rightarrow> string option) \<Rightarrow> byte list \<times> nat \<Rightarrow> bool" where
  "record_ok decode r = (case r of (name, action) \<Rightarrow>
     even (length name) \<and> length name < 2 ^ 16 \<and> decode name \<noteq> None \<and> 1 \<le> action \<and> action \<le> 5)"

definition record_event :: "(byte list \<Rightarrow> string option) \<Rightarrow> string \<Rightarrow> byte list \<times> nat \<Rightarrow> event" where
  "record_event decode path r = (path, the (decode (fst r)), snd r - 1)"

lemma dword_at_bytes:
  assumes "n < 2 ^ 32"
  shows "dword_at (pre @ dword_bytes n @ post) (length pre) = Some n"
proof -
  let ?q = "n div 256" and ?r = "n div 256 div 256" and ?s = "n div 256 div 256 div 256"
  have d: "dword_bytes n = [of_nat (n mod 256), of_nat (?q mod 256), of_nat (?r mod 256), of_nat (?s mod 256)]"
    by (simp add: dword_bytes_def)
  have u: "unat (of_nat (m mod 256) :: byte) = m mod 256" for m
    by (simp add: unsigned_of_nat take_bit_eq_mod)
  have s: "?s mod 256 = ?s"
    using assms by (simp add: div_mult2_eq [symmetric] less_mult_imp_div_less)
  have "n = 256 * ?q + n mod 256" "?q = 256 * ?r + ?q mod 256" "?r = 256 * ?s + ?r mod 256"
    by simp_all
  then have "n mod 256 + 256 * (?q mod 256) + 65536 * (?r mod 256) + 16777216 * ?s = n"
    by linarith
  then show ?thesis
    by (simp add: dword_at_def d nth_append u s u [of ?s, unfolded s])
qed

lemma length_dword_bytes [simp]: "length (dword_bytes n) = 4"
  by (simp add: dword_bytes_def)

lemma Val_action_tag: "1 \<le> a \<Longrightarrow> a \<le> 5 \<Longrightarrow> Val_action a = Some (a - 1)"
proof -
  assume "1 \<le> a" "a \<le> 5"
  then have "a \<in> {1, 2, 3, 4, 5}" by auto
  then show ?thesis
    by (auto simp: Val_action_def actions_def FILE_ACTION_ADDED_def FILE_ACTION_REMOVED_def FILE_ACTION_MODIFIED_def
        FILE_ACTION_RENAMED_OLD_NAME_def FILE_ACTION_RENAMED_NEW_NAME_def)
qed

lemma record_size_ge: "12 + length name \<le> record_size name"
  unfolding record_size_def using div_mult_mod_eq [of "12 + length name + 3" 4] mod_less_divisor [of 4 "12 + length name + 3"]
  by linarith

lemma length_encode_record [simp]: "length (encode_record nxt r) = record_size (fst r)"
  using record_size_ge [of "fst r"] by (cases r) (simp add: encode_record_def)

text \<open>One record at an offset: the first three words, the name, and the step to the next record.\<close>

lemma parse_record:
  assumes "record_ok decode r" "nxt < 2 ^ 32"
  shows "parse_packet decode path (pre @ encode_record nxt r @ post) (length pre) res =
    (if nxt = 0 then Parsed (record_event decode path r # res)
     else parse_packet decode path (pre @ encode_record nxt r @ post) (length pre + nxt) (record_event decode path r # res))"
proof -
  obtain name action where r: "r = (name, action)" by (cases r)
  let ?pad = "replicate (record_size name - (12 + length name)) 0 :: byte list"
  let ?b = "pre @ encode_record nxt r @ post"
  have b1: "?b = pre @ dword_bytes nxt @ (dword_bytes action @ dword_bytes (length name) @ name @ ?pad @ post)"
    and b2: "?b = (pre @ dword_bytes nxt) @ dword_bytes action @ (dword_bytes (length name) @ name @ ?pad @ post)"
    and b3: "?b = (pre @ dword_bytes nxt @ dword_bytes action) @ dword_bytes (length name) @ (name @ ?pad @ post)"
    and b4: "?b = (pre @ dword_bytes nxt @ dword_bytes action @ dword_bytes (length name)) @ name @ (?pad @ post)"
    by (simp_all add: encode_record_def r)
  have ok: "length name < 2 ^ 16" "1 \<le> action" "action \<le> 5" "2 * (length name div 2) = length name"
    using assms(1) by (auto simp: record_ok_def r)
  obtain filename where f: "decode name = Some filename"
    using assms(1) by (auto simp: record_ok_def r)
  have d1: "dword_at ?b (length pre) = Some nxt"
    unfolding b1 by (rule dword_at_bytes [OF assms(2)])
  have d2: "dword_at ?b (length pre + 4) = Some action"
    unfolding b2 using dword_at_bytes [of action "pre @ dword_bytes nxt"] ok by simp
  have d3: "dword_at ?b (length pre + 8) = Some (length name)"
    unfolding b3 using dword_at_bytes [of "length name" "pre @ dword_bytes nxt @ dword_bytes action"] ok by simp
  have d4: "bytes_at ?b (length pre + 12) (length name) = Some name"
    unfolding b4 by (simp add: bytes_at_def)
  have e: "record_event decode path r = (path, filename, action - 1)"
    by (simp add: record_event_def r f)
  show ?thesis
    unfolding e by (subst parse_packet.simps) (simp add: d1 d2 d3 d4 f ok(4) Val_action_tag [OF ok(2,3)] Let_def)
qed

lemma parse_encoded:
  assumes "list_all (record_ok decode) rs" "rs \<noteq> []"
  shows "parse_packet decode path (pre @ encode_packet rs) (length pre) res = Parsed (rev (map (record_event decode path) rs) @ res)"
  using assms
proof (induction rs arbitrary: pre res rule: encode_packet.induct)
  case (2 r)
  then show ?case
    using parse_record [of decode r 0 path pre "[]" res] by simp
next
  case (3 r r' rs)
  have "length (fst r) < 2 ^ 16"
    using 3(2) by (cases r) (simp add: record_ok_def)
  then have sz: "record_size (fst r) < 2 ^ 32" "record_size (fst r) \<noteq> 0"
    using record_size_ge [of "fst r"] by (auto simp: record_size_def)
  show ?case
    using parse_record [of decode r "record_size (fst r)" path pre "encode_packet (r' # rs)" res] sz 3(2)
      3(1) [of "pre @ encode_record (record_size (fst r)) r" "record_event decode path r # res"]
    by simp
qed simp

text \<open>A packet as the system made it, with the directory it is about; its events, in the order the parser
  leaves them.\<close>

definition packet_ok :: "(byte list \<Rightarrow> string option) \<Rightarrow> string \<times> (byte list \<times> nat) list \<Rightarrow> bool" where
  "packet_ok decode p \<longleftrightarrow> snd p \<noteq> [] \<and> list_all (record_ok decode) (snd p)"

definition encoded :: "string \<times> (byte list \<times> nat) list \<Rightarrow> string \<times> byte list" where
  "encoded p = (fst p, encode_packet (snd p))"

definition packet_events :: "(byte list \<Rightarrow> string option) \<Rightarrow> string \<times> (byte list \<times> nat) list \<Rightarrow> event list" where
  "packet_events decode p = rev (map (record_event decode (fst p)) (snd p))"

lemma parse_events_encoded:
  "list_all (packet_ok decode) ps \<Longrightarrow>
   parse_events decode (map encoded ps) res = Parsed (concat (map (packet_events decode) (rev ps)) @ res)"
proof (induction ps arbitrary: res)
  case (Cons p ps)
  then show ?case
    using parse_encoded [of decode "snd p" "fst p" "[]" res]
    by (simp add: packet_ok_def encoded_def packet_events_def)
qed simp

text \<open>C34. Packets are decoded completely: on buffers laid out as the system does, no read leaves the
  buffer, and the result holds every record of every packet exactly once with its path, name and
  action; the packets come in the order they arrived (the list given is newest first), the records of
  one packet in reverse.\<close>

theorem parse_events_complete:
  assumes "list_all (packet_ok decode) ps"
  shows "parse_events decode (map encoded ps) [] = Parsed (concat (map (packet_events decode) (rev ps)))"
  using parse_events_encoded [OF assms] by simp

theorem parse_events_complete_witness:
  "parse_events (\<lambda>b. Some (if b = [97, 0] then ''a'' else ''b'')) [encoded (''d'', [([97, 0], 1), ([98, 0], 3)])] [] =
   Parsed [(''d'', ''b'', 2), (''d'', ''a'', 0)]"
  using parse_events_complete [of "\<lambda>b. Some (if b = [97, 0] then ''a'' else ''b'')" "[(''d'', [([97, 0], 1), ([98, 0], 3)])]"]
  by (simp add: record_ok_def record_event_def packet_ok_def packet_events_def)

end
