(* ===== verification/Fswatch_Queue.thy ===== *)
theory Fswatch_Queue
  imports Fswatch_Parse
begin

text \<open>
  The list of packets that the watching thread of \<open>fswatch_win_stubs.c\<close> shares with the threads that call
  \<open>fswatch_win_wait\<close>: \<open>push_events\<close> and \<open>pop_events\<close> are compare-and-exchange loops on the head of a linked
  list, and an auto-reset event wakes up a waiting thread. The model interleaves the single accesses to
  shared memory of one pushing thread with those of any number of waiting threads. Cells are allocated
  at any free address, so an address may come back after it was freed.
\<close>

section \<open>State\<close>

type_synonym addr = nat
type_synonym packet = "string \<times> byte list"

record events_cell =
  e_next :: addr
  e_path :: string
  e_buffer :: "byte list"

text \<open>Where \<open>push_events\<close> is: before the read of the head, before the exchange, at the test of its result
  (the head it found, and the value it was given), before \<open>SetEvent\<close>.\<close>

datatype push_pc = Push_idle | Push_load addr | Push_exchange addr | Push_test addr addr addr | Push_signal

text \<open>Where \<open>fswatch_win_wait\<close> is: waiting for the signal, before the read of the head, before the exchange,
  before \<open>ResetEvent\<close>, in the walk of \<open>parse_events\<close> over the list it took. The number is that of the batch.\<close>

datatype wait_pc = Wait_signal | Pop_load | Pop_exchange addr | Wait_reset nat addr | Wait_parse nat addr "packet list"

text \<open>The last four fields are history: the packets pushed, those now on the list (newest first), the
  batches taken, and the batches whose walk is finished.\<close>

record fsenv =
  heap :: "addr \<rightharpoonup> events_cell"
  events :: addr
  signal :: bool
  pusher :: push_pc
  waiters :: "nat \<Rightarrow> wait_pc"
  pushed :: "packet list"
  pending :: "packet list"
  taken :: "packet list list"
  returned :: "nat \<rightharpoonup> packet list"

definition fs_init :: fsenv where
  "fs_init = \<lparr>heap = (\<lambda>_. None), events = 0, signal = False, pusher = Push_idle, waiters = (\<lambda>_. Wait_signal),
     pushed = [], pending = [], taken = [], returned = (\<lambda>_. None)\<rparr>"

definition cell_packet :: "events_cell \<Rightarrow> packet" where
  "cell_packet c = (e_path c, e_buffer c)"

datatype outcome = Go fsenv | Blocked | Fault

section \<open>Steps\<close>

text \<open>One access of \<open>push_events\<close>. \<open>a\<close> is the block \<open>malloc\<close> returned. The loop test compares the result of the
  exchange with \<open>e->next\<close>: C leaves open whether that operand is read before the exchange or, when
  \<open>reload\<close> holds, after it.\<close>

definition push_step :: "bool \<Rightarrow> addr \<Rightarrow> packet \<Rightarrow> fsenv \<Rightarrow> outcome" where
  "push_step reload a p s =
     (case pusher s of
        Push_idle \<Rightarrow>
          Go (s\<lparr>heap := (heap s)(a \<mapsto> \<lparr>e_next = 0, e_path = fst p, e_buffer = snd p\<rparr>), pusher := Push_load a\<rparr>)
      | Push_load e \<Rightarrow>
          (case heap s e of
             None \<Rightarrow> Fault
           | Some c \<Rightarrow> Go (s\<lparr>heap := (heap s)(e \<mapsto> c\<lparr>e_next := events s\<rparr>), pusher := Push_exchange e\<rparr>))
      | Push_exchange e \<Rightarrow>
          (case heap s e of
             None \<Rightarrow> Fault
           | Some c \<Rightarrow>
               if events s = e_next c
               then Go (s\<lparr>events := e, pusher := Push_test e (events s) (e_next c),
                          pushed := pushed s @ [cell_packet c], pending := cell_packet c # pending s\<rparr>)
               else Go (s\<lparr>pusher := Push_test e (events s) (e_next c)\<rparr>))
      | Push_test e found old \<Rightarrow>
          (case heap s e of
             None \<Rightarrow> (if reload then Fault else Go (s\<lparr>pusher := (if found \<noteq> old then Push_load e else Push_signal)\<rparr>))
           | Some c \<Rightarrow> Go (s\<lparr>pusher := (if found \<noteq> (if reload then e_next c else old) then Push_load e else Push_signal)\<rparr>))
      | Push_signal \<Rightarrow> Go (s\<lparr>signal := True, pusher := Push_idle\<rparr>))"

text \<open>One access of \<open>pop_events\<close> in the waiting thread \<open>i\<close>.\<close>

definition pop_step :: "nat \<Rightarrow> fsenv \<Rightarrow> outcome" where
  "pop_step i s =
     (case waiters s i of
        Pop_load \<Rightarrow> Go (s\<lparr>waiters := (waiters s)(i := Pop_exchange (events s))\<rparr>)
      | Pop_exchange res \<Rightarrow>
          if events s = res
          then Go (s\<lparr>events := 0, waiters := (waiters s)(i := Wait_reset (length (taken s)) res),
                     pending := [], taken := taken s @ [pending s]\<rparr>)
          else Go (s\<lparr>waiters := (waiters s)(i := Pop_load)\<rparr>)
      | _ \<Rightarrow> Blocked)"

text \<open>One access of \<open>fswatch_win_wait\<close>. The event is auto-reset: a wait that ends clears it.\<close>

definition wait_step :: "nat \<Rightarrow> fsenv \<Rightarrow> outcome" where
  "wait_step i s =
     (case waiters s i of
        Wait_signal \<Rightarrow> (if signal s then Go (s\<lparr>signal := False, waiters := (waiters s)(i := Pop_load)\<rparr>) else Blocked)
      | Pop_load \<Rightarrow> pop_step i s
      | Pop_exchange res \<Rightarrow> pop_step i s
      | Wait_reset k res \<Rightarrow> Go (s\<lparr>signal := False, waiters := (waiters s)(i := Wait_parse k res [])\<rparr>)
      | Wait_parse k e acc \<Rightarrow>
          if e = 0 then Go (s\<lparr>waiters := (waiters s)(i := Wait_signal), returned := (returned s)(k \<mapsto> acc)\<rparr>)
          else (case heap s e of
                  None \<Rightarrow> Fault
                | Some c \<Rightarrow> Go (s\<lparr>heap := (heap s)(e := None),
                                 waiters := (waiters s)(i := Wait_parse k (e_next c) (acc @ [cell_packet c]))\<rparr>)))"

lemmas wait_step_simps = wait_step_def pop_step_def

inductive fs_reach :: "bool \<Rightarrow> fsenv \<Rightarrow> bool" for reload where
  init: "fs_reach reload fs_init"
| push: "fs_reach reload s \<Longrightarrow> a \<noteq> 0 \<Longrightarrow> heap s a = None \<Longrightarrow> push_step reload a p s = Go s' \<Longrightarrow> fs_reach reload s'"
| wait: "fs_reach reload s \<Longrightarrow> wait_step i s = Go s' \<Longrightarrow> fs_reach reload s'"

section \<open>The layout of the heap\<close>

fun chain :: "(addr \<rightharpoonup> events_cell) \<Rightarrow> addr \<Rightarrow> addr list \<Rightarrow> bool" where
  "chain h a [] \<longleftrightarrow> a = 0"
| "chain h a (x # xs) \<longleftrightarrow> a = x \<and> x \<noteq> 0 \<and> (case h x of None \<Rightarrow> False | Some c \<Rightarrow> chain h (e_next c) xs)"

definition packets :: "(addr \<rightharpoonup> events_cell) \<Rightarrow> addr list \<Rightarrow> packet list" where
  "packets h xs = map (\<lambda>x. cell_packet (the (h x))) xs"

lemma chain_upd [simp]: "a \<notin> set xs \<Longrightarrow> chain (h(a := v)) p xs = chain h p xs"
  by (induction xs arbitrary: p) (auto split: option.splits)

lemma packets_upd [simp]: "a \<notin> set xs \<Longrightarrow> packets (h(a := v)) xs = packets h xs"
  by (auto simp: packets_def)

lemma packets_simps [simp]: "packets h [] = []" "packets h (x # xs) = cell_packet (the (h x)) # packets h xs"
  by (simp_all add: packets_def)

lemma chain_allocated: "chain h p xs \<Longrightarrow> x \<in> set xs \<Longrightarrow> h x \<noteq> None"
  by (induction xs arbitrary: p) (auto split: option.splits)

lemma chain_null [simp]: "chain h 0 xs \<longleftrightarrow> xs = []"
  by (cases xs) auto

lemma chain_step: "chain h p xs \<Longrightarrow> p \<noteq> 0 \<Longrightarrow> \<exists>c ys. h p = Some c \<and> xs = p # ys \<and> chain h (e_next c) ys"
  by (cases xs) (auto split: option.splits)

text \<open>The cells a waiting thread has taken, with what it has read of its batch.\<close>

definition waiter_ok :: "(addr \<rightharpoonup> events_cell) \<Rightarrow> packet list list \<Rightarrow> wait_pc \<Rightarrow> addr list \<Rightarrow> bool" where
  "waiter_ok h tk pc xs =
     (case pc of
        Wait_reset k e \<Rightarrow> chain h e xs \<and> distinct xs \<and> k < length tk \<and> packets h xs = tk ! k
      | Wait_parse k e acc \<Rightarrow> chain h e xs \<and> distinct xs \<and> k < length tk \<and> acc @ packets h xs = tk ! k
      | _ \<Rightarrow> xs = [])"

text \<open>The cell that is not yet on the list belongs to the pushing thread alone.\<close>

definition own_cell :: "push_pc \<Rightarrow> addr option" where
  "own_cell pc =
     (case pc of
        Push_load e \<Rightarrow> Some e
      | Push_exchange e \<Rightarrow> Some e
      | Push_test e found old \<Rightarrow> (if found \<noteq> old then Some e else None)
      | _ \<Rightarrow> None)"

definition layout :: "fsenv \<Rightarrow> addr list \<Rightarrow> (nat \<Rightarrow> addr list) \<Rightarrow> bool" where
  "layout s l w \<longleftrightarrow>
     chain (heap s) (events s) l \<and> distinct l \<and> packets (heap s) l = pending s \<and>
     (\<forall>i. waiter_ok (heap s) (taken s) (waiters s i) (w i)) \<and>
     (\<forall>i. set l \<inter> set (w i) = {}) \<and> (\<forall>i j. i \<noteq> j \<longrightarrow> set (w i) \<inter> set (w j) = {}) \<and>
     (\<forall>e. own_cell (pusher s) = Some e \<longrightarrow> heap s e \<noteq> None \<and> e \<noteq> 0 \<and> e \<notin> set l \<and> (\<forall>i. e \<notin> set (w i)))"

definition history_ok :: "fsenv \<Rightarrow> bool" where
  "history_ok s \<longleftrightarrow>
     pushed s = concat (map rev (taken s)) @ rev (pending s) \<and>
     (\<forall>k r. returned s k = Some r \<longrightarrow> k < length (taken s) \<and> r = taken s ! k)"

definition fs_inv :: "fsenv \<Rightarrow> bool" where
  "fs_inv s \<longleftrightarrow> history_ok s \<and> (\<exists>l w. layout s l w)"

lemma waiter_ok_simps [simp]:
  "waiter_ok h tk Wait_signal xs \<longleftrightarrow> xs = []"
  "waiter_ok h tk Pop_load xs \<longleftrightarrow> xs = []"
  "waiter_ok h tk (Pop_exchange r) xs \<longleftrightarrow> xs = []"
  "waiter_ok h tk (Wait_reset k e) xs \<longleftrightarrow> chain h e xs \<and> distinct xs \<and> k < length tk \<and> packets h xs = tk ! k"
  "waiter_ok h tk (Wait_parse k e acc) xs \<longleftrightarrow>
     chain h e xs \<and> distinct xs \<and> k < length tk \<and> acc @ packets h xs = tk ! k"
  by (simp_all add: waiter_ok_def)

lemma waiter_ok_upd [simp]: "a \<notin> set xs \<Longrightarrow> waiter_ok (h(a := v)) tk pc xs = waiter_ok h tk pc xs"
  by (simp add: waiter_ok_def split: wait_pc.split)

lemma waiter_ok_taken: "waiter_ok h tk pc xs \<Longrightarrow> waiter_ok h (tk @ [b]) pc xs"
  by (auto simp: waiter_ok_def nth_append split: wait_pc.splits)

lemma waiter_ok_allocated: "waiter_ok h tk pc xs \<Longrightarrow> x \<in> set xs \<Longrightarrow> h x \<noteq> None"
  by (auto simp: waiter_ok_def split: wait_pc.splits dest: chain_allocated)

lemma layout_free:
  assumes "layout s l w" "heap s a = None"
  shows "a \<notin> set l" "a \<notin> set (w i)"
  using assms chain_allocated [of "heap s" "events s" l a] waiter_ok_allocated [of "heap s" "taken s" "waiters s i" "w i" a]
  by (auto simp: layout_def)

lemma fs_inv_init: "fs_inv fs_init"
  unfolding fs_inv_def
  by (intro conjI exI [of _ "[]"] exI [of _ "\<lambda>_. []"])
    (auto simp: fs_init_def layout_def history_ok_def waiter_ok_def own_cell_def)

lemma push_step_layout:
  assumes l: "layout s l w" and a: "a \<noteq> 0" "heap s a = None" and go: "push_step False a p s = Go s'"
  shows "\<exists>l. layout s' l w"
proof (cases "pusher s")
  case Push_idle
  then show ?thesis
    using l a go layout_free [OF l a(2)]
    by (auto simp: push_step_def layout_def own_cell_def intro!: exI [of _ l])
next
  case (Push_load e)
  then obtain c where c: "heap s e = Some c" and out: "e \<notin> set l" "e \<notin> set (w i)" "e \<noteq> 0" for i
    using l by (auto simp: layout_def own_cell_def)
  then show ?thesis
    using l go Push_load by (auto simp: push_step_def layout_def own_cell_def intro!: exI [of _ l])
next
  case (Push_exchange e)
  then obtain c where c: "heap s e = Some c" and out: "e \<notin> set l" "e \<notin> set (w i)" "e \<noteq> 0" for i
    using l by (auto simp: layout_def own_cell_def)
  then show ?thesis
    using l go Push_exchange
    by (auto simp: push_step_def layout_def own_cell_def disjoint_iff split: if_splits
        intro!: exI [of _ "if events s = e_next c then e # l else l"])
next
  case (Push_test e found old)
  then show ?thesis
    using l go by (auto simp: push_step_def layout_def own_cell_def split: option.splits if_splits intro!: exI [of _ l])
next
  case Push_signal
  then show ?thesis
    using l go by (auto simp: push_step_def layout_def own_cell_def intro!: exI [of _ l])
qed

lemma wait_step_layout:
  assumes l: "layout s l w" and go: "wait_step i s = Go s'"
  shows "\<exists>l w. layout s' l w"
proof -
  have waiter: "waiter_ok (heap s) (taken s) (waiters s i) (w i)"
    using l by (simp add: layout_def)
  show ?thesis
  proof (cases "waiters s i")
  case Wait_signal
  then have wi: "w i = []" using l waiter by auto
  have "layout s' l w"
    using l go Wait_signal wi by (auto simp: wait_step_simps layout_def split: if_splits)
  then show ?thesis by blast
next
  case Pop_load
  then have wi: "w i = []" using l waiter by auto
  have "layout s' l w"
    using l go Pop_load wi by (auto simp: wait_step_simps layout_def)
  then show ?thesis by blast
next
  case (Pop_exchange res)
  then have wi: "w i = []" using l waiter by auto
  show ?thesis
  proof (cases "events s = res")
    case True
    have "layout s' [] (w(i := l))"
      using l go Pop_exchange True wi
      by (auto simp: wait_step_simps layout_def waiter_ok_taken nth_append disjoint_iff)
    then show ?thesis by blast
  next
    case False
    have "layout s' l w"
      using l go Pop_exchange False wi by (auto simp: wait_step_simps layout_def)
    then show ?thesis by blast
  qed
next
  case (Wait_reset k res)
  then have "layout s' l w"
    using l go waiter by (auto simp: wait_step_simps layout_def)
  then show ?thesis by blast
next
  case (Wait_parse k e acc)
  have wi: "chain (heap s) e (w i)" "distinct (w i)" "k < length (taken s)" "acc @ packets (heap s) (w i) = taken s ! k"
    using waiter Wait_parse by auto
  show ?thesis
  proof (cases "e = 0")
    case True
    then have "layout s' l w"
      using l go Wait_parse wi by (auto simp: wait_step_simps layout_def)
    then show ?thesis by blast
  next
    case False
    then obtain c ys where c: "heap s e = Some c" "w i = e # ys" "chain (heap s) (e_next c) ys"
      using chain_step wi(1) by blast
    have out: "e \<notin> set l" "own_cell (pusher s) \<noteq> Some e" and others: "j \<noteq> i \<Longrightarrow> e \<notin> set (w j)" for j
      using l c(2) unfolding layout_def by (metis disjoint_iff list.set_intros(1))+
    have apart: "set l \<inter> set ys = {}" "j \<noteq> i \<Longrightarrow> set ys \<inter> set (w j) = {}" for j
      using l c(2) unfolding layout_def by (metis disjoint_iff list.set_intros(2))+
    have own: "own_cell (pusher s) = Some x \<Longrightarrow> x \<notin> set ys" for x
      using l c(2) unfolding layout_def by (metis list.set_intros(2))
    have "layout s' l (w(i := ys))"
      using l go Wait_parse wi c False out others apart own by (auto simp: wait_step_simps layout_def Int_commute)
    then show ?thesis by blast
  qed
qed
qed
lemma push_step_history: "history_ok s \<Longrightarrow> push_step False a p s = Go s' \<Longrightarrow> history_ok s'"
  by (auto simp: push_step_def history_ok_def split: push_pc.splits option.splits if_splits)

lemma wait_step_history:
  assumes l: "layout s l w" and h: "history_ok s" and go: "wait_step i s = Go s'"
  shows "history_ok s'"
proof -
  have waiter: "waiter_ok (heap s) (taken s) (waiters s i) (w i)"
    using l by (simp add: layout_def)
  show ?thesis
  proof (cases "waiters s i")
    case (Wait_parse k e acc)
    then show ?thesis
      using h go waiter by (auto simp: wait_step_simps history_ok_def split: option.splits if_splits)
  qed (use h go in \<open>auto simp: wait_step_simps history_ok_def nth_append less_Suc_eq split: if_splits\<close>)
qed

lemma fs_reach_inv: "fs_reach False s \<Longrightarrow> fs_inv s"
proof (induction rule: fs_reach.induct)
  case init
  show ?case by (rule fs_inv_init)
next
  case (push s a p s')
  then show ?case
    unfolding fs_inv_def by (meson push_step_layout push_step_history)
next
  case (wait s i s')
  then show ?case
    unfolding fs_inv_def by (meson wait_step_layout wait_step_history)
qed

lemma fs_inv_no_fault:
  assumes "fs_inv s"
  shows "push_step False a p s \<noteq> Fault" "wait_step i s \<noteq> Fault"
proof -
  obtain l w where l: "layout s l w"
    using assms by (auto simp: fs_inv_def)
  then have w: "waiter_ok (heap s) (taken s) (waiters s i) (w i)"
    by (simp add: layout_def)
  show "push_step False a p s \<noteq> Fault"
    using l by (auto simp: push_step_def layout_def own_cell_def split: push_pc.split option.split)
  show "wait_step i s \<noteq> Fault"
    using w by (cases "waiters s i") (auto simp: wait_step_simps split: option.split dest: chain_step)
qed

text \<open>What the calls of \<open>fswatch_win_wait\<close> return for their batches.\<close>

definition wait_result :: "(byte list \<Rightarrow> string option) \<Rightarrow> packet list \<Rightarrow> parse_result" where
  "wait_result decode batch = parse_events decode batch []"

lemma batches_parse:
  assumes "concat (map rev tk) = map encoded ps" "list_all (packet_ok decode) ps"
  shows "\<exists>results. map (wait_result decode) tk = map Parsed results \<and> concat results = concat (map (packet_events decode) ps)"
  using assms
proof (induction tk arbitrary: ps)
  case (Cons b tk)
  obtain ps1 ps2 where ps: "ps = ps1 @ ps2" "rev b = map encoded ps1" "concat (map rev tk) = map encoded ps2"
    using Cons.prems(1) by (auto simp: append_eq_map_conv)
  have b: "b = map encoded (rev ps1)"
    using ps(2) by (simp add: rev_map [symmetric] rev_swap)
  obtain results where "map (wait_result decode) tk = map Parsed results" "concat results = concat (map (packet_events decode) ps2)"
    using Cons.IH [OF ps(3)] Cons.prems(2) ps(1) by auto
  moreover have "wait_result decode b = Parsed (concat (map (packet_events decode) ps1))"
    using Cons.prems(2) parse_events_encoded [of decode "rev ps1" "[]"] ps(1) b by (simp add: wait_result_def)
  ultimately show ?case
    using ps(1) by (intro exI [of _ "concat (map (packet_events decode) ps1) # results"]) simp
qed auto


section \<open>Runs\<close>

datatype fs_action = Do_push addr packet | Do_wait nat

fun fs_run :: "bool \<Rightarrow> fs_action list \<Rightarrow> fsenv \<Rightarrow> fsenv option" where
  "fs_run reload [] s = Some s"
| "fs_run reload (Do_push a p # acts) s =
     (if a = 0 \<or> heap s a \<noteq> None then None
      else case push_step reload a p s of Go s \<Rightarrow> fs_run reload acts s | _ \<Rightarrow> None)"
| "fs_run reload (Do_wait i # acts) s =
     (case wait_step i s of Go s \<Rightarrow> fs_run reload acts s | _ \<Rightarrow> None)"

lemma fs_run_reach: "fs_reach reload s \<Longrightarrow> fs_run reload acts s = Some s' \<Longrightarrow> fs_reach reload s'"
  by (induction reload acts s rule: fs_run.induct) (auto split: outcome.splits if_splits intro: fs_reach.intros)

text \<open>A packet pushed at address \<open>a\<close>, the other address being one that stays free.\<close>

definition push_all :: "addr \<Rightarrow> addr \<Rightarrow> packet \<Rightarrow> fs_action list" where
  "push_all a b p = Do_push a p # replicate 4 (Do_push b p)"

lemmas run_simps = push_all_def fs_init_def push_step_def wait_step_simps cell_packet_def numeral_eq_Suc


text \<open>\<open>ResetEvent\<close> after \<open>pop_events\<close> may clear a signal that was set in between: a packet is on the list, every
  thread waits, and nothing will wake one of them before the next packet.\<close>

lemma lost_wakeup:
  "\<exists>s. fs_reach False s \<and> pending s \<noteq> [] \<and> \<not> signal s \<and> pusher s = Push_idle \<and> (\<forall>i. waiters s i = Wait_signal)"
proof -
  let ?acts = "push_all 1 3 ([], []) @ replicate 3 (Do_wait 0) @ push_all 2 3 ([], []) @ replicate 3 (Do_wait 0)"
  obtain s where s: "fs_run False ?acts fs_init = Some s" "pending s \<noteq> []" "\<not> signal s" "pusher s = Push_idle"
      "\<forall>i. waiters s i = Wait_signal"
    by (simp add: run_simps)
  then show ?thesis
    using fs_run_reach [OF fs_reach.init s(1)] by blast
qed

text \<open>Where the operand \<open>e->next\<close> is read after the exchange, the cell may already have been taken and freed.\<close>

lemma push_reload_fault: "\<exists>s. fs_reach True s \<and> push_step True 3 p s = Fault"
proof -
  let ?acts = "push_all 1 3 ([], []) @ [Do_push 2 ([], []), Do_push 3 ([], []), Do_push 3 ([], [])] @ replicate 6 (Do_wait 0)"
  obtain s where s: "fs_run True ?acts fs_init = Some s" "push_step True 3 p s = Fault"
    by (simp add: run_simps)
  then show ?thesis
    using fs_run_reach [OF fs_reach.init s(1)] by blast
qed
end
