(* ===== verification/Fswatch_Watch.thy ===== *)
theory Fswatch_Watch
  imports Posix "HOL-Library.Sublist" "HOL-Library.Multiset"
begin

text \<open>
  The watching thread of \<open>fswatch_win_stubs.c\<close> and the primitives that talk to it. The thread owns a list
  of watches, one per directory handle, and serves the completion port: a completed read of directory
  changes, a failed one, a request to add a directory, a request to shut down. The answers of the system
  calls that serve a completion come with it. The state has, besides the thread's variables, the open
  directory handles and the reads the kernel has not completed yet.
\<close>

section \<open>State\<close>

type_synonym handle = nat
type_synonym wstring = "16 word list"

text \<open>\<open>w_id\<close> is the address of the structure; the handle is \<open>None\<close> for \<open>INVALID_HANDLE_VALUE\<close>; wide strings come
  without their final 0.\<close>

record watch =
  w_id :: nat
  w_path :: string
  w_realpath :: "wstring option"
  w_handle :: "handle option"
  w_buffer :: bool

record thread_state =
  watches :: "watch list"
  shuttingDown :: bool
  handles :: "handle list"
  bad_close :: bool
  reading :: "nat list"
  delivered :: "(string \<times> byte list) list"
  after_add :: bool

definition thread_init :: thread_state where
  "thread_init = \<lparr>watches = [], shuttingDown = False, handles = [], bad_close = False, reading = [], delivered = [],
     after_add = False\<rparr>"

text \<open>\<open>CloseHandle\<close>; on \<open>INVALID_HANDLE_VALUE\<close> it does nothing.\<close>

definition close_handle :: "handle option \<Rightarrow> thread_state \<Rightarrow> thread_state" where
  "close_handle h st =
     (case h of
        None \<Rightarrow> st
      | Some h \<Rightarrow> if h \<in> set (handles st) then st\<lparr>handles := remove1 h (handles st)\<rparr> else st\<lparr>bad_close := True\<rparr>)"

section \<open>Operations\<close>

text \<open>The results of operations that follow pointers.\<close>

datatype 'a checked = OK 'a | Null_deref | Dangling

fun isprefix_w :: "wstring \<Rightarrow> wstring \<Rightarrow> bool" where
  "isprefix_w [] s \<longleftrightarrow> True"
| "isprefix_w (p # ps) [] \<longleftrightarrow> False"
| "isprefix_w (p # ps) (c # cs) \<longleftrightarrow> p = c \<and> isprefix_w ps cs"

definition isprefix :: "wstring option \<Rightarrow> wstring option \<Rightarrow> bool checked" where
  "isprefix pre s =
     (case pre of
        None \<Rightarrow> Null_deref
      | Some p \<Rightarrow> if p = [] then OK True else (case s of None \<Rightarrow> Null_deref | Some s \<Rightarrow> OK (isprefix_w p s)))"

text \<open>\<open>read_changes\<close> on the watch at the address; the call fails on an invalid handle.\<close>

definition set_watch :: "nat \<Rightarrow> (watch \<Rightarrow> watch) \<Rightarrow> watch list \<Rightarrow> watch list" where
  "set_watch w f ws = map (\<lambda>p. if w_id p = w then f p else p) ws"

definition find_watch :: "nat \<Rightarrow> watch list \<Rightarrow> watch option" where
  "find_watch w ws = find (\<lambda>p. w_id p = w) ws"

definition read_changes :: "bool \<Rightarrow> watch \<Rightarrow> thread_state \<Rightarrow> bool \<times> thread_state" where
  "read_changes answer w st =
     (let st = st\<lparr>watches := set_watch (w_id w) (\<lambda>p. p\<lparr>w_buffer := True\<rparr>) (watches st)\<rparr>;
          res = (answer \<and> w_handle w \<noteq> None)
      in (res, if res then st\<lparr>reading := w_id w # reading st\<rparr> else st))"

definition free_watch :: "watch \<Rightarrow> thread_state \<Rightarrow> thread_state" where
  "free_watch w st = close_handle (w_handle w) st"

text \<open>\<open>add_watch\<close>: the answers of the calls it makes, the two loops, and the whole.\<close>

record add_answers =
  a_utf16 :: "wstring option"
  a_open :: "handle option"
  a_address :: nat
  a_final :: "wstring option"
  a_port :: bool

fun already_watched :: "watch list \<Rightarrow> watch \<Rightarrow> bool checked" where
  "already_watched [] w = OK False"
| "already_watched (p # ps) w =
     (case isprefix (w_realpath p) (w_realpath w) of
        OK True \<Rightarrow> OK True
      | OK False \<Rightarrow> already_watched ps w
      | err \<Rightarrow> err)"

fun cancel_included :: "watch \<Rightarrow> watch list \<Rightarrow> thread_state \<Rightarrow> (watch list \<times> thread_state) checked" where
  "cancel_included w [] st = OK ([], st)"
| "cancel_included w (p # ps) st =
     (case isprefix (w_realpath w) (w_realpath p) of
        OK incl \<Rightarrow>
          (let (p, st) = (if incl then (p\<lparr>w_handle := None\<rparr>, close_handle (w_handle p) st) else (p, st))
           in case cancel_included w ps st of
                OK (ps, st) \<Rightarrow> OK (p # ps, st)
              | Null_deref \<Rightarrow> Null_deref
              | Dangling \<Rightarrow> Dangling)
      | Null_deref \<Rightarrow> Null_deref
      | Dangling \<Rightarrow> Dangling)"

definition add_watch :: "add_answers \<Rightarrow> string \<Rightarrow> thread_state \<Rightarrow> (watch option \<times> thread_state) checked" where
  "add_watch A path st =
     (case a_utf16 A of
        None \<Rightarrow> OK (None, st)
      | Some utf16path \<Rightarrow>
          (case a_open A of
             None \<Rightarrow> OK (None, st)
           | Some h \<Rightarrow>
               (let st = st\<lparr>handles := h # handles st\<rparr>;
                    w = \<lparr>w_id = a_address A, w_path = path, w_realpath = a_final A, w_handle = Some h, w_buffer = False\<rparr>
                in case already_watched (watches st) w of
                     OK True \<Rightarrow> OK (None, free_watch w st)
                   | OK False \<Rightarrow>
                       if \<not> a_port A then OK (None, free_watch w st)
                       else
                         (case cancel_included w (watches st) st of
                            OK (ps, st) \<Rightarrow> OK (Some w, st\<lparr>watches := w # ps\<rparr>)
                          | Null_deref \<Rightarrow> Null_deref
                          | Dangling \<Rightarrow> Dangling)
                   | Null_deref \<Rightarrow> Null_deref
                   | Dangling \<Rightarrow> Dangling)))"

fun unlink_watch :: "nat \<Rightarrow> watch list \<Rightarrow> watch list" where
  "unlink_watch w [] = []"
| "unlink_watch w (p # ps) = (if w_id p = w then ps else p # unlink_watch w ps)"

definition remove_watch :: "nat \<Rightarrow> thread_state \<Rightarrow> thread_state checked" where
  "remove_watch w st =
     (case find_watch w (watches st) of
        None \<Rightarrow> Dangling
      | Some p \<Rightarrow> OK (free_watch p (st\<lparr>watches := unlink_watch w (watches st)\<rparr>)))"

section \<open>The thread\<close>

text \<open>What the completion port delivers: an error without or with the watch whose read failed, data for a
  watch with the answer of the next read, a read completed with no bytes (the buffer overflowed), a
  directory to add with the answers of the calls, the request to shut down.\<close>

datatype completion =
    Failed "nat option"
  | Data nat "byte list" bool
  | Overflow nat
  | Add_request string add_answers bool
  | Shutdown_request

definition serve_data :: "nat \<Rightarrow> byte list \<Rightarrow> bool \<Rightarrow> thread_state \<Rightarrow> thread_state checked" where
  "serve_data w b answer st =
     (if shuttingDown st then remove_watch w st
      else case find_watch w (watches st) of
             None \<Rightarrow> Dangling
           | Some p \<Rightarrow>
               (let st = st\<lparr>delivered := delivered st @ [(w_path p, b)],
                            watches := set_watch w (\<lambda>p. p\<lparr>w_buffer := False\<rparr>) (watches st)\<rparr>;
                    (res, st) = read_changes answer p st
                in if \<not> res then remove_watch w st else OK st))"

definition serve_add :: "string \<Rightarrow> add_answers \<Rightarrow> bool \<Rightarrow> thread_state \<Rightarrow> thread_state checked" where
  "serve_add path A answer st =
     (if shuttingDown st then OK (st\<lparr>after_add := True\<rparr>)
      else case add_watch A path st of
             OK (None, st) \<Rightarrow> OK (st\<lparr>after_add := True\<rparr>)
           | OK (Some w, st) \<Rightarrow>
               (let (res, st) = read_changes answer w st
                in case (if \<not> res then remove_watch (w_id w) st else OK st) of
                     OK st \<Rightarrow> OK (st\<lparr>after_add := True\<rparr>)
                   | err \<Rightarrow> err)
           | Null_deref \<Rightarrow> Null_deref
           | Dangling \<Rightarrow> Dangling)"

fun close_all :: "watch list \<Rightarrow> thread_state \<Rightarrow> watch list \<times> thread_state" where
  "close_all [] st = ([], st)"
| "close_all (p # ps) st =
     (let (qs, st) = close_all ps (close_handle (w_handle p) st) in (p\<lparr>w_handle := None\<rparr> # qs, st))"

definition serve_shutdown :: "thread_state \<Rightarrow> thread_state" where
  "serve_shutdown st =
     (let st = st\<lparr>shuttingDown := True\<rparr>; (ws, st) = close_all (watches st) st in st\<lparr>watches := ws\<rparr>)"

text \<open>The kernel takes the read of a completion off its list.\<close>

definition read_done :: "nat \<Rightarrow> thread_state \<Rightarrow> thread_state" where
  "read_done w st = st\<lparr>reading := remove1 w (reading st)\<rparr>"

definition thread_step :: "completion \<Rightarrow> thread_state \<Rightarrow> thread_state checked" where
  "thread_step c st =
     (case c of
        Failed None \<Rightarrow> OK st
      | Failed (Some w) \<Rightarrow> remove_watch w (read_done w st)
      | Data w b answer \<Rightarrow> serve_data w b answer (read_done w st)
      | Overflow w \<Rightarrow> OK (read_done w st)
      | Add_request path A answer \<Rightarrow> serve_add path A answer st
      | Shutdown_request \<Rightarrow> OK (serve_shutdown st))"

datatype thread_end = Returned thread_state | Waiting thread_state | Crashed

fun watch_thread :: "completion list \<Rightarrow> thread_state \<Rightarrow> thread_end" where
  "watch_thread [] st = (if watches st \<noteq> [] \<or> \<not> shuttingDown st then Waiting st else Returned st)"
| "watch_thread (c # cs) st =
     (if watches st \<noteq> [] \<or> \<not> shuttingDown st
      then case thread_step c st of OK st \<Rightarrow> watch_thread cs st | _ \<Rightarrow> Crashed
      else Returned st)"

section \<open>What the kernel may deliver\<close>

text \<open>A read completes only while it is pending; a new handle and a new block are not in use; the final path
  of an open directory is found.\<close>

definition kernel_ok :: "completion \<Rightarrow> thread_state \<Rightarrow> bool" where
  "kernel_ok c st =
     (case c of
        Failed None \<Rightarrow> True
      | Failed (Some w) \<Rightarrow> w \<in> set (reading st)
      | Data w b answer \<Rightarrow> w \<in> set (reading st)
      | Overflow w \<Rightarrow> w \<in> set (reading st)
      | Add_request path A answer \<Rightarrow>
          a_address A \<notin> w_id ` set (watches st) \<and> (\<forall>h. a_open A = Some h \<longrightarrow> h \<notin> set (handles st)) \<and> a_final A \<noteq> None
      | Shutdown_request \<Rightarrow> True)"

text \<open>Every completion meets the condition in the state it is served in.\<close>

fun run_ok :: "(completion \<Rightarrow> thread_state \<Rightarrow> bool) \<Rightarrow> completion list \<Rightarrow> thread_state \<Rightarrow> bool" where
  "run_ok P [] st \<longleftrightarrow> True"
| "run_ok P (c # cs) st \<longleftrightarrow> P c st \<and> (case thread_step c st of OK st \<Rightarrow> run_ok P cs st | _ \<Rightarrow> True)"

section \<open>Invariant\<close>

definition open_of :: "watch \<Rightarrow> handle multiset" where
  "open_of p = (case w_handle p of None \<Rightarrow> {#} | Some h \<Rightarrow> {#h#})"

definition opens :: "watch list \<Rightarrow> handle multiset" where
  "opens ws = sum_list (map open_of ws)"

definition live :: "watch \<Rightarrow> bool" where
  "live p \<longleftrightarrow> w_handle p \<noteq> None"

definition real :: "watch \<Rightarrow> wstring" where
  "real p = the (w_realpath p)"

text \<open>No two live watches cover the same place.\<close>

definition antichain :: "watch list \<Rightarrow> bool" where
  "antichain ws \<longleftrightarrow> (\<forall>p \<in> set ws. \<forall>q \<in> set ws. live p \<and> live q \<and> w_id p \<noteq> w_id q \<longrightarrow> \<not> prefix (real p) (real q))"

definition list_ok :: "watch list \<Rightarrow> bool" where
  "list_ok ws \<longleftrightarrow> distinct (map w_id ws) \<and> (\<forall>p \<in> set ws. w_realpath p \<noteq> None) \<and> antichain ws"

definition thread_ok :: "thread_state \<Rightarrow> bool" where
  "thread_ok st \<longleftrightarrow>
     list_ok (watches st) \<and> mset (handles st) = opens (watches st) \<and> distinct (handles st) \<and> \<not> bad_close st \<and>
     distinct (reading st) \<and> set (reading st) \<subseteq> w_id ` set (watches st) \<and>
     (shuttingDown st \<longrightarrow> (\<forall>p \<in> set (watches st). \<not> live p))"

lemma isprefix_w_prefix: "isprefix_w p s = prefix p s"
  by (induction p s rule: isprefix_w.induct) auto

lemma isprefix_real: "w_realpath p \<noteq> None \<Longrightarrow> w_realpath q \<noteq> None \<Longrightarrow> isprefix (w_realpath p) (w_realpath q) = OK (prefix (real p) (real q))"
  by (auto simp: isprefix_def real_def isprefix_w_prefix)

lemma opens_simps [simp]: "opens [] = {#}" "opens (p # ps) = open_of p + opens ps"
  by (simp_all add: opens_def)

lemma open_of_closed [simp]: "w_handle p = None \<Longrightarrow> open_of p = {#}"
  by (simp add: open_of_def)

lemma opens_none: "(\<And>p. p \<in> set ws \<Longrightarrow> \<not> live p) \<Longrightarrow> opens ws = {#}"
  by (induction ws) (auto simp: live_def)

lemma close_handle_ok:
  assumes "mset (handles st) = open_of p + M" "distinct (handles st)"
  obtains hs where "close_handle (w_handle p) st = st\<lparr>handles := hs\<rparr>" "mset hs = M" "distinct hs"
proof (cases "w_handle p")
  case None
  then show ?thesis
    using assms that [of "handles st"] by (simp add: close_handle_def)
next
  case (Some h)
  then have "h \<in> set (handles st)"
    using assms(1) by (metis (no_types, lifting) open_of_def option.simps(5) set_mset_mset union_iff union_single_eq_member)
  then show ?thesis
    using Some assms that [of "remove1 h (handles st)"] by (simp add: close_handle_def open_of_def)
qed

lemma already_watched_eq:
  "\<forall>p \<in> set ps. w_realpath p \<noteq> None \<Longrightarrow> w_realpath w \<noteq> None \<Longrightarrow>
   already_watched ps w = OK (\<exists>p \<in> set ps. prefix (real p) (real w))"
  by (induction ps) (auto simp: isprefix_real split: bool.split)

definition cancelled :: "watch \<Rightarrow> watch list \<Rightarrow> watch list" where
  "cancelled w ps = map (\<lambda>p. if prefix (real w) (real p) then p\<lparr>w_handle := None\<rparr> else p) ps"

lemma cancel_included_ok:
  assumes "\<forall>p \<in> set ps. w_realpath p \<noteq> None" "w_realpath w \<noteq> None"
    "mset (handles st) = opens ps + M" "distinct (handles st)"
  shows "\<exists>hs. cancel_included w ps st = OK (cancelled w ps, st\<lparr>handles := hs\<rparr>) \<and>
    mset hs = opens (cancelled w ps) + M \<and> distinct hs"
  using assms
proof (induction ps arbitrary: st M)
  case Nil
  then show ?case
    by (intro exI [of _ "handles st"]) (simp add: cancelled_def)
next
  case (Cons p ps)
  have pre: "isprefix (w_realpath w) (w_realpath p) = OK (prefix (real w) (real p))"
    using Cons.prems by (simp add: isprefix_real)
  show ?case
  proof (cases "prefix (real w) (real p)")
    case True
    obtain hs where hs: "close_handle (w_handle p) st = st\<lparr>handles := hs\<rparr>" "mset hs = opens ps + M" "distinct hs"
      by (rule close_handle_ok [of st p "opens ps + M"]) (use Cons.prems in \<open>auto simp: ac_simps\<close>)
    then show ?thesis
      using Cons.IH [of "st\<lparr>handles := hs\<rparr>" M] Cons.prems True pre by (auto simp: cancelled_def)
  next
    case False
    then show ?thesis
      using Cons.IH [of st "open_of p + M"] Cons.prems pre by (auto simp: cancelled_def ac_simps)
  qed
qed

lemma close_all_ok:
  assumes "mset (handles st) = opens ps + M" "distinct (handles st)"
  shows "\<exists>hs. close_all ps st = (map (\<lambda>p. p\<lparr>w_handle := None\<rparr>) ps, st\<lparr>handles := hs\<rparr>) \<and> mset hs = M \<and> distinct hs"
  using assms
proof (induction ps arbitrary: st)
  case Nil
  then show ?case
    by (intro exI [of _ "handles st"]) simp
next
  case (Cons p ps)
  obtain hs where "close_handle (w_handle p) st = st\<lparr>handles := hs\<rparr>" "mset hs = opens ps + M" "distinct hs"
    by (rule close_handle_ok [of st p "opens ps + M"]) (use Cons.prems in \<open>auto simp: ac_simps\<close>)
  then show ?case
    using Cons.IH [of "st\<lparr>handles := hs\<rparr>"] by auto
qed
section \<open>Every completion keeps the invariant\<close>

lemma find_watch_Some:
  assumes "w \<in> w_id ` set ws"
  obtains p where "find_watch w ws = Some p" "p \<in> set ws" "w_id p = w"
proof (cases "find (\<lambda>p. w_id p = w) ws")
  case None
  then show ?thesis
    using assms by (auto simp: find_None_iff)
next
  case (Some p)
  then show ?thesis
    using that [of p] by (auto simp: find_watch_def find_Some_iff)
qed

lemma unlink_watch_filter: "distinct (map w_id ws) \<Longrightarrow> unlink_watch w ws = filter (\<lambda>p. w_id p \<noteq> w) ws"
  by (induction ws) (auto simp: image_iff intro!: filter_True [symmetric])

lemma opens_unlink: "distinct (map w_id ws) \<Longrightarrow> p \<in> set ws \<Longrightarrow> opens ws = open_of p + opens (unlink_watch (w_id p) ws)"
  by (induction ws) (auto simp: ac_simps image_iff)

lemma list_ok_filter: "list_ok ws \<Longrightarrow> list_ok (filter P ws)"
  by (auto simp: list_ok_def antichain_def distinct_map_filter)

lemma remove_watch_ok:
  assumes ok: "thread_ok st" and w: "w \<in> w_id ` set (watches st)" "w \<notin> set (reading st)"
  obtains hs where "remove_watch w st = OK (st\<lparr>watches := filter (\<lambda>p. w_id p \<noteq> w) (watches st), handles := hs\<rparr>)"
    "thread_ok (st\<lparr>watches := filter (\<lambda>p. w_id p \<noteq> w) (watches st), handles := hs\<rparr>)"
proof -
  obtain p where p: "find_watch w (watches st) = Some p" "p \<in> set (watches st)" "w_id p = w"
    by (rule find_watch_Some [OF w(1)])
  have d: "distinct (map w_id (watches st))"
    using ok by (simp add: thread_ok_def list_ok_def)
  let ?ws = "filter (\<lambda>p. w_id p \<noteq> w) (watches st)"
  have u: "unlink_watch w (watches st) = ?ws"
    by (rule unlink_watch_filter [OF d])
  have "opens (watches st) = open_of p + opens ?ws"
    using opens_unlink [OF d p(2)] p(3) u by simp
  then obtain hs where hs: "close_handle (w_handle p) (st\<lparr>watches := ?ws\<rparr>) = st\<lparr>watches := ?ws, handles := hs\<rparr>"
      "mset hs = opens ?ws" "distinct hs"
    using close_handle_ok [of "st\<lparr>watches := ?ws\<rparr>" p "opens ?ws"] ok by (auto simp: thread_ok_def)
  then show ?thesis
    using ok p(1) w(2) u list_ok_filter [of "watches st" "\<lambda>p. w_id p \<noteq> w"]
    by (intro that [of hs]) (auto simp: remove_watch_def free_watch_def thread_ok_def)
qed

text \<open>A map over the watches that keeps addresses and paths and opens no handle keeps the list well formed.\<close>

lemma list_ok_map:
  assumes "list_ok ws" "\<And>p. w_id (g p) = w_id p" "\<And>p. w_realpath (g p) = w_realpath p" "\<And>p. live (g p) \<Longrightarrow> live p"
  shows "list_ok (map g ws)"
  using assms by (auto simp: list_ok_def antichain_def real_def o_def)

definition set_buffer :: "nat \<Rightarrow> bool \<Rightarrow> watch list \<Rightarrow> watch list" where
  "set_buffer w b = set_watch w (\<lambda>p. p\<lparr>w_buffer := b\<rparr>)"

lemma set_buffer_simps [simp]:
  "set_buffer w b [] = []"
  "set_buffer w b (p # ps) = (if w_id p = w then p\<lparr>w_buffer := b\<rparr> else p) # set_buffer w b ps"
  by (simp_all add: set_buffer_def set_watch_def)

lemma set_buffer_list_ok: "list_ok ws \<Longrightarrow> list_ok (set_buffer w b ws)"
  unfolding set_buffer_def set_watch_def by (rule list_ok_map) (auto simp: live_def split: if_splits)

lemma set_buffer_same: "opens (set_buffer w b ws) = opens ws" "w_id ` set (set_buffer w b ws) = w_id ` set ws"
  "real ` {p \<in> set (set_buffer w b ws). live p} = real ` {p \<in> set ws. live p}"
  "(\<forall>p \<in> set (set_buffer w b ws). \<not> live p) = (\<forall>p \<in> set ws. \<not> live p)"
  by (induction ws) (auto simp: open_of_def live_def real_def conj_disj_distribR Collect_disj_eq image_Un)

lemmas set_watch_buffer = set_buffer_list_ok [unfolded set_buffer_def] set_buffer_same [unfolded set_buffer_def]

lemma thread_ok_buffer: "thread_ok st \<Longrightarrow> thread_ok (st\<lparr>watches := set_watch w (\<lambda>p. p\<lparr>w_buffer := b\<rparr>) (watches st)\<rparr>)"
  by (simp add: thread_ok_def set_watch_buffer)

lemma thread_ok_read_done: "thread_ok st \<Longrightarrow> thread_ok (read_done w st)" "thread_ok st \<Longrightarrow> w \<notin> set (reading (read_done w st))"
  by (auto simp: thread_ok_def read_done_def dest: in_set_remove1 notin_set_remove1)

lemma read_done_fields [simp]:
  "watches (read_done w st) = watches st" "shuttingDown (read_done w st) = shuttingDown st" "handles (read_done w st) = handles st"
  "delivered (read_done w st) = delivered st"
  by (simp_all add: read_done_def)

text \<open>A read that was started, or the watch removed.\<close>

definition rearm :: "bool \<Rightarrow> watch \<Rightarrow> thread_state \<Rightarrow> thread_state checked" where
  "rearm answer p st = (let (res, st) = read_changes answer p st in if \<not> res then remove_watch (w_id p) st else OK st)"

lemma rearm_ok:
  assumes ok: "thread_ok st" and w: "p \<in> set (watches st)" "w_id p \<notin> set (reading st)"
  obtains st' where "rearm answer p st = OK st'" "thread_ok st'"
    "answer \<and> live p \<Longrightarrow> st' = st\<lparr>watches := set_watch (w_id p) (\<lambda>p. p\<lparr>w_buffer := True\<rparr>) (watches st), reading := w_id p # reading st\<rparr>"
proof (cases "answer \<and> live p")
  case True
  let ?st = "st\<lparr>watches := set_watch (w_id p) (\<lambda>p. p\<lparr>w_buffer := True\<rparr>) (watches st), reading := w_id p # reading st\<rparr>"
  have "thread_ok ?st"
    using ok w by (simp add: thread_ok_def set_watch_buffer)
  moreover have "rearm answer p st = OK ?st"
    using True by (simp add: rearm_def read_changes_def live_def Let_def)
  ultimately show ?thesis
    using that by blast
next
  case False
  let ?st = "st\<lparr>watches := set_watch (w_id p) (\<lambda>p. p\<lparr>w_buffer := True\<rparr>) (watches st)\<rparr>"
  have w': "w_id p \<in> w_id ` set (watches ?st)" "w_id p \<notin> set (reading ?st)"
    using w by (simp_all add: set_watch_buffer)
  obtain st' where "remove_watch (w_id p) ?st = OK st'" "thread_ok st'"
    by (rule remove_watch_ok [OF thread_ok_buffer [OF ok] w'])
  moreover have "rearm answer p st = remove_watch (w_id p) ?st"
    using False by (auto simp: rearm_def read_changes_def live_def Let_def)
  ultimately show ?thesis
    using False that by metis
qed

text \<open>Adding a watch: ignored when a watch in the list covers the path, else new at the front with the
  watches it covers cancelled.\<close>

definition new_watch :: "add_answers \<Rightarrow> string \<Rightarrow> watch" where
  "new_watch A path = \<lparr>w_id = a_address A, w_path = path, w_realpath = a_final A, w_handle = a_open A, w_buffer = False\<rparr>"

lemma cancelled_ids: "w_id ` set (cancelled w ws) = w_id ` set ws"
  by (induction ws) (auto simp: cancelled_def)

lemma list_ok_add:
  assumes "list_ok ws" "w_id w \<notin> w_id ` set ws" "w_realpath w \<noteq> None" "\<forall>p \<in> set ws. \<not> prefix (real p) (real w)"
  shows "list_ok (w # cancelled w ws)"
proof -
  have l: "list_ok (cancelled w ws)"
    unfolding cancelled_def by (rule list_ok_map [OF assms(1)]) (auto simp: live_def split: if_splits)
  have r: "real p \<in> real ` set ws \<and> w_id p \<in> w_id ` set ws" "live p \<Longrightarrow> \<not> prefix (real w) (real p)"
    if "p \<in> set (cancelled w ws)" for p
    using that by (auto simp: cancelled_def real_def live_def split: if_splits)
  show ?thesis
    using l r assms by (fastforce simp: list_ok_def antichain_def)
qed

lemma add_watch_ok:
  assumes ok: "thread_ok st" and k: "kernel_ok (Add_request path A answer) st" and run: "\<not> shuttingDown st"
  obtains (ignored) "add_watch A path st = OK (None, st)"
      "a_utf16 A = None \<or> a_open A = None \<or> (\<exists>p \<in> set (watches st). prefix (real p) (real (new_watch A path))) \<or> \<not> a_port A"
  | (added) hs st' where "add_watch A path st = OK (Some (new_watch A path), st')" "thread_ok st'"
      "st' = st\<lparr>watches := new_watch A path # cancelled (new_watch A path) (watches st), handles := hs\<rparr>"
      "live (new_watch A path)"
proof (cases "a_utf16 A = None \<or> a_open A = None")
  case True
  then show ?thesis
    by (intro ignored) (auto simp: add_watch_def split: option.split)
next
  case False
  then obtain u h where u: "a_utf16 A = Some u" and h: "a_open A = Some h" by auto
  let ?w = "new_watch A path"
  have w: "?w = \<lparr>w_id = a_address A, w_path = path, w_realpath = a_final A, w_handle = Some h, w_buffer = False\<rparr>"
    by (simp add: new_watch_def h)
  have new: "a_address A \<notin> w_id ` set (watches st)" "h \<notin> set (handles st)" "w_realpath ?w \<noteq> None"
    and lst: "list_ok (watches st)" "\<forall>p \<in> set (watches st). w_realpath p \<noteq> None"
    using k ok h by (auto simp: kernel_ok_def new_watch_def thread_ok_def list_ok_def)
  have aw: "already_watched (watches st) ?w = OK (\<exists>p \<in> set (watches st). prefix (real p) (real ?w))"
    by (rule already_watched_eq [OF lst(2) new(3)])
  let ?st1 = "st\<lparr>handles := h # handles st\<rparr>"
  have step: "add_watch A path st =
      (if (\<exists>p \<in> set (watches st). prefix (real p) (real ?w)) \<or> \<not> a_port A then OK (None, free_watch ?w ?st1)
       else case cancel_included ?w (watches st) ?st1 of OK (ps, st) \<Rightarrow> OK (Some ?w, st\<lparr>watches := ?w # ps\<rparr>)
            | Null_deref \<Rightarrow> Null_deref | Dangling \<Rightarrow> Dangling)"
    by (simp add: add_watch_def u h w [symmetric] aw Let_def split: bool.split)
  show ?thesis
  proof (cases "(\<exists>p \<in> set (watches st). prefix (real p) (real ?w)) \<or> \<not> a_port A")
    case True
    have "free_watch ?w ?st1 = st"
      by (simp add: free_watch_def close_handle_def w)
    then show ?thesis
      using True step by (intro ignored) auto
  next
    case False
    obtain hs where hs: "cancel_included ?w (watches st) ?st1 =
        OK (cancelled ?w (watches st), st\<lparr>handles := hs\<rparr>)" "mset hs = opens (cancelled ?w (watches st)) + {#h#}" "distinct hs"
      using cancel_included_ok [OF lst(2) new(3), of ?st1 "{#h#}"] ok new
      by (auto simp: thread_ok_def)
    let ?st = "st\<lparr>watches := ?w # cancelled ?w (watches st), handles := hs\<rparr>"
    have "list_ok (?w # cancelled ?w (watches st))"
      using False new lst by (intro list_ok_add) (auto simp: w)
    then have "thread_ok ?st"
      using ok hs(2,3) run cancelled_ids [of ?w "watches st"]
      by (auto simp: thread_ok_def open_of_def new_watch_def h)
    moreover have "add_watch A path st = OK (Some ?w, ?st)"
      unfolding step using False hs(1) by auto
    ultimately show ?thesis
      by (intro added [of ?st hs]) (auto simp: live_def w)
  qed
qed

lemma serve_data_rearm:
  "\<not> shuttingDown st \<Longrightarrow> find_watch w (watches st) = Some p \<Longrightarrow> w_id p = w \<Longrightarrow>
   serve_data w b answer st = rearm answer p (st\<lparr>delivered := delivered st @ [(w_path p, b)], watches := set_buffer w False (watches st)\<rparr>)"
  by (auto simp: serve_data_def rearm_def set_buffer_def Let_def split: prod.split)

lemma serve_data_ok:
  assumes ok: "thread_ok st" and w: "w \<in> w_id ` set (watches st)" "w \<notin> set (reading st)"
  obtains st' where "serve_data w b answer st = OK st'" "thread_ok st'"
proof (cases "shuttingDown st")
  case True
  obtain hs where "remove_watch w st = OK (st\<lparr>watches := filter (\<lambda>p. w_id p \<noteq> w) (watches st), handles := hs\<rparr>)"
      "thread_ok (st\<lparr>watches := filter (\<lambda>p. w_id p \<noteq> w) (watches st), handles := hs\<rparr>)"
    by (rule remove_watch_ok [OF ok w])
  then show ?thesis
    using True that by (simp add: serve_data_def)
next
  case False
  obtain p where p: "find_watch w (watches st) = Some p" "p \<in> set (watches st)" "w_id p = w"
    by (rule find_watch_Some [OF w(1)])
  let ?st = "st\<lparr>delivered := delivered st @ [(w_path p, b)], watches := set_buffer w False (watches st)\<rparr>"
  have "thread_ok ?st"
    using ok by (simp add: thread_ok_def set_buffer_same set_buffer_list_ok)
  moreover have "p\<lparr>w_buffer := False\<rparr> \<in> set (watches ?st)" "w_id (p\<lparr>w_buffer := False\<rparr>) \<notin> set (reading ?st)"
    using p w(2) by (auto simp: set_buffer_def set_watch_def image_iff)
  ultimately obtain st' where "rearm answer (p\<lparr>w_buffer := False\<rparr>) ?st = OK st'" "thread_ok st'"
    by (rule rearm_ok)
  moreover have "rearm answer (p\<lparr>w_buffer := False\<rparr>) ?st = rearm answer p ?st"
    by (simp add: rearm_def read_changes_def Let_def)
  ultimately show ?thesis
    using that serve_data_rearm [OF False p(1,3)] by metis
qed

lemma serve_add_ok:
  assumes ok: "thread_ok st" and k: "kernel_ok (Add_request path A answer) st"
  obtains st' where "serve_add path A answer st = OK st'" "thread_ok st'"
proof (cases "shuttingDown st")
  case True
  then show ?thesis
    using ok that [of "st\<lparr>after_add := True\<rparr>"] by (simp add: serve_add_def thread_ok_def)
next
  case False
  show ?thesis
  proof (cases rule: add_watch_ok [OF ok k False])
    case 1
    then show ?thesis
      using ok False that [of "st\<lparr>after_add := True\<rparr>"] by (simp add: serve_add_def thread_ok_def)
  next
    case (2 hs st1)
    let ?w = "new_watch A path"
    have "?w \<in> set (watches st1)" "w_id ?w \<notin> set (reading st1)"
      using 2(3) ok k by (auto simp: thread_ok_def kernel_ok_def new_watch_def)
    then obtain st2 where st2: "rearm answer ?w st1 = OK st2" "thread_ok st2"
      using rearm_ok [OF 2(2)] by metis
    then have "serve_add path A answer st = OK (st2\<lparr>after_add := True\<rparr>)"
      using False 2(1) by (cases "read_changes answer ?w st1") (simp add: serve_add_def rearm_def)
    then show ?thesis
      using st2(2) that [of "st2\<lparr>after_add := True\<rparr>"] by (simp add: thread_ok_def)
  qed
qed

lemma serve_shutdown_eq:
  assumes "thread_ok st"
  shows "serve_shutdown st = st\<lparr>shuttingDown := True, handles := [], watches := map (\<lambda>p. p\<lparr>w_handle := None\<rparr>) (watches st)\<rparr>"
  using close_all_ok [of "st\<lparr>shuttingDown := True\<rparr>" "watches st" "{#}"] assms
  by (auto simp: serve_shutdown_def thread_ok_def Let_def)

lemma opens_closed: "opens (map (\<lambda>p. p\<lparr>w_handle := None\<rparr>) ws) = {#}"
  by (rule opens_none) (auto simp: live_def)

lemma serve_shutdown_ok: "thread_ok st \<Longrightarrow> thread_ok (serve_shutdown st)"
  using list_ok_map [of "watches st" "\<lambda>p. p\<lparr>w_handle := None\<rparr>"]
  by (auto simp: serve_shutdown_eq thread_ok_def live_def image_image opens_closed)

lemma thread_step_ok:
  assumes ok: "thread_ok st" and k: "kernel_ok c st"
  obtains st' where "thread_step c st = OK st'" "thread_ok st'"
proof -
  have rd: "thread_ok (read_done w st)" "w \<in> w_id ` set (watches (read_done w st))" "w \<notin> set (reading (read_done w st))"
    if "w \<in> set (reading st)" for w
    using that ok thread_ok_read_done by (auto simp: thread_ok_def)
  show ?thesis
  proof (cases c)
    case (Failed o1)
    show ?thesis
    proof (cases o1)
      case None
      then show ?thesis using that ok Failed by (simp add: thread_step_def)
    next
      case (Some w)
      then have "w \<in> set (reading st)" using k Failed by (simp add: kernel_ok_def)
      from remove_watch_ok [OF rd [OF this]] show ?thesis
        using that Failed Some by (auto simp: thread_step_def)
    qed
  next
    case (Data w b answer)
    then have "w \<in> set (reading st)" using k by (simp add: kernel_ok_def)
    from serve_data_ok [OF rd [OF this]] show ?thesis
      using that Data by (auto simp: thread_step_def)
  next
    case (Overflow w)
    then show ?thesis
      using that [of "read_done w st"] rd k by (simp add: thread_step_def kernel_ok_def)
  next
    case (Add_request path A answer)
    from serve_add_ok [OF ok k [unfolded this]] show ?thesis
      using that Add_request by (auto simp: thread_step_def)
  next
    case Shutdown_request
    then show ?thesis
      using that serve_shutdown_ok [OF ok] by (simp add: thread_step_def)
  qed
qed

lemma thread_ok_init: "thread_ok thread_init"
  by (simp add: thread_ok_def thread_init_def list_ok_def antichain_def)

text \<open>What every run of the thread needs of a condition on completions and a property of states.\<close>

locale served =
  fixes P :: "completion \<Rightarrow> thread_state \<Rightarrow> bool"
    and I :: "thread_state \<Rightarrow> bool"
  assumes step: "I st \<Longrightarrow> P c st \<Longrightarrow> \<exists>st'. thread_step c st = OK st' \<and> I st'"
begin

lemma run:
  "I st \<Longrightarrow> run_ok P cs st \<Longrightarrow>
   \<exists>st'. I st' \<and> (watch_thread cs st = Waiting st' \<or> watch_thread cs st = Returned st' \<and> watches st' = [])"
proof (induction cs arbitrary: st)
  case (Cons c cs)
  then obtain st1 where st1: "thread_step c st = OK st1" "I st1"
    using step by (metis run_ok.simps(2))
  then show ?case
    using Cons.IH [OF st1(2)] Cons.prems by auto
qed auto

end

interpretation kernel: served kernel_ok thread_ok
  by unfold_locales (metis thread_step_ok)

lemmas watch_thread_ok = kernel.run

section \<open>Properties of the thread\<close>


text \<open>The read that a completion ends, where it ends the use of its watch at shutdown.\<close>

definition read_of :: "completion \<Rightarrow> nat option" where
  "read_of c = (case c of Failed w \<Rightarrow> w | Data w b answer \<Rightarrow> Some w | _ \<Rightarrow> None)"

lemma watch_thread_append: "watch_thread cs st = Waiting st' \<Longrightarrow> watch_thread (cs @ ds) st = watch_thread ds st'"
  by (induction cs arbitrary: st) (auto split: if_splits checked.splits)

text \<open>A run that adds the directories \<open>C:/a/b\<close> and then \<open>C:/a\<close>.\<close>

definition sample_add :: "nat \<Rightarrow> wstring \<Rightarrow> completion" where
  "sample_add n r = Add_request ''d'' \<lparr>a_utf16 = Some r, a_open = Some n, a_address = n, a_final = Some r, a_port = True\<rparr> True"

lemmas thread_simps = sample_add_def thread_init_def thread_step_def serve_add_def add_watch_def isprefix_def free_watch_def
  close_handle_def read_changes_def set_watch_def kernel_ok_def serve_shutdown_def remove_watch_def find_watch_def read_done_def
  serve_data_def Let_def


text \<open>A state with one watch less.\<close>

definition without :: "nat \<Rightarrow> handle list \<Rightarrow> thread_state \<Rightarrow> thread_state" where
  "without w hs st =
     st\<lparr>watches := filter (\<lambda>p. w_id p \<noteq> w) (watches st), handles := hs, reading := remove1 w (reading st)\<rparr>"

lemma without_fields [simp]:
  "watches (without w hs st) = filter (\<lambda>p. w_id p \<noteq> w) (watches st)" "reading (without w hs st) = remove1 w (reading st)"
  "shuttingDown (without w hs st) = shuttingDown st" "handles (without w hs st) = hs"
  by (simp_all add: without_def)

lemma remove_read_done:
  assumes "thread_ok st" "w \<in> set (reading st)"
  obtains hs where "remove_watch w (read_done w st) = OK (without w hs st)" "thread_ok (without w hs st)"
proof (rule remove_watch_ok [OF thread_ok_read_done(1) [OF assms(1)] _ thread_ok_read_done(2) [OF assms(1)]])
  show "w \<in> w_id ` set (watches (read_done w st))"
    using assms by (auto simp: thread_ok_def)
  fix hs
  assume "remove_watch w (read_done w st) =
      OK (read_done w st\<lparr>watches := filter (\<lambda>p. w_id p \<noteq> w) (watches (read_done w st)), handles := hs\<rparr>)"
    "thread_ok (read_done w st\<lparr>watches := filter (\<lambda>p. w_id p \<noteq> w) (watches (read_done w st)), handles := hs\<rparr>)"
  moreover have "read_done w st\<lparr>watches := filter (\<lambda>p. w_id p \<noteq> w) (watches (read_done w st)), handles := hs\<rparr> = without w hs st"
    by (simp add: read_done_def without_def)
  ultimately show ?thesis
    using that by simp
qed

lemma drain_step: "shuttingDown st \<Longrightarrow> read_of c = Some w \<Longrightarrow> thread_step c st = remove_watch w (read_done w st)"
  by (auto simp: read_of_def thread_step_def serve_data_def split: completion.splits)

lemma drain:
  assumes "thread_ok st" "shuttingDown st" "map read_of cs = map Some ks" "distinct ks"
    "set ks = set (reading st)" "w_id ` set (watches st) = set (reading st)"
  shows "\<exists>st'. watch_thread cs st = Returned st' \<and> handles st' = []"
  using assms
proof (induction cs arbitrary: st ks)
  case Nil
  then show ?case by (simp add: thread_ok_def)
next
  case (Cons c cs)
  obtain w ks' where ks: "ks = w # ks'" "read_of c = Some w" "map read_of cs = map Some ks'"
    using Cons.prems(3) by (cases ks) auto
  have w: "w \<in> set (reading st)" "distinct (reading st)"
    using Cons.prems ks by (auto simp: thread_ok_def)
  obtain hs where st1: "remove_watch w (read_done w st) = OK (without w hs st)" "thread_ok (without w hs st)"
    by (rule remove_read_done [OF Cons.prems(1) w(1)])
  have "w_id ` {p \<in> set (watches st). w_id p \<noteq> w} = w_id ` set (watches st) - {w}"
    by auto
  then have "\<exists>st'. watch_thread cs (without w hs st) = Returned st' \<and> handles st' = []"
    using Cons.prems ks w by (intro Cons.IH [OF st1(2) _ ks(3)]) auto
  moreover have "watches st \<noteq> []"
    using Cons.prems(6) w(1) by auto
  ultimately show ?case
    using st1(1) Cons.prems(2) drain_step [OF Cons.prems(2) ks(2)] by simp
qed

lemma watch_thread_waiting: "watch_thread cs st = Waiting st' \<Longrightarrow> watches st' \<noteq> [] \<or> \<not> shuttingDown st'"
  by (induction cs arbitrary: st) (auto split: if_splits checked.splits)



text \<open>A watch without a pending read, which is what a completion without bytes leaves behind, keeps the thread
  from ever returning: nothing can complete that would remove it.\<close>

definition stuck :: "nat \<Rightarrow> thread_state \<Rightarrow> bool" where
  "stuck w st \<longleftrightarrow> thread_ok st \<and> shuttingDown st \<and> w \<in> w_id ` set (watches st) \<and> w \<notin> set (reading st)"

lemma stuck_step:
  assumes "stuck w st" "kernel_ok c st"
  obtains st' where "thread_step c st = OK st'" "stuck w st'"
proof (cases "read_of c")
  case (Some v)
  then have v: "v \<in> set (reading st)" "v \<noteq> w" "thread_ok st" "shuttingDown st"
    using assms by (auto simp: read_of_def kernel_ok_def stuck_def split: completion.splits)
  obtain hs where st1: "remove_watch v (read_done v st) = OK (without v hs st)" "thread_ok (without v hs st)"
    by (rule remove_read_done [OF v(3,1)])
  moreover have "w \<in> w_id ` set (watches (without v hs st))" "w \<notin> set (reading (without v hs st))"
    using assms(1) v(2) by (auto simp: stuck_def image_iff dest: notin_set_remove1)
  ultimately show ?thesis
    using that [of "without v hs st"] v(4) drain_step [OF v(4) Some] by (simp add: stuck_def)
next
  case None
  obtain st' where st': "thread_step c st = OK st'" "thread_ok st'"
    using thread_step_ok assms unfolding stuck_def by metis
  moreover have "w \<in> w_id ` set (watches st')" "w \<notin> set (reading st')" "shuttingDown st'"
    using None st'(1) assms serve_shutdown_eq [of st]
    by (auto simp: read_of_def thread_step_def stuck_def serve_add_def read_done_def image_image
        split: completion.splits option.splits dest: notin_set_remove1)
  ultimately show ?thesis
    using that by (simp add: stuck_def)
qed

interpretation overflow: served kernel_ok "stuck w" for w
  by unfold_locales (metis stuck_step)

lemma overflow_never_returns: "stuck w st \<Longrightarrow> run_ok kernel_ok cs st \<Longrightarrow> \<exists>st'. watch_thread cs st = Waiting st' \<and> stuck w st'"
  using overflow.run [of w st cs] by (auto simp: stuck_def)

lemma overflow_reaches_stuck:
  "\<exists>st. run_ok kernel_ok [sample_add 1 [67], Overflow 1, Shutdown_request] thread_init \<and>
     watch_thread [sample_add 1 [67], Overflow 1, Shutdown_request] thread_init = Waiting st \<and> stuck 1 st"
proof -
  let ?cs = "[sample_add 1 [67], Overflow 1, Shutdown_request]"
  have run: "run_ok kernel_ok ?cs thread_init"
    by (simp add: thread_simps)
  obtain st where st: "watch_thread ?cs thread_init = Waiting st" "shuttingDown st" "w_id ` set (watches st) = {1}" "reading st = []"
    by (simp add: thread_simps)
  moreover have "thread_ok st"
    using watch_thread_ok [OF thread_ok_init run] st(1) by auto
  ultimately show ?thesis
    using run by (auto simp: stuck_def)
qed
section \<open>Coverage\<close>

text \<open>Nothing goes wrong with a live watch: its reads succeed and do not overflow, a new directory can be
  bound to the port, and there is no shutdown.\<close>

definition live_at :: "nat \<Rightarrow> thread_state \<Rightarrow> bool" where
  "live_at w st \<longleftrightarrow> (\<exists>p \<in> set (watches st). w_id p = w \<and> live p)"

definition undisturbed :: "completion \<Rightarrow> thread_state \<Rightarrow> bool" where
  "undisturbed c st =
     (kernel_ok c st \<and>
      (case c of
         Failed None \<Rightarrow> True
       | Failed (Some w) \<Rightarrow> \<not> live_at w st
       | Data w b answer \<Rightarrow> live_at w st \<longrightarrow> answer
       | Overflow w \<Rightarrow> False
       | Add_request path A answer \<Rightarrow> answer \<and> a_port A
       | Shutdown_request \<Rightarrow> False))"

text \<open>The directories that were asked for and could be opened, by their final path.\<close>

fun requested :: "completion list \<Rightarrow> wstring list" where
  "requested [] = []"
| "requested (Add_request path A answer # cs) =
     (if a_utf16 A \<noteq> None \<and> a_open A \<noteq> None then the (a_final A) # requested cs else requested cs)"
| "requested (c # cs) = requested cs"

definition live_paths :: "thread_state \<Rightarrow> wstring set" where
  "live_paths st = real ` {p \<in> set (watches st). live p}"

definition covers :: "wstring set \<Rightarrow> wstring \<Rightarrow> bool" where
  "covers L r \<longleftrightarrow> (\<exists>x \<in> L. prefix x r)"

definition steady :: "thread_state \<Rightarrow> bool" where
  "steady st \<longleftrightarrow>
     thread_ok st \<and> \<not> shuttingDown st \<and> (\<forall>p \<in> set (watches st). covers (live_paths st) (real p)) \<and>
     (\<forall>p \<in> set (watches st). live p \<longrightarrow> w_id p \<in> set (reading st))"

lemma live_at_unique: "list_ok (watches st) \<Longrightarrow> p \<in> set (watches st) \<Longrightarrow> live_at (w_id p) st = live p"
  by (auto simp: list_ok_def live_at_def distinct_map dest: inj_onD)

lemma without_dead:
  assumes "list_ok (watches st)" "\<not> live_at w st"
  shows "live_paths (without w hs st) = live_paths st"
  using assms by (force simp: live_paths_def live_at_def)

lemma steady_without:
  assumes "steady st" "\<not> live_at w st" "thread_ok (without w hs st)"
  shows "steady (without w hs st)"
proof -
  have "live_paths (without w hs st) = live_paths st"
    using assms by (intro without_dead) (auto simp: steady_def thread_ok_def)
  then show ?thesis
    using assms by (auto simp: steady_def live_at_def)
qed

lemma steadyI:
  assumes "steady st" "thread_ok st'" "shuttingDown st' = shuttingDown st"
    "real ` set (watches st') \<subseteq> real ` set (watches st)" "live_paths st' = live_paths st"
    "w_id ` {p \<in> set (watches st'). live p} \<subseteq> set (reading st')"
  shows "steady st'"
proof -
  have "covers (live_paths st') (real p)" if "p \<in> set (watches st')" for p
    using that assms(1,4,5) by (auto simp: steady_def)
  then show ?thesis
    using assms by (auto simp: steady_def)
qed

lemma set_buffer_views: "real ` set (set_buffer w b ws) = real ` set ws"
  "w_id ` {p \<in> set (set_buffer w b ws). live p} = w_id ` {p \<in> set ws. live p}"
  by (induction ws) (auto simp: live_def real_def conj_disj_distribR Collect_disj_eq image_Un)

lemma rearm_dead:
  assumes ok: "thread_ok st" and w: "p \<in> set (watches st)" "w_id p \<notin> set (reading st)" and dead: "\<not> live p"
  obtains hs where "rearm answer p st = OK (without (w_id p) hs (st\<lparr>watches := set_buffer (w_id p) True (watches st)\<rparr>))"
    "thread_ok (without (w_id p) hs (st\<lparr>watches := set_buffer (w_id p) True (watches st)\<rparr>))"
proof -
  let ?st = "st\<lparr>watches := set_buffer (w_id p) True (watches st)\<rparr>"
  have "thread_ok ?st"
    using thread_ok_buffer [OF ok] by (simp add: set_buffer_def)
  moreover have "w_id p \<in> w_id ` set (watches ?st)" "w_id p \<notin> set (reading ?st)"
    using w by (simp_all add: set_buffer_same)
  ultimately obtain hs where "remove_watch (w_id p) ?st = OK (without (w_id p) hs ?st)" "thread_ok (without (w_id p) hs ?st)"
    using remove_watch_ok [of ?st "w_id p"] w(2) by (auto simp: without_def remove1_idem)
  moreover have "rearm answer p st = remove_watch (w_id p) ?st"
    using dead by (simp add: rearm_def read_changes_def live_def set_buffer_def Let_def)
  ultimately show ?thesis
    using that by metis
qed

lemma filter_dead: "w \<notin> w_id ` {p \<in> set ws. live p} \<Longrightarrow> {p. p \<in> set ws \<and> w_id p \<noteq> w \<and> live p} = {p \<in> set ws. live p}"
  by auto

lemma data_steady:
  assumes s: "steady st" and w: "w \<in> set (reading st)" and a: "live_at w st \<longrightarrow> answer"
  obtains st' where "serve_data w b answer (read_done w st) = OK st'" "steady st'" "live_paths st' = live_paths st"
proof -
  have ok: "thread_ok st" "list_ok (watches st)" and run: "\<not> shuttingDown st"
    using s by (auto simp: steady_def thread_ok_def)
  obtain p where p: "find_watch w (watches st) = Some p" "p \<in> set (watches st)" "w_id p = w"
    by (rule find_watch_Some [of w "watches st"]) (use ok w in \<open>auto simp: thread_ok_def\<close>)
  let ?q = "p\<lparr>w_buffer := False\<rparr>"
  let ?st = "read_done w st\<lparr>delivered := delivered st @ [(w_path p, b)], watches := set_buffer w False (watches st)\<rparr>"
  have ok1: "thread_ok ?st"
    using thread_ok_read_done(1) [OF ok(1), of w] by (simp add: thread_ok_def set_buffer_same set_buffer_list_ok)
  have q: "?q \<in> set (watches ?st)" "w_id ?q \<notin> set (reading ?st)" "live ?q = live p" "w_id ?q = w"
    using p thread_ok_read_done(2) [OF ok(1), of w] by (auto simp: set_buffer_def set_watch_def image_iff live_def)
  have e: "serve_data w b answer (read_done w st) = rearm answer ?q ?st"
    using serve_data_rearm [of "read_done w st" w p b answer] run p by (simp add: rearm_def read_changes_def Let_def)
  have lp: "live_at w st = live p"
    using live_at_unique [OF ok(2) p(2)] p(3) by simp
  have reads: "w_id ` {p \<in> set (watches st). live p} \<subseteq> set (reading st)"
    using s by (auto simp: steady_def)
  have rd: "set (remove1 w (reading st)) = set (reading st) - {w}"
    using ok(1) by (simp add: thread_ok_def)
  show ?thesis
  proof (cases "live p")
    case True
    then obtain st' where st': "rearm answer ?q ?st = OK st'" "thread_ok st'"
        "st' = ?st\<lparr>watches := set_buffer w True (watches ?st), reading := w # reading ?st\<rparr>"
      using rearm_ok [OF ok1 q(1,2), of answer] q a lp by (auto simp: set_buffer_def)
    have "live_paths st' = live_paths st"
      by (simp add: st'(3) live_paths_def set_buffer_same)
    moreover have "steady st'"
      using reads w by (intro steadyI [OF s st'(2)])
        (auto simp: st'(3) live_paths_def set_buffer_same set_buffer_views read_done_def rd)
    ultimately show ?thesis
      using that e st'(1) by simp
  next
    case False
    obtain hs where st': "rearm answer ?q ?st = OK (without w hs (?st\<lparr>watches := set_buffer w True (watches ?st)\<rparr>))"
        "thread_ok (without w hs (?st\<lparr>watches := set_buffer w True (watches ?st)\<rparr>))"
      by (rule rearm_dead [OF ok1 q(1,2), unfolded q(4)]) (use False q(3) in auto)
    let ?st' = "without w hs (?st\<lparr>watches := set_buffer w True (watches ?st)\<rparr>)"
    have dead: "w \<notin> w_id ` {p \<in> set (watches st). live p}"
      using False lp by (auto simp: live_at_def)
    let ?ws = "set_buffer w True (set_buffer w False (watches st))"
    have "{p \<in> set (watches ?st'). live p} = {p \<in> set ?ws. live p}"
      using dead set_buffer_views(2) [of w] by (simp add: filter_dead)
    then have ids: "w_id ` {p \<in> set (watches ?st'). live p} = w_id ` {p \<in> set (watches st). live p}"
      and "live_paths ?st' = live_paths st"
      by (simp_all only: live_paths_def set_buffer_views set_buffer_same)
    have "real q \<in> real ` set (watches st)" if "q \<in> set ?ws" for q
      using that set_buffer_views(1) by (metis imageI)
    moreover have "remove1 w (remove1 w (reading st)) = remove1 w (reading st)"
      using rd by (simp add: remove1_idem)
    ultimately have "steady ?st'"
      using reads dead ids \<open>live_paths ?st' = live_paths st\<close> by (intro steadyI [OF s st'(2)])
        (auto simp: set_buffer_views read_done_def rd)
    then show ?thesis
      using that e st'(1) \<open>live_paths ?st' = live_paths st\<close> by simp
  qed
qed

lemma cancelled_views:
  "{p \<in> set (cancelled w ws). live p} = {p \<in> set ws. live p \<and> \<not> prefix (real w) (real p)}"
  "real ` set (cancelled w ws) = real ` set ws"
  by (induction ws) (auto simp: cancelled_def live_def real_def)

lemma add_steady:
  assumes s: "steady st" and k: "kernel_ok (Add_request path A True) st" and port: "a_port A"
  obtains st' where "serve_add path A True st = OK st'" "steady st'"
    "\<And>r. covers (live_paths st) r \<Longrightarrow> covers (live_paths st') r"
    "a_utf16 A \<noteq> None \<and> a_open A \<noteq> None \<Longrightarrow> covers (live_paths st') (the (a_final A))"
proof -
  let ?w = "new_watch A path"
  have ok: "thread_ok st" and run: "\<not> shuttingDown st"
    using s by (auto simp: steady_def)
  have rw: "real ?w = the (a_final A)"
    by (simp add: real_def new_watch_def)
  show ?thesis
  proof (cases rule: add_watch_ok [OF ok k run])
    case 1
    have "steady (st\<lparr>after_add := True\<rparr>)"
      using s by (simp add: steady_def thread_ok_def live_paths_def)
    moreover have "covers (live_paths st) (the (a_final A))" if u: "a_utf16 A \<noteq> None \<and> a_open A \<noteq> None"
    proof -
      obtain p where "p \<in> set (watches st)" "prefix (real p) (real ?w)"
        using u 1(2) port by auto
      then show ?thesis
        using s rw unfolding steady_def covers_def by (metis prefix_order.trans)
    qed
    ultimately show ?thesis
      using that [of "st\<lparr>after_add := True\<rparr>"] 1(1) run by (simp add: serve_add_def live_paths_def)
  next
    case (2 hs st1)
    have w: "?w \<in> set (watches st1)" "w_id ?w \<notin> set (reading st1)"
      using 2(3) ok k by (auto simp: thread_ok_def kernel_ok_def new_watch_def)
    obtain st2 where st2: "rearm True ?w st1 = OK st2" "thread_ok st2"
        "st2 = st1\<lparr>watches := set_buffer (w_id ?w) True (watches st1), reading := w_id ?w # reading st1\<rparr>"
      using rearm_ok [OF 2(2) w, of True] 2(4) by (auto simp: set_buffer_def)
    have add: "serve_add path A True st = OK (st2\<lparr>after_add := True\<rparr>)"
      using st2(1) run 2(1) by (cases "read_changes True ?w st1") (simp add: serve_add_def rearm_def)
    have ws: "watches st1 = ?w # cancelled ?w (watches st)"
      by (simp add: 2(3))
    have new: "{p \<in> set (watches st1). live p} = insert ?w {p \<in> set (watches st). live p \<and> \<not> prefix (real ?w) (real p)}"
      using 2(4) cancelled_views(1) [of ?w "watches st"] by (auto simp: ws)
    have "live_paths st2 = real ` {p \<in> set (watches st1). live p}"
      by (simp add: st2(3) live_paths_def set_buffer_same)
    then have L: "live_paths st2 = insert (real ?w) {x \<in> live_paths st. \<not> prefix (real ?w) x}"
      unfolding new by (auto simp: live_paths_def)
    have keep: "covers (live_paths st2) r" if c: "covers (live_paths st) r" for r
    proof -
      obtain x where x: "x \<in> live_paths st" "prefix x r"
        using c by (auto simp: covers_def)
      then show ?thesis
        unfolding L covers_def using prefix_order.trans [of "real ?w" x r] by (cases "prefix (real ?w) x") auto
    qed
    have self: "covers (live_paths st2) (real ?w)"
      unfolding L covers_def by blast
    have ws2: "watches st2 = set_buffer (w_id ?w) True (watches st1)"
      by (simp add: st2(3))
    have reals: "real ` set (watches st2) = insert (real ?w) (real ` set (watches st))"
      unfolding ws2 set_buffer_views by (simp add: ws cancelled_views)
    have "w_id ` {p \<in> set (watches st2). live p} = w_id ` {p \<in> set (watches st1). live p}"
      unfolding ws2 set_buffer_views ..
    then have ids: "w_id ` {p \<in> set (watches st2). live p} \<subseteq> insert (w_id ?w) (w_id ` {p \<in> set (watches st). live p})"
      unfolding new by auto
    have cov: "covers (live_paths st2) (real p)" if "p \<in> set (watches st2)" for p
    proof -
      have "real p = real ?w \<or> real p \<in> real ` set (watches st)"
        using that reals by blast
      then show ?thesis
        using keep self s by (auto simp: steady_def)
    qed
    have reads: "w_id ` {p \<in> set (watches st). live p} \<subseteq> set (reading st)"
      using s by (auto simp: steady_def)
    have rd: "set (reading st2) = insert (w_id ?w) (set (reading st))" "\<not> shuttingDown st2"
      using run by (simp_all add: st2(3) 2(3))
    have "steady st2"
      using st2(2) cov ids reads rd unfolding steady_def by blast
    then have "steady (st2\<lparr>after_add := True\<rparr>)"
      by (simp add: steady_def thread_ok_def live_paths_def)
    then show ?thesis
      using that [of "st2\<lparr>after_add := True\<rparr>"] add keep self rw by (simp add: live_paths_def)
  qed
qed

lemma step_steady:
  assumes s: "steady st" and u: "undisturbed c st"
  obtains st' where "thread_step c st = OK st'" "steady st'"
    "\<And>r. covers (live_paths st) r \<Longrightarrow> covers (live_paths st') r"
    "\<And>r. r \<in> set (requested [c]) \<Longrightarrow> covers (live_paths st') r"
proof (cases c)
  case (Failed o1)
  show ?thesis
  proof (cases o1)
    case None
    then show ?thesis using that s Failed by (simp add: thread_step_def)
  next
    case (Some w)
    have w: "thread_ok st" "list_ok (watches st)" "w \<in> set (reading st)" "\<not> live_at w st"
      using s u Failed Some by (auto simp: steady_def thread_ok_def undisturbed_def kernel_ok_def)
    obtain hs where hs: "remove_watch w (read_done w st) = OK (without w hs st)" "thread_ok (without w hs st)"
      by (rule remove_read_done [OF w(1,3)])
    then show ?thesis
      using that [of "without w hs st"] steady_without [OF s w(4) hs(2)] without_dead [OF w(2,4), of hs] Failed Some
      by (simp add: thread_step_def)
  qed
next
  case (Data w b answer)
  then have "w \<in> set (reading st)" "live_at w st \<longrightarrow> answer"
    using u by (auto simp: undisturbed_def kernel_ok_def)
  then obtain st' where "serve_data w b answer (read_done w st) = OK st'" "steady st'" "live_paths st' = live_paths st"
    by (rule data_steady [OF s])
  then show ?thesis
    using that Data by (simp add: thread_step_def)
next
  case (Overflow w)
  then show ?thesis using u by (simp add: undisturbed_def)
next
  case (Add_request path A answer)
  then have k: "kernel_ok (Add_request path A True) st" "a_port A" "answer"
    using u by (auto simp: undisturbed_def)
  obtain st' where st': "serve_add path A True st = OK st'" "steady st'"
      "\<And>r. covers (live_paths st) r \<Longrightarrow> covers (live_paths st') r"
      "a_utf16 A \<noteq> None \<and> a_open A \<noteq> None \<Longrightarrow> covers (live_paths st') (the (a_final A))"
    by (rule add_steady [OF s k(1,2)]) blast
  have "covers (live_paths st') r" if "r \<in> set (requested [c])" for r
    using that st'(4) Add_request by (auto split: if_splits)
  then show ?thesis
    using that [of st'] st'(1,2,3) Add_request k(3) by (simp add: thread_step_def)
next
  case Shutdown_request
  then show ?thesis using u by (simp add: undisturbed_def)
qed

lemma requested_Cons: "set (requested (c # cs)) = set (requested [c]) \<union> set (requested cs)"
  by (cases c) auto

lemma run_steady:
  "steady st \<Longrightarrow> run_ok undisturbed cs st \<Longrightarrow>
   \<exists>st'. watch_thread cs st = Waiting st' \<and> steady st' \<and> (\<forall>r. covers (live_paths st) r \<longrightarrow> covers (live_paths st') r) \<and>
     (\<forall>r \<in> set (requested cs). covers (live_paths st') r)"
proof (induction cs arbitrary: st)
  case Nil
  then show ?case by (simp add: steady_def)
next
  case (Cons c cs)
  have u: "undisturbed c st" using Cons.prems(2) by simp
  obtain st1 where st1: "thread_step c st = OK st1" "steady st1"
      "\<And>r. covers (live_paths st) r \<Longrightarrow> covers (live_paths st1) r"
      "\<And>r. r \<in> set (requested [c]) \<Longrightarrow> covers (live_paths st1) r"
    by (rule step_steady [OF Cons.prems(1) u]) blast
  then obtain st2 where "watch_thread cs st1 = Waiting st2" "steady st2"
      "\<forall>r. covers (live_paths st1) r \<longrightarrow> covers (live_paths st2) r" "\<forall>r \<in> set (requested cs). covers (live_paths st2) r"
    using Cons.IH [OF st1(2)] Cons.prems(2) by auto
  then show ?case
    using st1 Cons.prems(1) requested_Cons [of c cs] by (auto simp: steady_def)
qed

lemma covered_once:
  assumes "list_ok (watches st)" "covers (live_paths st) r"
  shows "\<exists>!p. p \<in> set (watches st) \<and> live p \<and> prefix (real p) r"
proof -
  obtain p where p: "p \<in> set (watches st)" "live p" "prefix (real p) r"
    using assms(2) by (auto simp: covers_def live_paths_def)
  have "q = p" if q: "q \<in> set (watches st)" "live q" "prefix (real q) r" for q
  proof -
    have "prefix (real p) (real q) \<or> prefix (real q) (real p)"
      using p(3) q(3) prefix_same_cases by blast
    then have "w_id q = w_id p"
      using assms(1) p q unfolding list_ok_def antichain_def by metis
    then show ?thesis
      using assms(1) p(1) q(1) by (auto simp: list_ok_def distinct_map dest: inj_onD)
  qed
  then show ?thesis using p by blast
qed



text \<open>The prefix is one of characters, not of path components: after \<open>C:/foo\<close>, a request for \<open>C:/foobar\<close> is
  ignored and no watch is on that directory.\<close>

lemma sibling_ignored:
  "\<exists>st. watch_thread [sample_add 1 (map of_char ''C:/foo''), sample_add 2 (map of_char ''C:/foobar'')] thread_init = Waiting st \<and>
     map w_realpath (watches st) = [Some (map of_char ''C:/foo'')]"
  by (simp add: thread_simps)

text \<open>Where the final path of a directory is not found, the next request follows a NULL pointer.\<close>

lemma null_final_path:
  "watch_thread [Add_request ''d'' \<lparr>a_utf16 = Some [67], a_open = Some 1, a_address = 1, a_final = None, a_port = True\<rparr> True,
     sample_add 2 [68]] thread_init = Crashed"
  by (simp add: thread_simps)

end
