(* ===== verification/Fswatch_Win.thy ===== *)
theory Fswatch_Win
  imports Fswatch_Queue Fswatch_Watch
begin

text \<open>
  The OCaml primitives of \<open>fswatch_win_stubs.c\<close>: creating a watcher with its handles and its thread, adding a
  directory, waiting for events, shutting down. They talk to the watching thread through the completion
  port and the event objects; the answers of the system calls are arguments, and the open handles of the
  process are a list.
\<close>

section \<open>Creation\<close>

text \<open>The handles of a watcher: completion port, signal, event after an addition, thread.\<close>

record watcher =
  completionPort :: handle
  v_signal :: handle
  afterAdd :: handle
  v_thread :: handle

record create_answers =
  c_port :: "errno + handle"
  c_signal :: "errno + handle"
  c_afterAdd :: "errno + handle"
  c_thread :: "errno + handle"

definition fswatch_win_create :: "create_answers \<Rightarrow> handle list \<Rightarrow> (exn + watcher) \<times> handle list" where
  "fswatch_win_create C hs =
     (case c_port C of
        Inl err \<Rightarrow> (Inl (Unix_error err ''CreateIoCompletionPort'' []), hs)
      | Inr p \<Rightarrow>
          let hs = p # hs in
          (case c_signal C of
             Inl err \<Rightarrow> (Inl (Unix_error err ''CreateEvent'' []), remove1 p hs)
           | Inr s \<Rightarrow>
               let hs = s # hs in
               (case c_afterAdd C of
                  Inl err \<Rightarrow> (Inl (Unix_error err ''CreateEvent'' []), remove1 p (remove1 s hs))
                | Inr a \<Rightarrow>
                    let hs = a # hs in
                    (case c_thread C of
                       Inl err \<Rightarrow> (Inl (Unix_error err ''CreateThread'' []), remove1 p (remove1 s (remove1 a hs)))
                     | Inr t \<Rightarrow> (Inr \<lparr>completionPort = p, v_signal = s, afterAdd = a, v_thread = t\<rparr>, t # hs)))))"

section \<open>Adding, waiting, shutting down\<close>

text \<open>\<open>fswatch_win_add\<close>: the watcher, \<open>None\<close> when it was shut down, and the errors of posting the request and of
  waiting for the thread's answer. The second component is whether the request was posted.\<close>

definition fswatch_win_add :: "errno option \<Rightarrow> errno option \<Rightarrow> watcher option \<Rightarrow> string \<Rightarrow> (exn + unit) \<times> bool" where
  "fswatch_win_add post_err wait_err v_fsenv v_path =
     (case v_fsenv of
        None \<Rightarrow> (Inl (Invalid_argument ''Fswatch_win.add: already shut down''), False)
      | Some fsenv \<Rightarrow>
          if \<not> string_is_c_safe v_path then (Inl (Invalid_argument ''Fswatch_win.add''), False)
          else
            (case post_err of
               Some err \<Rightarrow> (Inl (Unix_error err ''PostQueuedCompletionStatus'' []), False)
             | None \<Rightarrow>
                 (case wait_err of
                    Some err \<Rightarrow> (Inl (Unix_error err ''WaitForSingleObject'' []), True)
                  | None \<Rightarrow> (Inr (), True))))"

text \<open>\<open>fswatch_win_wait\<close>: \<open>batch\<close> is what \<open>pop_events\<close> took. The time to sleep first is the third component.\<close>

definition fswatch_win_wait ::
    "(byte list \<Rightarrow> string option) \<Rightarrow> errno option \<Rightarrow> errno option \<Rightarrow> packet list \<Rightarrow> watcher option \<Rightarrow> int \<Rightarrow> (exn + parse_result) \<times> int" where
  "fswatch_win_wait decode wait_err reset_err batch v_fsenv v_debounce =
     (case v_fsenv of
        None \<Rightarrow> (Inl (Invalid_argument ''Fswatch_win.wait: already shut down''), 0)
      | Some fsenv \<Rightarrow>
          let slept = (if wait_err = None \<and> 0 < v_debounce then v_debounce else 0) in
          (case wait_err of
             Some err \<Rightarrow> (Inl (Unix_error err ''WaitForSingleObject'' []), slept)
           | None \<Rightarrow>
               (case reset_err of
                  Some err \<Rightarrow> (Inl (Unix_error err ''ResetEvent'' []), slept)
                | None \<Rightarrow> (Inr (parse_events decode batch []), slept))))"

text \<open>\<open>fswatch_win_shutdown\<close>: the watcher is forgotten first; its handles are closed whether or not the thread
  ended in time.\<close>

definition fswatch_win_shutdown :: "errno option \<Rightarrow> watcher option \<Rightarrow> handle list \<Rightarrow> (exn + unit) \<times> watcher option \<times> handle list" where
  "fswatch_win_shutdown post_err v_fsenv hs =
     (case v_fsenv of
        None \<Rightarrow> (Inr (), None, hs)
      | Some fsenv \<Rightarrow>
          (case post_err of
             Some err \<Rightarrow> (Inl (Unix_error err ''PostQueuedCompletionStatus'' []), None, hs)
           | None \<Rightarrow>
               (Inr (), None,
                remove1 (afterAdd fsenv) (remove1 (v_signal fsenv) (remove1 (completionPort fsenv) (remove1 (v_thread fsenv) hs))))))"

text \<open>On other systems.\<close>

definition fswatch_win_create_other :: "exn + watcher" where
  "fswatch_win_create_other = Inl (Invalid_argument ''fswatch_win_create: not implemented'')"
definition fswatch_win_wait_other :: "exn + parse_result" where
  "fswatch_win_wait_other = Inl (Invalid_argument ''fswatch_win_wait: not implemented'')"
definition fswatch_win_add_other :: "exn + unit" where
  "fswatch_win_add_other = Inl (Invalid_argument ''fswatch_win_add: not implemented'')"
definition fswatch_win_shutdown_other :: "exn + unit" where
  "fswatch_win_shutdown_other = Inl (Invalid_argument ''fswatch_win_shutdown: not implemented'')"

section \<open>No handle leaks\<close>

text \<open>A creation that fails leaves the handles as they were; one that succeeds is undone by shutting down,
  after which every call but a second shutdown raises.\<close>

lemma create_handles:
  "case fswatch_win_create C hs of
     (Inl e, hs') \<Rightarrow> hs' = hs
   | (Inr w, hs') \<Rightarrow> set [completionPort w, v_signal w, afterAdd w, v_thread w] \<subseteq> set hs' \<and> length hs' = length hs + 4 \<and>
       mset (snd (snd (fswatch_win_shutdown None (Some w) hs'))) = mset hs"
  by (auto simp: fswatch_win_create_def fswatch_win_shutdown_def Let_def split: sum.split)

lemma after_shutdown:
  assumes "fswatch_win_shutdown post_err v hs = (r, v', hs')"
  shows "v' = None" "fswatch_win_shutdown post_err' v' hs' = (Inr (), None, hs')"
    "fst (fswatch_win_add p w v' path) = Inl (Invalid_argument ''Fswatch_win.add: already shut down'')"
    "fst (fswatch_win_wait decode p w b v' d) = Inl (Invalid_argument ''Fswatch_win.wait: already shut down'')"
  using assms by (auto simp: fswatch_win_shutdown_def fswatch_win_add_def fswatch_win_wait_def split: option.splits)

end
