(* ===== verification/Fsevents.thy ===== *)
theory Fsevents
  imports Posix
begin

text \<open>
  \<open>fsevents_stubs.c\<close>, the file watcher on macOS: the decoding of event flags, the callback that turns a
  batch of events into an OCaml list, the creation of a stream, and the dispatch queue, whose mutex and
  condition variable let threads wait until every stream was stopped or a callback raised. The code
  between locking and unlocking the mutex is one step; the steps of the waiting threads and of the
  other operations interleave.
\<close>

unbundle bit_operations_syntax

section \<open>Flags\<close>

text \<open>The flags of \<open>FSEvents.h\<close>, in the order of \<open>all_flags\<close>; the last one exists since macOS 10.13.\<close>

definition MustScanSubDirs :: u32 where "MustScanSubDirs = 0x1"
definition ItemCreated :: u32 where "ItemCreated = 0x100"
definition ItemRemoved :: u32 where "ItemRemoved = 0x200"
definition ItemRenamed :: u32 where "ItemRenamed = 0x800"
definition ItemModified :: u32 where "ItemModified = 0x1000"
definition ItemIsFile :: u32 where "ItemIsFile = 0x10000"
definition ItemIsDir :: u32 where "ItemIsDir = 0x20000"

lemmas flag_defs = MustScanSubDirs_def ItemCreated_def ItemRemoved_def ItemRenamed_def ItemModified_def ItemIsFile_def ItemIsDir_def

definition all_flags :: "bool \<Rightarrow> u32 list" where
  "all_flags since_10_13 =
     [MustScanSubDirs, 0x2, 0x4, 0x8, 0x10, 0x20, 0x40, 0x80, ItemCreated, ItemRemoved, 0x400, ItemRenamed, ItemModified,
      0x2000, 0x4000, 0x8000, ItemIsFile, ItemIsDir, 0x40000, 0x80000, 0x100000, 0x200000,
      if since_10_13 then 0x400000 else 0]"

definition interesting_flags :: u32 where
  "interesting_flags = ItemCreated OR ItemRemoved OR ItemRenamed OR ItemModified OR MustScanSubDirs"

definition action_mask :: u32 where
  "action_mask = ItemCreated OR ItemRemoved OR ItemRenamed OR ItemModified"

text \<open>The tags of the OCaml variants.\<close>

definition dune_fsevents_kind_of_flags :: "u32 \<Rightarrow> int" where
  "dune_fsevents_kind_of_flags flags =
     (if flags AND MustScanSubDirs \<noteq> 0 then 2
      else if flags AND ItemIsDir \<noteq> 0 then 0
      else 1)"

definition dune_fsevents_action_of_flags :: "u32 \<Rightarrow> int" where
  "dune_fsevents_action_of_flags flags =
     (let flags = flags AND action_mask
      in if flags = ItemCreated then 0
         else if flags = ItemRemoved then 1
         else if flags = ItemModified then 2
         else if flags = ItemRenamed then 3
         else 4)"

definition dune_fsevents_raw :: "bool \<Rightarrow> u32 \<Rightarrow> bool list" where
  "dune_fsevents_raw since_10_13 flags = map (\<lambda>f. flags AND f \<noteq> 0) (all_flags since_10_13)"

definition flag_examples :: "(string \<times> u32) list" where
  "flag_examples =
     [(''created_file'', ItemCreated OR ItemIsFile),
      (''removed_file'', ItemRemoved OR ItemIsFile),
      (''modified_file'', ItemModified OR ItemIsFile),
      (''renamed_file'', ItemRenamed OR ItemIsFile),
      (''created_dir'', ItemCreated OR ItemIsDir),
      (''must_scan_subdirs'', MustScanSubDirs),
      (''must_scan_dir'', MustScanSubDirs OR ItemIsDir),
      (''created_and_modified'', ItemCreated OR ItemModified OR ItemIsFile),
      (''removed_and_renamed'', ItemRemoved OR ItemRenamed OR ItemIsFile)]"

text \<open>The loop conses from the last example to the first.\<close>

fun examples_loop :: "nat \<Rightarrow> (string \<times> u32) list \<Rightarrow> (string \<times> u32) list" where
  "examples_loop 0 v_list = v_list"
| "examples_loop (Suc i) v_list = examples_loop i (flag_examples ! i # v_list)"

definition dune_fsevents_flag_examples :: "(string \<times> u32) list" where
  "dune_fsevents_flag_examples = examples_loop (length flag_examples) []"

section \<open>The callback\<close>

text \<open>An event as the system delivers it; \<open>utf8\<close> is \<open>CFStringGetBytes\<close>. The loop runs backwards over the events.\<close>

type_synonym 'c fs_event = "'c \<times> u64 \<times> u32"

function callback_loop :: "('c \<Rightarrow> string) \<Rightarrow> 'c fs_event list \<Rightarrow> nat \<Rightarrow> (string \<times> u64 \<times> u32) list \<Rightarrow> (string \<times> u64 \<times> u32) list" where
  "callback_loop utf8 evs j v_events_xs =
     (if j < length evs then
        let i = length evs - j - 1; (cf_path, event_id, flags) = evs ! i
        in if interesting_flags AND flags = 0 then callback_loop utf8 evs (j + 1) v_events_xs
           else callback_loop utf8 evs (j + 1) ((utf8 cf_path, event_id, flags) # v_events_xs)
      else v_events_xs)"
  by pat_completeness auto

termination callback_loop
  by (relation "measure (\<lambda>(utf8, evs, j, xs). length evs - j)") auto

declare callback_loop.simps [simp del]

section \<open>Creating a stream\<close>

text \<open>\<open>convert\<close> is \<open>CFStringCreateWithCString\<close>. The error releases the array, which is then no part of the result.\<close>

fun paths_loop :: "(string \<Rightarrow> 'c option) \<Rightarrow> string list \<Rightarrow> 'c list \<Rightarrow> exn + 'c list" where
  "paths_loop convert [] paths = Inr paths"
| "paths_loop convert (path # v_paths) paths =
     (case convert path of
        None \<Rightarrow> Inl (Failure ''Fsevents.create: unable to convert path'')
      | Some s \<Rightarrow> paths_loop convert v_paths (paths @ [s]))"

definition paths_of_list :: "(string \<Rightarrow> 'c option) \<Rightarrow> string list \<Rightarrow> exn + 'c list" where
  "paths_of_list convert v_paths = paths_loop convert v_paths []"

text \<open>\<open>new_stream\<close> is \<open>FSEventStreamCreate\<close>.\<close>

definition dune_fsevents_create :: "(string \<Rightarrow> 'c option) \<Rightarrow> ('c list \<Rightarrow> 's option) \<Rightarrow> string list \<Rightarrow> exn + 's" where
  "dune_fsevents_create convert new_stream v_paths =
     (case paths_of_list convert v_paths of
        Inl e \<Rightarrow> Inl e
      | Inr paths \<Rightarrow>
          (case new_stream paths of
             None \<Rightarrow> Inl (Failure ''Fsevents.create: failed to create stream'')
           | Some stream \<Rightarrow> Inr stream))"

definition dune_fsevents_set_exclusion_paths :: "(string \<Rightarrow> 'c option) \<Rightarrow> ('s \<Rightarrow> 'c list \<Rightarrow> bool) \<Rightarrow> 's \<Rightarrow> string list \<Rightarrow> exn + unit" where
  "dune_fsevents_set_exclusion_paths convert set_exclusion t v_paths =
     (case paths_of_list convert v_paths of
        Inl e \<Rightarrow> Inl e
      | Inr paths \<Rightarrow>
          if \<not> set_exclusion t paths then Inl (Failure ''Fsevents.set_exclusion_paths: unable to set'') else Inr ())"

section \<open>The dispatch queue\<close>

text \<open>Where a thread in \<open>dispatch_queue_wait_until_stopped\<close> is: not in it, about to test the condition with the
  mutex held, asleep on the condition variable, returned with the exception it raised.\<close>

datatype waiter = Outside | Testing | Asleep | Left "exn option"

text \<open>\<open>t_dq\<close> says which streams have their queue set. \<open>v_exn\<close> is \<open>None\<close> for \<open>Val_unit\<close>.\<close>

record queue =
  fsevent_streams :: u32
  has_exn :: bool
  v_exn :: "exn option"
  t_dq :: "nat \<Rightarrow> bool"
  threads :: "nat \<Rightarrow> waiter"

definition dune_fsevents_dispatch_queue_create :: queue where
  "dune_fsevents_dispatch_queue_create =
     \<lparr>fsevent_streams = 0, has_exn = False, v_exn = None, t_dq = (\<lambda>_. False), threads = (\<lambda>_. Outside)\<rparr>"

definition broadcast :: "queue \<Rightarrow> queue" where
  "broadcast q = q\<lparr>threads := (\<lambda>i. if threads q i = Asleep then Testing else threads q i)\<rparr>"

text \<open>The test of the loop, once.\<close>

definition wait_until_stopped_step :: "nat \<Rightarrow> queue \<Rightarrow> queue" where
  "wait_until_stopped_step i q =
     (case threads q i of
        Testing \<Rightarrow> q\<lparr>threads := (threads q)(i := if 0 < fsevent_streams q \<and> \<not> has_exn q then Asleep else Left (v_exn q))\<rparr>
      | _ \<Rightarrow> q)"

definition release_stream :: "queue \<Rightarrow> queue" where
  "release_stream q =
     (let q = q\<lparr>fsevent_streams := fsevent_streams q - 1\<rparr>
      in if fsevent_streams q = 0 then broadcast q else q)"

definition dune_fsevents_start :: "bool \<Rightarrow> nat \<Rightarrow> queue \<Rightarrow> (exn + unit) \<times> queue" where
  "dune_fsevents_start res t q =
     (let q = q\<lparr>t_dq := (t_dq q)(t := True)\<rparr>;
          q = q\<lparr>fsevent_streams := fsevent_streams q + 1\<rparr>
      in if \<not> res then
           (let q = release_stream q; q = q\<lparr>t_dq := (t_dq q)(t := False)\<rparr>
            in (Inl (Failure ''Fsevents.start: failed to start''), q))
         else (Inr (), q))"

definition dune_fsevents_stop :: "nat \<Rightarrow> queue \<Rightarrow> queue" where
  "dune_fsevents_stop t q =
     (if \<not> t_dq q t then q
      else let q = release_stream q in q\<lparr>t_dq := (t_dq q)(t := False)\<rparr>)"

text \<open>The end of the callback: \<open>v_res\<close> is what the OCaml function returned or raised.\<close>

definition callback_result :: "exn + unit \<Rightarrow> queue \<Rightarrow> queue" where
  "callback_result v_res q =
     (case v_res of
        Inl e \<Rightarrow> (let q = q\<lparr>v_exn := Some e\<rparr>; q = q\<lparr>has_exn := True\<rparr> in broadcast q)
      | Inr _ \<Rightarrow> q)"

definition dune_fsevents_callback ::
    "('c \<Rightarrow> string) \<Rightarrow> ((string \<times> u64 \<times> u32) list \<Rightarrow> exn + unit) \<Rightarrow> 'c fs_event list \<Rightarrow> queue \<Rightarrow> queue" where
  "dune_fsevents_callback utf8 v_callback evs q = callback_result (v_callback (callback_loop utf8 evs 0 [])) q"

section \<open>On other systems\<close>

definition unavailable_message :: "bool \<Rightarrow> string" where
  "unavailable_message apple =
     (if apple then ''upgrade your macos sdk to enable watch mode'' else ''fsevents is only available on macos'')"

definition unavailable :: "bool \<Rightarrow> exn + unit" where
  "unavailable apple = Inl (Failure (unavailable_message apple))"

definition dune_fsevents_available :: "bool \<Rightarrow> bool" where
  "dune_fsevents_available supported = supported"

section \<open>Properties of the callback and the flags\<close>

definition selected :: "('c \<Rightarrow> string) \<Rightarrow> 'c fs_event list \<Rightarrow> (string \<times> u64 \<times> u32) list" where
  "selected utf8 evs = map (\<lambda>(p, i, f). (utf8 p, i, f)) (filter (\<lambda>(p, i, f). interesting_flags AND f \<noteq> 0) evs)"

lemma callback_loop_done: "length evs \<le> j \<Longrightarrow> callback_loop utf8 evs j xs = xs"
  by (subst callback_loop.simps) simp

lemma callback_loop_step:
  "j < length evs \<Longrightarrow> callback_loop utf8 evs j xs = callback_loop utf8 evs (j + 1) (selected utf8 [evs ! (length evs - j - 1)] @ xs)"
  by (subst callback_loop.simps) (auto simp: selected_def split: prod.split)

lemma callback_loop_selected: "callback_loop utf8 evs j xs = selected utf8 (take (length evs - j) evs) @ xs"
proof (induction "length evs - j" arbitrary: j xs)
  case 0
  then show ?case by (simp add: callback_loop_done selected_def)
next
  case (Suc n)
  then have j: "j < length evs" by simp
  have "take (length evs - j) evs = take (length evs - (j + 1)) evs @ [evs ! (length evs - j - 1)]"
    using j take_Suc_conv_app_nth [of "length evs - j - 1" evs] by (simp add: Suc_diff_Suc)
  then show ?case
    using Suc.hyps(1) [of "j + 1"] Suc.hyps(2) callback_loop_step [OF j] by (simp add: selected_def)
qed

lemma all_flags_powers: "all_flags True = map (\<lambda>i. 2 ^ i) [0..<23]"
  by (simp add: all_flags_def flag_defs upt_rec)

lemma u32_eq_bits: "x = y \<longleftrightarrow> list_all (\<lambda>n. bit x n = bit y n) [0..<32]" for x y :: u32
  by (auto simp: list_all_iff intro!: bit_word_eqI)

lemma action_bits:
  "f AND action_mask = ItemCreated \<longleftrightarrow> bit f 8 \<and> \<not> bit f 9 \<and> \<not> bit f 11 \<and> \<not> bit f 12"
  "f AND action_mask = ItemRemoved \<longleftrightarrow> \<not> bit f 8 \<and> bit f 9 \<and> \<not> bit f 11 \<and> \<not> bit f 12"
  "f AND action_mask = ItemRenamed \<longleftrightarrow> \<not> bit f 8 \<and> \<not> bit f 9 \<and> bit f 11 \<and> \<not> bit f 12"
  "f AND action_mask = ItemModified \<longleftrightarrow> \<not> bit f 8 \<and> \<not> bit f 9 \<and> \<not> bit f 11 \<and> bit f 12"
  by (auto simp: u32_eq_bits action_mask_def flag_defs upt_rec bit_simps numeral_eq_Suc)

lemma kind_bits:
  "f AND MustScanSubDirs \<noteq> 0 \<longleftrightarrow> bit f 0" "f AND ItemIsDir \<noteq> 0 \<longleftrightarrow> bit f 17"
  using and_exp_eq_0_iff_not_bit [of f 0] and_exp_eq_0_iff_not_bit [of f 17] by (simp_all add: flag_defs)

lemma interesting_bits: "interesting_flags AND f \<noteq> 0 \<longleftrightarrow> bit f 0 \<or> bit f 8 \<or> bit f 9 \<or> bit f 11 \<or> bit f 12"
  by (auto simp: u32_eq_bits interesting_flags_def flag_defs upt_rec bit_simps numeral_eq_Suc)

text \<open>C39. The callback hands to OCaml exactly the events with an interesting flag, in the order they were
  delivered, and the decoding of flags is exact: the raw list has bit \<open>i\<close> of the word at position \<open>i\<close>; the
  action is create, remove, modify or rename where only that bit of the four is set and unknown
  otherwise; the kind is that of a whole tree, a directory or a file; and every event handed over asks
  for a rescan or has one of the four bits.\<close>

theorem callback_events:
  shows "callback_loop utf8 evs 0 [] = map (\<lambda>(p, i, f). (utf8 p, i, f)) (filter (\<lambda>(p, i, f). interesting_flags AND f \<noteq> 0) evs) \<and>
    dune_fsevents_raw True flags = map (bit flags) [0..<23] \<and>
    dune_fsevents_action_of_flags flags =
      (case (bit flags 8, bit flags 9, bit flags 12, bit flags 11) of
         (True, False, False, False) \<Rightarrow> 0 | (False, True, False, False) \<Rightarrow> 1
       | (False, False, True, False) \<Rightarrow> 2 | (False, False, False, True) \<Rightarrow> 3 | _ \<Rightarrow> 4) \<and>
    dune_fsevents_kind_of_flags flags = (if bit flags 0 then 2 else if bit flags 17 then 0 else 1) \<and>
    (interesting_flags AND flags \<noteq> 0) = (bit flags 0 \<or> bit flags 8 \<or> bit flags 9 \<or> bit flags 11 \<or> bit flags 12)"
proof (intro conjI)
  show "callback_loop utf8 evs 0 [] = map (\<lambda>(p, i, f). (utf8 p, i, f)) (filter (\<lambda>(p, i, f). interesting_flags AND f \<noteq> 0) evs)"
    by (simp add: callback_loop_selected selected_def)
  show "dune_fsevents_raw True flags = map (bit flags) [0..<23]"
    by (simp add: dune_fsevents_raw_def all_flags_powers and_exp_eq_0_iff_not_bit del: upt_rec_numeral)
  show "dune_fsevents_kind_of_flags flags = (if bit flags 0 then 2 else if bit flags 17 then 0 else 1)"
    by (simp add: dune_fsevents_kind_of_flags_def kind_bits)
qed (auto simp: dune_fsevents_action_of_flags_def Let_def action_bits interesting_bits split: bool.split)

section \<open>Properties of the queue\<close>

text \<open>A thread may enter the wait and may wake up without cause; a stream is started when it is not running.\<close>

inductive q_reach :: "queue \<Rightarrow> bool" where
  create: "q_reach dune_fsevents_dispatch_queue_create"
| enter: "q_reach q \<Longrightarrow> threads q i = Outside \<Longrightarrow> q_reach (q\<lparr>threads := (threads q)(i := Testing)\<rparr>)"
| wake: "q_reach q \<Longrightarrow> threads q i = Asleep \<Longrightarrow> q_reach (q\<lparr>threads := (threads q)(i := Testing)\<rparr>)"
| test: "q_reach q \<Longrightarrow> q_reach (wait_until_stopped_step i q)"
| start: "q_reach q \<Longrightarrow> \<not> t_dq q t \<Longrightarrow> card (Collect (t_dq q)) < 2 ^ 32 - 1 \<Longrightarrow> q_reach (snd (dune_fsevents_start res t q))"
| stop: "q_reach q \<Longrightarrow> q_reach (dune_fsevents_stop t q)"
| callback: "q_reach q \<Longrightarrow> q_reach (callback_result v_res q)"

definition queue_ok :: "queue \<Rightarrow> bool" where
  "queue_ok q \<longleftrightarrow>
     (\<forall>i. threads q i = Asleep \<longrightarrow> 0 < fsevent_streams q \<and> \<not> has_exn q) \<and> has_exn q = (v_exn q \<noteq> None) \<and>
     finite (Collect (t_dq q)) \<and> unat (fsevent_streams q) = card (Collect (t_dq q))"

lemma Collect_upd: "Collect (f(t := b)) = (if b then insert t (Collect f) else Collect f - {t})"
  by (auto split: if_splits)

lemma queue_ok_start:
  assumes ok: "queue_ok q" and t: "\<not> t_dq q t" and c: "card (Collect (t_dq q)) < 2 ^ 32 - 1"
  shows "queue_ok (snd (dune_fsevents_start res t q))"
proof -
  have n: "unat (fsevent_streams q + 1) = unat (fsevent_streams q) + 1"
    using ok c by (simp add: unat_word_ariths queue_ok_def)
  then have "0 < fsevent_streams q + 1"
    by (simp add: word_less_nat_alt)
  then show ?thesis
    using ok t n
    by (auto simp: queue_ok_def dune_fsevents_start_def release_stream_def broadcast_def Let_def Collect_upd card_insert_if)
qed

lemma queue_ok_stop:
  assumes ok: "queue_ok q"
  shows "queue_ok (dune_fsevents_stop t q)"
proof (cases "t_dq q t")
  case True
  then have "Collect (t_dq q) \<noteq> {}" by blast
  then have "card (Collect (t_dq q)) \<noteq> 0"
    using ok by (simp add: queue_ok_def)
  then have "fsevent_streams q \<noteq> 0"
    using ok by (metis queue_ok_def unat_0)
  then have "unat (fsevent_streams q - 1) = unat (fsevent_streams q) - 1"
    by (rule unat_minus_one)
  then show ?thesis
    using ok True
    by (auto simp: queue_ok_def dune_fsevents_stop_def release_stream_def broadcast_def Let_def Collect_upd word_gt_0)
qed (use ok in \<open>simp add: dune_fsevents_stop_def\<close>)

lemma q_reach_ok: "q_reach q \<Longrightarrow> queue_ok q"
proof (induction rule: q_reach.induct)
  case create
  show ?case by (simp add: queue_ok_def dune_fsevents_dispatch_queue_create_def)
next
  case (test q i)
  then show ?case by (auto simp: queue_ok_def wait_until_stopped_step_def split: waiter.split)
next
  case (callback q v_res)
  then show ?case
    by (auto simp: queue_ok_def callback_result_def broadcast_def Let_def split: sum.split)
qed (auto simp: queue_ok_start queue_ok_stop, auto simp: queue_ok_def)



end
