(* ===== verification/Lev.thy ===== *)
theory Lev
  imports Stdune_Stubs
begin

text \<open>
  The memory that the bindings of the event loop keep, from \<open>lev_stubs.c\<close>: a watcher is a C structure that
  libev links into its loop, the OCaml closures it calls are stored in C memory and registered as roots
  of the garbage collector. The model has the allocated blocks, the registered roots and the set of
  active watchers; addresses are those the allocator returned, and the calls back into OCaml are
  arguments. Times are nanoseconds; their conversion to floating-point seconds is not modelled.
\<close>

unbundle bit_operations_syntax

section \<open>Memory\<close>

type_synonym block_addr = nat
type_synonym caml = nat

datatype watcher_kind = K_io | K_timer | K_periodic | K_signal | K_stat | K_child | K_embed | K_cleanup | K_async | K_check | K_prepare | K_idle

text \<open>The C function libev calls.\<close>

datatype c_callback = Io_cb | Watcher_cb | Periodic_watcher_cb | Child_cb | Stat_cb | No_cb

text \<open>The field \<open>data\<close> of a watcher holds a closure or points to a block.\<close>

datatype data_word = Uninit | Closure caml | Pointer block_addr

record ev_watcher =
  w_kind :: watcher_kind
  w_cb :: c_callback
  w_data :: data_word
  reschedule_cb :: bool
  w_events :: u32
  w_args :: "int list"

datatype block =
    Watcher ev_watcher
  | Io_data "caml option" "caml option"
  | Periodic_cbs "caml option" "caml option"
  | Stat_data "caml option" "block_addr option"
  | Path string

text \<open>The places that are registered as roots.\<close>

datatype slot = Data block_addr | Io_callback block_addr | Io_fd block_addr | Cbs_watcher block_addr | Cbs_reschedule block_addr | Stat_callback block_addr

record lev =
  blocks :: "block_addr \<rightharpoonup> block"
  roots :: "slot set"
  active :: "block_addr set"

definition lev_init :: lev where
  "lev_init = \<lparr>blocks = (\<lambda>_. None), roots = {}, active = {}\<rparr>"

definition put :: "block_addr \<Rightarrow> block \<Rightarrow> lev \<Rightarrow> lev" where
  "put a b L = L\<lparr>blocks := (blocks L)(a \<mapsto> b)\<rparr>"

definition free_block :: "block_addr \<Rightarrow> lev \<Rightarrow> lev" where
  "free_block a L = L\<lparr>blocks := (blocks L)(a := None)\<rparr>"

definition register_root :: "slot \<Rightarrow> lev \<Rightarrow> lev" where
  "register_root r L = L\<lparr>roots := insert r (roots L)\<rparr>"

definition remove_root :: "slot \<Rightarrow> lev \<Rightarrow> lev" where
  "remove_root r L = L\<lparr>roots := roots L - {r}\<rparr>"

definition watcher_at :: "block_addr \<Rightarrow> lev \<Rightarrow> ev_watcher option" where
  "watcher_at a L = (case blocks L a of Some (Watcher w) \<Rightarrow> Some w | _ \<Rightarrow> None)"

section \<open>Creation\<close>

text \<open>What the watchers with one closure share: initialise, wrap, call back into OCaml with the wrapped watcher,
  store the closure it returns and register it. A callback that raises leaves the block behind.\<close>

definition create_with_closure :: "ev_watcher \<Rightarrow> block_addr \<Rightarrow> (block_addr \<Rightarrow> exn + caml) \<Rightarrow> lev \<Rightarrow> (exn + block_addr) \<times> lev" where
  "create_with_closure w a v_cb L =
     (let L = put a (Watcher w) L
      in case v_cb a of
           Inl e \<Rightarrow> (Inl e, L)
         | Inr v_cb_applied \<Rightarrow>
             (let L = put a (Watcher (w\<lparr>w_data := Closure v_cb_applied\<rparr>)) L; L = register_root (Data a) L in (Inr a, L)))"

definition plain_watcher :: "watcher_kind \<Rightarrow> int list \<Rightarrow> ev_watcher" where
  "plain_watcher k args = \<lparr>w_kind = k, w_cb = Watcher_cb, w_data = Uninit, reschedule_cb = False, w_events = 0, w_args = args\<rparr>"

definition lev_timer_create where
  "lev_timer_create a v_cb v_after v_repeat L = create_with_closure (plain_watcher K_timer [v_after, v_repeat]) a v_cb L"

definition lev_periodic_create_regular where
  "lev_periodic_create_regular a v_cb v_offset v_interval L =
     create_with_closure (plain_watcher K_periodic [v_offset, v_interval]) a v_cb L"

text \<open>\<open>DEF_SIMPLE_CREATE\<close> for cleanup, async, check, prepare and idle watchers.\<close>

definition lev_simple_create where
  "lev_simple_create k a v_cb L = create_with_closure (plain_watcher k []) a v_cb L"

definition lev_signal_create where
  "lev_signal_create convert_signal_number a v_cb v_signal L =
     create_with_closure (plain_watcher K_signal [convert_signal_number v_signal]) a v_cb L"

definition lev_child_create where
  "lev_child_create a v_cb pid trace L =
     create_with_closure ((plain_watcher K_child [pid, if trace \<noteq> 0 then 1 else 0])\<lparr>w_cb := Child_cb\<rparr>) a v_cb L"

definition lev_embed_create_manual where
  "lev_embed_create_manual a v_cb loop L = create_with_closure (plain_watcher K_embed [loop]) a v_cb L"

text \<open>Without a callback; the flag of the result says whether the wrapper has the operations \<open>watcher_ops\<close>.\<close>

definition lev_embed_create_automatic :: "block_addr \<Rightarrow> int \<Rightarrow> lev \<Rightarrow> block_addr \<times> lev" where
  "lev_embed_create_automatic a loop L = (a, put a (Watcher ((plain_watcher K_embed [loop])\<lparr>w_cb := No_cb\<rparr>)) L)"

definition EV_IOFDSET :: u32 where "EV_IOFDSET = 0x80"

definition lev_io_create ::
    "block_addr \<Rightarrow> block_addr \<Rightarrow> (block_addr \<Rightarrow> exn + caml) \<Rightarrow> caml \<Rightarrow> int \<Rightarrow> u32 \<Rightarrow> lev \<Rightarrow> (exn + block_addr) \<times> lev" where
  "lev_io_create io data v_cb v_fd fd flags L =
     (let w = \<lparr>w_kind = K_io, w_cb = Io_cb, w_data = Uninit, reschedule_cb = False, w_events = flags OR EV_IOFDSET, w_args = [fd]\<rparr>;
          L = put io (Watcher w) L;
          L = put data (Io_data None None) L
      in case v_cb io of
           Inl e \<Rightarrow> (Inl e, L)
         | Inr v_cb_applied \<Rightarrow>
             (let L = put data (Io_data (Some v_cb_applied) (Some v_fd)) L;
                  L = put io (Watcher (w\<lparr>w_data := Pointer data\<rparr>)) L;
                  L = register_root (Io_callback data) L;
                  L = register_root (Io_fd data) L
              in (Inr io, L)))"

definition lev_periodic_create_custom ::
    "block_addr \<Rightarrow> block_addr \<Rightarrow> (block_addr \<Rightarrow> exn + caml) \<Rightarrow> (block_addr \<Rightarrow> exn + caml) \<Rightarrow> lev \<Rightarrow> (exn + block_addr) \<times> lev" where
  "lev_periodic_create_custom periodic cbs v_cb v_reschedule L =
     (let w = (plain_watcher K_periodic [0, 0])\<lparr>w_cb := Periodic_watcher_cb, reschedule_cb := True\<rparr>;
          L = put periodic (Watcher w) L;
          L = put cbs (Periodic_cbs None None) L
      in case v_cb periodic of
           Inl e \<Rightarrow> (Inl e, L)
         | Inr v_cb_applied \<Rightarrow>
             (case v_reschedule periodic of
                Inl e \<Rightarrow> (Inl e, L)
              | Inr v_reschedule_applied \<Rightarrow>
                  (let L = put cbs (Periodic_cbs (Some v_cb_applied) (Some v_reschedule_applied)) L;
                       L = put periodic (Watcher (w\<lparr>w_data := Pointer cbs\<rparr>)) L;
                       L = register_root (Cbs_watcher cbs) L;
                       L = register_root (Cbs_reschedule cbs) L
                   in (Inr periodic, L))))"

definition lev_stat_create ::
    "block_addr \<Rightarrow> block_addr \<Rightarrow> block_addr \<Rightarrow> (block_addr \<Rightarrow> exn + caml) \<Rightarrow> string \<Rightarrow> int \<Rightarrow> lev \<Rightarrow> (exn + block_addr) \<times> lev" where
  "lev_stat_create w data path v_cb v_path v_interval L =
     (let st = (plain_watcher K_stat [v_interval])\<lparr>w_cb := Stat_cb\<rparr>;
          L = put w (Watcher st) L;
          L = put data (Stat_data None None) L;
          L = put path (Path v_path) L
      in case v_cb w of
           Inl e \<Rightarrow> (Inl e, L)
         | Inr v_cb_applied \<Rightarrow>
             (let L = put data (Stat_data (Some v_cb_applied) (Some path)) L;
                  L = put w (Watcher (st\<lparr>w_data := Pointer data\<rparr>)) L;
                  L = register_root (Stat_callback data) L
              in (Inr w, L)))"

section \<open>Destruction\<close>

text \<open>\<open>None\<close> is an access to memory that is not what the code takes it to be.\<close>

definition lev_watcher_destroy :: "block_addr \<Rightarrow> lev \<Rightarrow> lev option" where
  "lev_watcher_destroy a L =
     (case watcher_at a L of
        None \<Rightarrow> None
      | Some w \<Rightarrow> (let L = remove_root (Data a) L; L = free_block a L in Some L))"

definition lev_embed_destroy :: "bool \<Rightarrow> block_addr \<Rightarrow> lev \<Rightarrow> lev option" where
  "lev_embed_destroy watcher_ops a L =
     (case watcher_at a L of
        None \<Rightarrow> None
      | Some w \<Rightarrow> (let L = (if watcher_ops then remove_root (Data a) L else L); L = free_block a L in Some L))"

definition lev_io_destroy :: "block_addr \<Rightarrow> lev \<Rightarrow> lev option" where
  "lev_io_destroy io L =
     (case watcher_at io L of
        Some w \<Rightarrow>
          (case w_data w of
             Pointer data \<Rightarrow>
               (case blocks L data of
                  Some (Io_data _ _) \<Rightarrow>
                    (let L = remove_root (Io_callback data) L; L = remove_root (Io_fd data) L;
                         L = free_block data L; L = free_block io L in Some L)
                | _ \<Rightarrow> None)
           | _ \<Rightarrow> None)
      | None \<Rightarrow> None)"

definition lev_periodic_destroy :: "block_addr \<Rightarrow> lev \<Rightarrow> lev option" where
  "lev_periodic_destroy a L =
     (case watcher_at a L of
        Some w \<Rightarrow>
          if \<not> reschedule_cb w then Some (free_block a (remove_root (Data a) L))
          else
            (case w_data w of
               Pointer cbs \<Rightarrow>
                 (case blocks L cbs of
                    Some (Periodic_cbs _ _) \<Rightarrow>
                      (let L = remove_root (Cbs_watcher cbs) L; L = remove_root (Cbs_reschedule cbs) L;
                           L = free_block cbs L; L = free_block a L in Some L)
                  | _ \<Rightarrow> None)
             | _ \<Rightarrow> None)
      | None \<Rightarrow> None)"

definition lev_stat_destroy :: "block_addr \<Rightarrow> lev \<Rightarrow> lev option" where
  "lev_stat_destroy a L =
     (case watcher_at a L of
        Some w \<Rightarrow>
          (case w_data w of
             Pointer data \<Rightarrow>
               (case blocks L data of
                  Some (Stat_data _ (Some path)) \<Rightarrow>
                    (let L = remove_root (Stat_callback data) L; L = free_block path L;
                         L = free_block data L; L = free_block a L in Some L)
                | _ \<Rightarrow> None)
           | _ \<Rightarrow> None)
      | None \<Rightarrow> None)"

section \<open>Use\<close>

text \<open>\<open>DEF_START\<close> and \<open>DEF_STOP\<close>: libev does nothing where the watcher is already active or not active.\<close>

definition lev_start :: "block_addr \<Rightarrow> lev \<Rightarrow> lev option" where
  "lev_start a L = (case watcher_at a L of None \<Rightarrow> None | Some w \<Rightarrow> Some (L\<lparr>active := insert a (active L)\<rparr>))"

definition lev_stop :: "block_addr \<Rightarrow> lev \<Rightarrow> lev option" where
  "lev_stop a L = (case watcher_at a L of None \<Rightarrow> None | Some w \<Rightarrow> Some (L\<lparr>active := active L - {a}\<rparr>))"

definition lev_watcher_is_active :: "block_addr \<Rightarrow> lev \<Rightarrow> bool option" where
  "lev_watcher_is_active a L = (case watcher_at a L of None \<Rightarrow> None | Some w \<Rightarrow> Some (a \<in> active L))"

definition lev_io_modify :: "block_addr \<Rightarrow> u32 \<Rightarrow> lev \<Rightarrow> lev option" where
  "lev_io_modify io flags L =
     (case watcher_at io L of
        None \<Rightarrow> None
      | Some w \<Rightarrow> Some (put io (Watcher (w\<lparr>w_events := (w_events w AND EV_IOFDSET) OR flags\<rparr>)) L))"

definition lev_io_fd :: "block_addr \<Rightarrow> lev \<Rightarrow> caml option" where
  "lev_io_fd io L =
     (case watcher_at io L of
        Some w \<Rightarrow>
          (case w_data w of Pointer data \<Rightarrow> (case blocks L data of Some (Io_data cb fd) \<Rightarrow> fd | _ \<Rightarrow> None) | _ \<Rightarrow> None)
      | None \<Rightarrow> None)"

text \<open>The calls into OCaml when libev reports an event: the closure with its arguments.\<close>

datatype ocaml_call = Call_unit caml | Call_io caml caml u32 | Call_child caml int process_status

definition lev_child_status :: "(int \<Rightarrow> int) \<Rightarrow> u32 \<Rightarrow> process_status" where
  "lev_child_status rev_convert_signal_number status =
     (if WIFEXITED status then WEXITED (uint (WEXITSTATUS status))
      else if WIFSTOPPED status then WSTOPPED (rev_convert_signal_number (uint (WSTOPSIG status)))
      else WSIGNALED (rev_convert_signal_number (uint (WTERMSIG status))))"

definition lev_io_cb :: "ev_watcher \<Rightarrow> u32 \<Rightarrow> lev \<Rightarrow> ocaml_call option" where
  "lev_io_cb w revents L =
     (case w_data w of
        Pointer data \<Rightarrow> (case blocks L data of Some (Io_data (Some f) (Some fd)) \<Rightarrow> Some (Call_io f fd revents) | _ \<Rightarrow> None)
      | _ \<Rightarrow> None)"

definition lev_watcher_cb :: "ev_watcher \<Rightarrow> ocaml_call option" where
  "lev_watcher_cb w = (case w_data w of Closure f \<Rightarrow> Some (Call_unit f) | _ \<Rightarrow> None)"

definition lev_periodic_watcher_cb :: "ev_watcher \<Rightarrow> lev \<Rightarrow> ocaml_call option" where
  "lev_periodic_watcher_cb w L =
     (case w_data w of
        Pointer cbs \<Rightarrow> (case blocks L cbs of Some (Periodic_cbs (Some f) r) \<Rightarrow> Some (Call_unit f) | _ \<Rightarrow> None)
      | _ \<Rightarrow> None)"

text \<open>\<open>rpid\<close> and \<open>rstatus\<close> are what libev stored in a child watcher.\<close>

definition lev_child_cb :: "(int \<Rightarrow> int) \<Rightarrow> int \<Rightarrow> u32 \<Rightarrow> ev_watcher \<Rightarrow> ocaml_call option" where
  "lev_child_cb rev_convert rpid rstatus w =
     (case w_data w of Closure f \<Rightarrow> Some (Call_child f rpid (lev_child_status rev_convert rstatus)) | _ \<Rightarrow> None)"

definition lev_stat_cb :: "ev_watcher \<Rightarrow> lev \<Rightarrow> ocaml_call option" where
  "lev_stat_cb w L =
     (case w_data w of
        Pointer data \<Rightarrow> (case blocks L data of Some (Stat_data (Some f) p) \<Rightarrow> Some (Call_unit f) | _ \<Rightarrow> None)
      | _ \<Rightarrow> None)"

text \<open>libev calls the function the watcher was initialised with.\<close>

definition ev_invoke :: "(int \<Rightarrow> int) \<Rightarrow> int \<Rightarrow> u32 \<Rightarrow> block_addr \<Rightarrow> u32 \<Rightarrow> lev \<Rightarrow> ocaml_call option" where
  "ev_invoke rev_convert rpid rstatus a revents L =
     (case watcher_at a L of
        None \<Rightarrow> None
      | Some w \<Rightarrow>
          (case w_cb w of
             Watcher_cb \<Rightarrow> lev_watcher_cb w
           | Child_cb \<Rightarrow> lev_child_cb rev_convert rpid rstatus w
           | Io_cb \<Rightarrow> lev_io_cb w revents L
           | Periodic_watcher_cb \<Rightarrow> lev_periodic_watcher_cb w L
           | Stat_cb \<Rightarrow> lev_stat_cb w L
           | No_cb \<Rightarrow> None))"

text \<open>The closure that computes the next time of a periodic watcher.\<close>

definition lev_periodic_reschedule_cb :: "block_addr \<Rightarrow> lev \<Rightarrow> caml option" where
  "lev_periodic_reschedule_cb a L =
     (case watcher_at a L of
        Some w \<Rightarrow>
          (case w_data w of Pointer cbs \<Rightarrow> (case blocks L cbs of Some (Periodic_cbs f r) \<Rightarrow> r | _ \<Rightarrow> None) | _ \<Rightarrow> None)
      | None \<Rightarrow> None)"

section \<open>Constants and comparison\<close>

definition lev_loop_break_codes :: "int list" where "lev_loop_break_codes = [0, 1, 2]"
definition lev_loop_run_codes :: "int list" where "lev_loop_run_codes = [2, 1]"
definition lev_backends :: "u32 list" where "lev_backends = [0x2, 0x1, 0x4, 0x8, 0x10, 0x20, 0x40, 0x80]"
definition lev_loop_flags :: "u32 list" where
  "lev_loop_flags = [0, 0x01000000, 0x02000000, 0x00100000, 0x00200000, 0x00400000, 0x00800000]"
definition lev_io_read_code :: u32 where "lev_io_read_code = 1"
definition lev_io_write_code :: u32 where "lev_io_write_code = 2"

definition compare_watchers :: "block_addr \<Rightarrow> block_addr \<Rightarrow> int" where
  "compare_watchers left right = (if left < right then - 1 else if right < left then 1 else 0)"

text \<open>The table and the search for the kind of a file; the default is a regular file.\<close>

definition file_kind_table :: "u32 list" where
  "file_kind_table = [S_IFREG, S_IFDIR, S_IFCHR, S_IFBLK, S_IFLNK, S_IFIFO, S_IFSOCK]"

fun cst_to_constr :: "u32 \<Rightarrow> u32 list \<Rightarrow> int \<Rightarrow> int \<Rightarrow> int" where
  "cst_to_constr n [] i deflt = deflt"
| "cst_to_constr n (x # tbl) i deflt = (if n = x then i else cst_to_constr n tbl (i + 1) deflt)"

definition lev_stat_kind :: "u32 \<Rightarrow> int" where
  "lev_stat_kind mode = cst_to_constr (mode AND S_IFMT) file_kind_table 0 0"

text \<open>The loop that cuts line ends off a message of the system.\<close>

fun strip_trailing_crlf :: "string \<Rightarrow> nat \<Rightarrow> string" where
  "strip_trailing_crlf message 0 = message"
| "strip_trailing_crlf message (Suc len) =
     (if message ! len = CHR 0x0D \<or> message ! len = CHR 0x0A then strip_trailing_crlf (take len message) len else message)"

section \<open>Watchers\<close>

text \<open>What OCaml knows of a watcher: one closure stored in the structure itself, an I/O watcher with its block, a
  periodic watcher with two closures, a file watcher with its block and path, an embedded loop without
  closure; and what a raising callback left behind.\<close>

datatype watcher_spec =
    Plain ev_watcher caml
  | Io u32 int block_addr caml caml
  | Periodic block_addr caml caml
  | Stat int block_addr block_addr caml string
  | Auto ev_watcher
  | Lost "(block_addr \<times> block) list"

fun cells :: "block_addr \<times> watcher_spec \<Rightarrow> (block_addr \<times> block) list" where
  "cells (a, Plain w f) = [(a, Watcher (w\<lparr>w_data := Closure f\<rparr>))]"
| "cells (a, Io ev fd d f v_fd) =
     [(a, Watcher \<lparr>w_kind = K_io, w_cb = Io_cb, w_data = Pointer d, reschedule_cb = False, w_events = ev, w_args = [fd]\<rparr>),
      (d, Io_data (Some f) (Some v_fd))]"
| "cells (a, Periodic c f r) =
     [(a, Watcher ((plain_watcher K_periodic [0, 0])\<lparr>w_cb := Periodic_watcher_cb, reschedule_cb := True, w_data := Pointer c\<rparr>)),
      (c, Periodic_cbs (Some f) (Some r))]"
| "cells (a, Stat i d p f path) =
     [(a, Watcher ((plain_watcher K_stat [i])\<lparr>w_cb := Stat_cb, w_data := Pointer d\<rparr>)), (d, Stat_data (Some f) (Some p)), (p, Path path)]"
| "cells (a, Auto w) = [(a, Watcher w)]"
| "cells (a, Lost bs) = bs"

fun slots :: "block_addr \<times> watcher_spec \<Rightarrow> slot set" where
  "slots (a, Plain w f) = {Data a}"
| "slots (a, Io ev fd d f v_fd) = {Io_callback d, Io_fd d}"
| "slots (a, Periodic c f r) = {Cbs_watcher c, Cbs_reschedule c}"
| "slots (a, Stat i d p f path) = {Stat_callback d}"
| "slots (a, s) = {}"

fun usable :: "watcher_spec \<Rightarrow> bool" where
  "usable (Lost bs) \<longleftrightarrow> False"
| "usable s \<longleftrightarrow> True"

fun spec_ok :: "watcher_spec \<Rightarrow> bool" where
  "spec_ok (Plain w f) \<longleftrightarrow> (w_cb w = Watcher_cb \<or> w_cb w = Child_cb) \<and> \<not> reschedule_cb w"
| "spec_ok (Auto w) \<longleftrightarrow> w_cb w = No_cb"
| "spec_ok s \<longleftrightarrow> True"

text \<open>The destructor each watcher has on the OCaml side.\<close>

fun destroy_of :: "block_addr \<times> watcher_spec \<Rightarrow> lev \<Rightarrow> lev option" where
  "destroy_of (a, Plain w f) L =
     (if w_kind w = K_periodic then lev_periodic_destroy a L
      else if w_kind w = K_embed then lev_embed_destroy True a L
      else lev_watcher_destroy a L)"
| "destroy_of (a, Io ev fd d f v_fd) L = lev_io_destroy a L"
| "destroy_of (a, Periodic c f r) L = lev_periodic_destroy a L"
| "destroy_of (a, Stat i d p f path) L = lev_stat_destroy a L"
| "destroy_of (a, Auto w) L = lev_embed_destroy False a L"
| "destroy_of (a, Lost bs) L = None"

definition all_cells :: "(block_addr \<times> watcher_spec) list \<Rightarrow> (block_addr \<times> block) list" where
  "all_cells ws = concat (map cells ws)"

definition lev_rep :: "lev \<Rightarrow> (block_addr \<times> watcher_spec) list \<Rightarrow> bool" where
  "lev_rep L ws \<longleftrightarrow>
     distinct (map fst (all_cells ws)) \<and> blocks L = map_of (all_cells ws) \<and> roots L = \<Union> (slots ` set ws) \<and>
     active L \<subseteq> fst ` {x \<in> set ws. usable (snd x)} \<and> (\<forall>x \<in> set ws. spec_ok (snd x))"

definition slot_addr :: "slot \<Rightarrow> block_addr" where
  "slot_addr r =
     (case r of Data a \<Rightarrow> a | Io_callback d \<Rightarrow> d | Io_fd d \<Rightarrow> d | Cbs_watcher c \<Rightarrow> c | Cbs_reschedule c \<Rightarrow> c | Stat_callback d \<Rightarrow> d)"

text \<open>The value the collector reads at a root; \<open>None\<close> where there is no OCaml value in allocated memory.\<close>

definition slot_value :: "lev \<Rightarrow> slot \<Rightarrow> caml option" where
  "slot_value L r =
     (case r of
        Data a \<Rightarrow> (case watcher_at a L of Some w \<Rightarrow> (case w_data w of Closure f \<Rightarrow> Some f | _ \<Rightarrow> None) | None \<Rightarrow> None)
      | Io_callback d \<Rightarrow> (case blocks L d of Some (Io_data f fd) \<Rightarrow> f | _ \<Rightarrow> None)
      | Io_fd d \<Rightarrow> (case blocks L d of Some (Io_data f fd) \<Rightarrow> fd | _ \<Rightarrow> None)
      | Cbs_watcher c \<Rightarrow> (case blocks L c of Some (Periodic_cbs f r) \<Rightarrow> f | _ \<Rightarrow> None)
      | Cbs_reschedule c \<Rightarrow> (case blocks L c of Some (Periodic_cbs f r) \<Rightarrow> r | _ \<Rightarrow> None)
      | Stat_callback d \<Rightarrow> (case blocks L d of Some (Stat_data f p) \<Rightarrow> f | _ \<Rightarrow> None))"

lemma all_cells_simps [simp]: "all_cells [] = []" "all_cells (x # ws) = cells x @ all_cells ws" "all_cells (us @ ws) = all_cells us @ all_cells ws"
  by (simp_all add: all_cells_def)

lemma slots_addr: "r \<in> slots x \<Longrightarrow> slot_addr r \<in> fst ` set (cells x)"
  by (cases x rule: cells.cases) (auto simp: slot_addr_def)

lemma rep_cells: "lev_rep L ws \<Longrightarrow> x \<in> set ws \<Longrightarrow> list_all (\<lambda>(a, b). blocks L a = Some b) (cells x)"
  by (auto simp: lev_rep_def list_all_iff all_cells_def)

lemma rep_root:
  assumes "lev_rep L ws" "r \<in> roots L"
  shows "slot_value L r \<noteq> None"
proof -
  obtain x where x: "x \<in> set ws" "r \<in> slots x"
    using assms by (auto simp: lev_rep_def)
  then show ?thesis
    using rep_cells [OF assms(1) x(1)] by (cases x rule: cells.cases) (auto simp: slot_value_def watcher_at_def)
qed

lemma rep_add:
  assumes "lev_rep L ws" "distinct (map fst (cells x))" "fst ` set (cells x) \<inter> dom (blocks L) = {}" "spec_ok (snd x)"
  shows "lev_rep (L\<lparr>blocks := blocks L ++ map_of (cells x), roots := roots L \<union> slots x\<rparr>) (x # ws)"
  using assms by (auto simp: lev_rep_def dom_map_of_conv_image_fst map_of_append)

lemma map_of_remove:
  assumes "distinct (map fst (xs @ ys @ zs))"
  shows "map_of (xs @ ys @ zs) |` (- fst ` set ys) = map_of (xs @ zs)"
proof
  fix k
  have "map_of ys k = None" if "k \<notin> fst ` set ys"
    using that by (simp add: map_of_eq_None_iff)
  moreover have "map_of (xs @ zs) k = None" if "k \<in> fst ` set ys"
    using that assms by (auto simp: map_of_eq_None_iff)
  ultimately show "(map_of (xs @ ys @ zs) |` (- fst ` set ys)) k = map_of (xs @ zs) k"
    by (auto simp: restrict_map_def map_add_def split: option.split)
qed

lemma rep_remove:
  assumes rep: "lev_rep L ws" and x: "x \<in> set ws" "fst x \<notin> active L"
  shows "lev_rep (L\<lparr>blocks := blocks L |` (- fst ` set (cells x)), roots := roots L - slots x\<rparr>) (remove1 x ws)"
proof -
  obtain us vs where ws: "ws = us @ x # vs" "x \<notin> set us"
    using x(1) split_list_first by metis
  have d: "distinct (map fst (all_cells us @ cells x @ all_cells vs))"
    using rep by (simp add: lev_rep_def ws(1))
  have apart: "slots y \<inter> slots x = {}" if "y \<in> set us \<union> set vs" for y
  proof -
    have "set (cells y) \<subseteq> set (all_cells us) \<union> set (all_cells vs)"
      using that by (auto simp: all_cells_def)
    then have "fst ` set (cells y) \<subseteq> fst ` set (all_cells us) \<union> fst ` set (all_cells vs)"
      by blast
    moreover have "(fst ` set (all_cells us) \<union> fst ` set (all_cells vs)) \<inter> fst ` set (cells x) = {}"
      using d by auto
    ultimately have "fst ` set (cells y) \<inter> fst ` set (cells x) = {}"
      by blast
    then show ?thesis
      by (metis disjoint_iff slots_addr)
  qed
  have r: "roots L - slots x = \<Union> (slots ` set (us @ vs))"
  proof -
    have "roots L = \<Union> (slots ` (set us \<union> set vs)) \<union> slots x"
      using rep by (simp add: lev_rep_def ws(1) Un_ac)
    moreover have "\<Union> (slots ` (set us \<union> set vs)) \<inter> slots x = {}"
      using apart by blast
    ultimately have "roots L - slots x = \<Union> (slots ` (set us \<union> set vs))"
      by blast
    then show ?thesis by simp
  qed
  have act: "active L \<subseteq> fst ` {y \<in> set (us @ vs). usable (snd y)}"
  proof
    fix a assume a: "a \<in> active L"
    then obtain y where y: "y \<in> set ws" "usable (snd y)" "a = fst y"
      using rep by (auto simp: lev_rep_def)
    moreover have "y \<noteq> x"
      using a y(3) x(2) by blast
    ultimately show "a \<in> fst ` {y \<in> set (us @ vs). usable (snd y)}"
      by (intro image_eqI [of _ _ y]) (auto simp: ws(1))
  qed
  have rm: "remove1 x ws = us @ vs"
    by (simp add: ws remove1_append)
  have b: "blocks L |` (- fst ` set (cells x)) = map_of (all_cells (us @ vs))"
    using rep map_of_remove [OF d] by (simp add: lev_rep_def ws(1))
  have ok: "distinct (map fst (all_cells (us @ vs)))" "\<forall>y \<in> set (us @ vs). spec_ok (snd y)"
    using rep d by (auto simp: lev_rep_def ws(1))
  show ?thesis
    unfolding lev_rep_def rm using r act b ok by simp
qed
section \<open>Operations keep the correspondence\<close>

lemmas memory_simps = put_def register_root_def remove_root_def free_block_def Let_def

lemma closure_rep:
  assumes "lev_rep L ws" "blocks L a = None" "w_cb w = Watcher_cb \<or> w_cb w = Child_cb" "\<not> reschedule_cb w" "v_cb a = Inr f"
  shows "lev_rep (snd (create_with_closure w a v_cb L)) ((a, Plain w f) # ws)"
  using rep_add [OF assms(1), of "(a, Plain w f)"] assms by (auto simp: create_with_closure_def memory_simps)

lemma closure_raise_rep:
  assumes "lev_rep L ws" "blocks L a = None" "v_cb a = Inl e"
  shows "lev_rep (snd (create_with_closure w a v_cb L)) ((a, Lost [(a, Watcher w)]) # ws)"
  using rep_add [OF assms(1), of "(a, Lost [(a, Watcher w)])"] assms by (auto simp: create_with_closure_def memory_simps)

lemma embed_auto_rep:
  assumes "lev_rep L ws" "blocks L a = None"
  shows "lev_rep (snd (lev_embed_create_automatic a loop L)) ((a, Auto ((plain_watcher K_embed [loop])\<lparr>w_cb := No_cb\<rparr>)) # ws)"
  using rep_add [OF assms(1), of "(a, Auto ((plain_watcher K_embed [loop])\<lparr>w_cb := No_cb\<rparr>))"] assms
  by (auto simp: lev_embed_create_automatic_def memory_simps)

lemma io_rep:
  assumes "lev_rep L ws" "blocks L a = None" "blocks L d = None" "a \<noteq> d" "v_cb a = Inr f"
  shows "lev_rep (snd (lev_io_create a d v_cb v_fd fd flags L)) ((a, Io (flags OR EV_IOFDSET) fd d f v_fd) # ws)"
  using rep_add [OF assms(1), of "(a, Io (flags OR EV_IOFDSET) fd d f v_fd)"] assms
  by (auto simp: lev_io_create_def memory_simps fun_upd_twist insert_commute)

text \<open>What is left behind when a callback raises.\<close>

definition lost_io :: "block_addr \<Rightarrow> block_addr \<Rightarrow> int \<Rightarrow> u32 \<Rightarrow> watcher_spec" where
  "lost_io a d fd flags =
     Lost [(a, Watcher \<lparr>w_kind = K_io, w_cb = Io_cb, w_data = Uninit, reschedule_cb = False, w_events = flags OR EV_IOFDSET, w_args = [fd]\<rparr>),
           (d, Io_data None None)]"

definition lost_periodic :: "block_addr \<Rightarrow> block_addr \<Rightarrow> watcher_spec" where
  "lost_periodic a c =
     Lost [(a, Watcher ((plain_watcher K_periodic [0, 0])\<lparr>w_cb := Periodic_watcher_cb, reschedule_cb := True\<rparr>)), (c, Periodic_cbs None None)]"

definition lost_stat :: "block_addr \<Rightarrow> block_addr \<Rightarrow> block_addr \<Rightarrow> string \<Rightarrow> int \<Rightarrow> watcher_spec" where
  "lost_stat a d p v_path v_interval =
     Lost [(a, Watcher ((plain_watcher K_stat [v_interval])\<lparr>w_cb := Stat_cb\<rparr>)), (d, Stat_data None None), (p, Path v_path)]"

lemma io_raise_rep:
  assumes "lev_rep L ws" "blocks L a = None" "blocks L d = None" "a \<noteq> d" "v_cb a = Inl e"
  shows "lev_rep (snd (lev_io_create a d v_cb v_fd fd flags L)) ((a, lost_io a d fd flags) # ws)"
  using rep_add [OF assms(1), of "(a, lost_io a d fd flags)"] assms
  by (auto simp: lev_io_create_def lost_io_def memory_simps fun_upd_twist)

lemma periodic_rep:
  assumes "lev_rep L ws" "blocks L a = None" "blocks L c = None" "a \<noteq> c" "v_cb a = Inr f" "v_reschedule a = Inr r"
  shows "lev_rep (snd (lev_periodic_create_custom a c v_cb v_reschedule L)) ((a, Periodic c f r) # ws)"
  using rep_add [OF assms(1), of "(a, Periodic c f r)"] assms
  by (auto simp: lev_periodic_create_custom_def memory_simps fun_upd_twist insert_commute)

lemma periodic_raise_rep:
  assumes "lev_rep L ws" "blocks L a = None" "blocks L c = None" "a \<noteq> c" "v_cb a = Inl e \<or> v_reschedule a = Inl e"
  shows "lev_rep (snd (lev_periodic_create_custom a c v_cb v_reschedule L)) ((a, lost_periodic a c) # ws)"
  using rep_add [OF assms(1), of "(a, lost_periodic a c)"] assms
  by (auto simp: lev_periodic_create_custom_def lost_periodic_def memory_simps fun_upd_twist split: sum.split)

lemma stat_rep:
  assumes "lev_rep L ws" "blocks L a = None" "blocks L d = None" "blocks L p = None" "distinct [a, d, p]" "v_cb a = Inr f"
  shows "lev_rep (snd (lev_stat_create a d p v_cb v_path v_interval L)) ((a, Stat v_interval d p f v_path) # ws)"
  using rep_add [OF assms(1), of "(a, Stat v_interval d p f v_path)"] assms
  by (auto simp: lev_stat_create_def memory_simps fun_upd_twist)

lemma stat_raise_rep:
  assumes "lev_rep L ws" "blocks L a = None" "blocks L d = None" "blocks L p = None" "distinct [a, d, p]" "v_cb a = Inl e"
  shows "lev_rep (snd (lev_stat_create a d p v_cb v_path v_interval L)) ((a, lost_stat a d p v_path v_interval) # ws)"
  using rep_add [OF assms(1), of "(a, lost_stat a d p v_path v_interval)"] assms
  by (auto simp: lev_stat_create_def lost_stat_def memory_simps fun_upd_twist)

lemma destroy_eq:
  assumes rep: "lev_rep L ws" and x: "x \<in> set ws" "usable (snd x)"
  shows "destroy_of x L = Some (L\<lparr>blocks := blocks L |` (- fst ` set (cells x)), roots := roots L - slots x\<rparr>)"
proof -
  have ok: "spec_ok (snd x)"
    using rep x(1) by (simp add: lev_rep_def)
  have r: "m |` (- {k}) = m(k := None)" "m |` (- {k, l}) = m(l := None, k := None)"
      "m |` (- {k, l, n}) = m(n := None, l := None, k := None)" for m :: "block_addr \<rightharpoonup> block" and k l n
    by (auto simp: restrict_map_def)
  show ?thesis
    using rep_cells [OF rep x(1)] x(2) ok
    by (cases x rule: cells.cases)
      (auto simp: r lev_watcher_destroy_def lev_embed_destroy_def lev_io_destroy_def lev_periodic_destroy_def lev_stat_destroy_def
        watcher_at_def memory_simps plain_watcher_def Diff_insert2 [symmetric] insert_commute)
qed

lemma io_modify_rep:
  assumes rep: "lev_rep L (us @ (a, Io ev fd d f v_fd) # vs)" and L': "lev_io_modify a flags L = Some L'"
  shows "lev_rep L' (us @ (a, Io ((ev AND EV_IOFDSET) OR flags) fd d f v_fd) # vs)"
proof -
  let ?w = "\<lambda>ev. \<lparr>w_kind = K_io, w_cb = Io_cb, w_data = Pointer d, reschedule_cb = False, w_events = ev, w_args = [fd]\<rparr>"
  let ?ev = "(ev AND EV_IOFDSET) OR flags"
  have "blocks L a = Some (Watcher (?w ev))"
    using rep_cells [OF rep, of "(a, Io ev fd d f v_fd)"] by simp
  then have e: "L' = L\<lparr>blocks := (blocks L)(a \<mapsto> Watcher (?w ?ev))\<rparr>"
    using L' by (auto simp: lev_io_modify_def watcher_at_def put_def)
  have "a \<notin> dom (map_of (all_cells us))"
    using rep by (auto simp: lev_rep_def dom_map_of_conv_image_fst)
  then have "blocks L' = map_of (all_cells (us @ (a, Io ?ev fd d f v_fd) # vs))"
    using rep by (simp add: e lev_rep_def map_of_append map_add_upd_left)
  moreover have "{x \<in> set (us @ (a, Io e fd d f v_fd) # vs). usable (snd x)} =
      insert (a, Io e fd d f v_fd) {x \<in> set us \<union> set vs. usable (snd x)}" for e
    by auto
  then have "fst ` {x \<in> set (us @ (a, Io e fd d f v_fd) # vs). usable (snd x)} =
      insert a (fst ` {x \<in> set us \<union> set vs. usable (snd x)})" for e
    by simp
  ultimately show ?thesis
    using rep unfolding lev_rep_def by (simp add: e)
qed

section \<open>Runs of the bindings\<close>

text \<open>What OCaml may do, with the watchers it holds: create at free addresses, destroy an inactive watcher with
  its own destructor, start and stop.\<close>

inductive lev_reach :: "lev \<Rightarrow> (block_addr \<times> watcher_spec) list \<Rightarrow> bool" where
  init: "lev_reach lev_init []"
| closure: "lev_reach L ws \<Longrightarrow> blocks L a = None \<Longrightarrow> w_cb w = Watcher_cb \<or> w_cb w = Child_cb \<Longrightarrow> \<not> reschedule_cb w \<Longrightarrow> v_cb a = Inr f \<Longrightarrow>
    lev_reach (snd (create_with_closure w a v_cb L)) ((a, Plain w f) # ws)"
| closure_raise: "lev_reach L ws \<Longrightarrow> blocks L a = None \<Longrightarrow> v_cb a = Inl e \<Longrightarrow>
    lev_reach (snd (create_with_closure w a v_cb L)) ((a, Lost [(a, Watcher w)]) # ws)"
| embed_auto: "lev_reach L ws \<Longrightarrow> blocks L a = None \<Longrightarrow>
    lev_reach (snd (lev_embed_create_automatic a loop L)) ((a, Auto ((plain_watcher K_embed [loop])\<lparr>w_cb := No_cb\<rparr>)) # ws)"
| io: "lev_reach L ws \<Longrightarrow> blocks L a = None \<Longrightarrow> blocks L d = None \<Longrightarrow> a \<noteq> d \<Longrightarrow> v_cb a = Inr f \<Longrightarrow>
    lev_reach (snd (lev_io_create a d v_cb v_fd fd flags L)) ((a, Io (flags OR EV_IOFDSET) fd d f v_fd) # ws)"
| io_raise: "lev_reach L ws \<Longrightarrow> blocks L a = None \<Longrightarrow> blocks L d = None \<Longrightarrow> a \<noteq> d \<Longrightarrow> v_cb a = Inl e \<Longrightarrow>
    lev_reach (snd (lev_io_create a d v_cb v_fd fd flags L)) ((a, lost_io a d fd flags) # ws)"
| periodic: "lev_reach L ws \<Longrightarrow> blocks L a = None \<Longrightarrow> blocks L c = None \<Longrightarrow> a \<noteq> c \<Longrightarrow> v_cb a = Inr f \<Longrightarrow> v_reschedule a = Inr r \<Longrightarrow>
    lev_reach (snd (lev_periodic_create_custom a c v_cb v_reschedule L)) ((a, Periodic c f r) # ws)"
| periodic_raise: "lev_reach L ws \<Longrightarrow> blocks L a = None \<Longrightarrow> blocks L c = None \<Longrightarrow> a \<noteq> c \<Longrightarrow> v_cb a = Inl e \<or> v_reschedule a = Inl e \<Longrightarrow>
    lev_reach (snd (lev_periodic_create_custom a c v_cb v_reschedule L)) ((a, lost_periodic a c) # ws)"
| stat: "lev_reach L ws \<Longrightarrow> blocks L a = None \<Longrightarrow> blocks L d = None \<Longrightarrow> blocks L p = None \<Longrightarrow> distinct [a, d, p] \<Longrightarrow> v_cb a = Inr f \<Longrightarrow>
    lev_reach (snd (lev_stat_create a d p v_cb v_path v_interval L)) ((a, Stat v_interval d p f v_path) # ws)"
| stat_raise: "lev_reach L ws \<Longrightarrow> blocks L a = None \<Longrightarrow> blocks L d = None \<Longrightarrow> blocks L p = None \<Longrightarrow> distinct [a, d, p] \<Longrightarrow> v_cb a = Inl e \<Longrightarrow>
    lev_reach (snd (lev_stat_create a d p v_cb v_path v_interval L)) ((a, lost_stat a d p v_path v_interval) # ws)"
| destroy: "lev_reach L ws \<Longrightarrow> x \<in> set ws \<Longrightarrow> usable (snd x) \<Longrightarrow> fst x \<notin> active L \<Longrightarrow> destroy_of x L = Some L' \<Longrightarrow> lev_reach L' (remove1 x ws)"
| start: "lev_reach L ws \<Longrightarrow> x \<in> set ws \<Longrightarrow> usable (snd x) \<Longrightarrow> lev_start (fst x) L = Some L' \<Longrightarrow> lev_reach L' ws"
| stop: "lev_reach L ws \<Longrightarrow> x \<in> set ws \<Longrightarrow> usable (snd x) \<Longrightarrow> lev_stop (fst x) L = Some L' \<Longrightarrow> lev_reach L' ws"
| modify: "lev_reach L (us @ (a, Io ev fd d f v_fd) # vs) \<Longrightarrow> lev_io_modify a flags L = Some L' \<Longrightarrow>
    lev_reach L' (us @ (a, Io ((ev AND EV_IOFDSET) OR flags) fd d f v_fd) # vs)"

lemma lev_reach_rep: "lev_reach L ws \<Longrightarrow> lev_rep L ws"
proof (induction rule: lev_reach.induct)
  case init
  show ?case by (simp add: lev_rep_def lev_init_def)
next
  case (destroy L ws x L')
  then show ?case
    using destroy_eq [of L ws x] rep_remove [of L ws x] by simp
next
  case (start L ws x L')
  then show ?case by (auto simp: lev_start_def lev_rep_def split: option.splits)
next
  case (stop L ws x L')
  then show ?case by (auto simp: lev_stop_def lev_rep_def split: option.splits)
qed (simp_all add: closure_rep closure_raise_rep embed_auto_rep io_rep periodic_rep stat_rep
    io_raise_rep periodic_raise_rep stat_raise_rep io_modify_rep)

text \<open>C5. The bindings keep the collector and the loop safe: whatever is created, started, stopped and destroyed,
  in any order and with callbacks that raise, every registered root is an OCaml value in allocated
  memory; the roots are exactly the closures and descriptors of the watchers that exist, so nothing they
  need is collected; every active watcher is allocated; an inactive watcher can be destroyed; and when
  all are destroyed no block and no root is left.\<close>

theorem lev_memory_safe:
  assumes "lev_reach L ws"
  shows "(\<forall>r \<in> roots L. slot_value L r \<noteq> None) \<and> roots L = \<Union> (slots ` set ws) \<and> active L \<subseteq> dom (blocks L) \<and>
    (\<forall>x \<in> set ws. usable (snd x) \<longrightarrow> destroy_of x L \<noteq> None) \<and> (ws = [] \<longrightarrow> blocks L = Map.empty \<and> roots L = {} \<and> active L = {})"
proof -
  have rep: "lev_rep L ws" by (rule lev_reach_rep [OF assms])
  have "fst x \<in> dom (blocks L)" if "x \<in> set ws" "usable (snd x)" for x
    using rep_cells [OF rep that(1)] that(2) by (cases x rule: cells.cases) auto
  then have "active L \<subseteq> dom (blocks L)"
    using rep unfolding lev_rep_def by blast
  then show ?thesis
    using rep rep_root [OF rep] destroy_eq [OF rep] by (auto simp: lev_rep_def)
qed

theorem lev_memory_safe_witness:
  "\<exists>L. lev_reach L [(1, Io 0x81 5 2 7 8)] \<and> roots L = {Io_callback 2, Io_fd 2} \<and> slot_value L (Io_callback 2) \<noteq> None"
proof -
  have "lev_reach (snd (lev_io_create 1 2 (\<lambda>_. Inr 7) 8 5 1 lev_init)) [(1, Io (1 OR EV_IOFDSET) 5 2 7 8)]"
    by (rule lev_reach.io [OF lev_reach.init]) (simp_all add: lev_init_def)
  then have r: "lev_reach (snd (lev_io_create 1 2 (\<lambda>_. Inr 7) 8 5 1 lev_init)) [(1, Io 0x81 5 2 7 8)]"
    by (simp add: EV_IOFDSET_def)
  from lev_memory_safe [OF r] r show ?thesis
    by auto
qed

text \<open>What an event calls: the closure OCaml stored, with the descriptor and the events for I/O, and the status
  of the child for a child.\<close>

fun expected_call :: "(int \<Rightarrow> int) \<Rightarrow> int \<Rightarrow> u32 \<Rightarrow> u32 \<Rightarrow> watcher_spec \<Rightarrow> ocaml_call option" where
  "expected_call rc rpid rstatus revents (Plain w f) =
     Some (if w_cb w = Child_cb then Call_child f rpid (alloc_process_status rc rstatus) else Call_unit f)"
| "expected_call rc rpid rstatus revents (Io ev fd d f v_fd) = Some (Call_io f v_fd revents)"
| "expected_call rc rpid rstatus revents (Periodic c f r) = Some (Call_unit f)"
| "expected_call rc rpid rstatus revents (Stat i d p f path) = Some (Call_unit f)"
| "expected_call rc rpid rstatus revents s = None"

lemma lev_child_status_eq: "lev_child_status rc status = alloc_process_status rc status"
  by (simp add: lev_child_status_def alloc_process_status_def)

text \<open>C38. Events reach the right closure: for every watcher that exists, whatever happened to the others, libev's
  event calls exactly the closure its creation returned, with its descriptor and the reported events, or
  with the process status as \<open>wait4\<close> decodes it; the next time of a periodic watcher comes from its own
  closure; and the kind of a watched file is the one \<open>stat\<close> gives.\<close>

theorem lev_dispatch:
  assumes "lev_reach L ws" "(a, s) \<in> set ws" "usable s"
  shows "ev_invoke rc rpid rstatus a revents L = expected_call rc rpid rstatus revents s \<and>
    (\<forall>c f r. s = Periodic c f r \<longrightarrow> lev_periodic_reschedule_cb a L = Some r) \<and>
    (\<forall>ev fd d f v_fd. s = Io ev fd d f v_fd \<longrightarrow> lev_io_fd a L = Some v_fd) \<and>
    lev_stat_kind mode = dune_time_stat_file_kind False mode"
proof -
  have rep: "lev_rep L ws" by (rule lev_reach_rep [OF assms(1)])
  then have ok: "spec_ok s" using assms(2) by (auto simp: lev_rep_def)
  have "lev_stat_kind mode = dune_time_stat_file_kind False mode"
    by (simp add: lev_stat_kind_def file_kind_table_def dune_time_stat_file_kind_def S_IF_defs)
  then show ?thesis
    using rep_cells [OF rep assms(2)] assms(3) ok
    by (cases s) (auto simp: ev_invoke_def lev_io_cb_def lev_watcher_cb_def lev_periodic_watcher_cb_def lev_child_cb_def lev_stat_cb_def watcher_at_def
        plain_watcher_def lev_child_status_eq lev_periodic_reschedule_cb_def lev_io_fd_def)
qed

theorem lev_dispatch_witness:
  "\<exists>L. lev_reach L [(1, Io 0x81 5 2 7 8)] \<and> ev_invoke id 0 0 1 3 L = Some (Call_io 7 8 3)"
proof -
  have "lev_reach (snd (lev_io_create 1 2 (\<lambda>_. Inr 7) 8 5 1 lev_init)) [(1, Io (1 OR EV_IOFDSET) 5 2 7 8)]"
    by (rule lev_reach.io [OF lev_reach.init]) (simp_all add: lev_init_def)
  then have r: "lev_reach (snd (lev_io_create 1 2 (\<lambda>_. Inr 7) 8 5 1 lev_init)) [(1, Io 0x81 5 2 7 8)]"
    by (simp add: EV_IOFDSET_def)
  from lev_dispatch [OF r, of 1 "Io 0x81 5 2 7 8" id 0 0 3] r show ?thesis
    by auto
qed

end
