(* ===== verification/Misc_Stubs.thy ===== *)
theory Misc_Stubs
  imports Posix
begin

text \<open>
  The small stub files: sockets and working directories for the RPC client (\<open>csexp_rpc_stubs.c\<close>), writing a
  trace and counting descriptors (\<open>dune_trace_stubs.c\<close>), the MD5 digest of a descriptor (\<open>md5_stubs.c\<close>), the
  subreaper flag (\<open>subreaper_stubs.c\<close>) and the allocation limit of the memo tables (\<open>dune_memo_stubs.c\<close>). An OCaml
  \<open>int\<close> has 63 bits; C's \<open>int\<close> has 32.
\<close>

section \<open>RPC\<close>

definition Max_long :: int where "Max_long = 2 ^ 62 - 1"

definition dune_rpc_registry_windows_process_id :: "bool \<Rightarrow> u32 \<Rightarrow> exn + int" where
  "dune_rpc_registry_windows_process_id win pid =
     (if win then
        if Max_long < uint pid then Inl (Failure ''Windows process ID does not fit in an OCaml int'')
        else Inr (Val_long (uint pid))
      else Inl (Invalid_argument ''Windows process IDs are only available on Windows''))"

definition dune_pthread_chdir_is_osx :: "bool \<Rightarrow> bool" where
  "dune_pthread_chdir_is_osx apple = apple"

text \<open>The working directory of the calling thread, \<open>None\<close> for that of the process.\<close>

definition dune_pthread_chdir :: "bool \<Rightarrow> (string \<Rightarrow> errno option) \<Rightarrow> string \<Rightarrow> string option \<Rightarrow> (exn + unit) \<times> string option" where
  "dune_pthread_chdir apple sys dir cwd =
     (if apple then
        case sys dir of
          Some err \<Rightarrow> (Inl (Unix_error err ''__pthread_chdir'' dir), cwd)
        | None \<Rightarrow> (Inr (), Some dir)
      else (Inl (Invalid_argument ''__pthread_chdir not implemented''), cwd))"

definition dune_reset_pthread_cwd :: "bool \<Rightarrow> errno option \<Rightarrow> string option \<Rightarrow> (exn + unit) \<times> string option" where
  "dune_reset_pthread_cwd apple sys cwd =
     (if apple then
        case sys of
          Some err \<Rightarrow> (Inl (Unix_error err ''__pthread_fchdir'' []), cwd)
        | None \<Rightarrow> (Inr (), None)
      else (Inl (Invalid_argument ''__pthread_fchdir not implemented''), cwd))"

definition dune_set_nosigpipe :: "bool \<Rightarrow> errno option \<Rightarrow> exn + unit" where
  "dune_set_nosigpipe apple sys =
     (if apple then case sys of Some err \<Rightarrow> Inl (Unix_error err ''setsockopt'' []) | None \<Rightarrow> Inr ()
      else Inl (Invalid_argument ''only implemented on macos''))"

definition UNIX_BUFFER_SIZE :: int where "UNIX_BUFFER_SIZE = 65536"

text \<open>An OCaml integer stored into an \<open>int\<close>.\<close>

definition int_of_long :: "int \<Rightarrow> int" where
  "int_of_long n = sint (word_of_int n :: u32)"

text \<open>\<open>dune_send\<close>: \<open>sys\<close> is \<open>send\<close> with \<open>MSG_NOSIGNAL\<close>. The copy into the buffer reads outside the bytes when the range
  does not lie in them, and writes outside the buffer when the length is negative: \<open>Out_of_range\<close>.\<close>

datatype send_result = Sent "exn + int" | Out_of_range

definition dune_send :: "bool \<Rightarrow> (byte list \<Rightarrow> errno + int) \<Rightarrow> byte list \<Rightarrow> int \<Rightarrow> int \<Rightarrow> send_result" where
  "dune_send linux sys v_bytes v_pos v_len =
     (if linux then
        let len = int_of_long v_len;
            len = (if UNIX_BUFFER_SIZE < len then UNIX_BUFFER_SIZE else len);
            pos = int_of_long v_pos
        in if len < 0 \<or> pos < 0 \<or> int (length v_bytes) < pos + len then Out_of_range
           else (case sys (take (nat len) (drop (nat pos) v_bytes)) of
                   Inl err \<Rightarrow> Sent (Inl (Unix_error err ''send'' []))
                 | Inr ret \<Rightarrow> Sent (Inr ret))
      else Sent (Inl (Invalid_argument ''sendmsg without sigpipe only available on linux'')))"

section \<open>Trace\<close>

definition dune_trace_write :: "(byte list \<Rightarrow> errno + int) \<Rightarrow> byte list \<Rightarrow> nat \<Rightarrow> nat \<Rightarrow> exn + int" where
  "dune_trace_write sys v_buf v_offset v_length =
     (case sys (take v_length (drop v_offset v_buf)) of
        Inl err \<Rightarrow> Inl (Unix_error err ''dune_trace_write'' [])
      | Inr written \<Rightarrow> Inr (Val_long written))"

definition MAX_FDS :: int where "MAX_FDS = 1024"
definition PROC_PIDLISTFD_SIZE :: int where "PROC_PIDLISTFD_SIZE = 8"

text \<open>\<open>sys\<close> is \<open>proc_pidinfo\<close> with the size of the buffer in bytes.\<close>

definition dune_trace_open_fds :: "bool \<Rightarrow> (int \<Rightarrow> errno + int) \<Rightarrow> exn + int" where
  "dune_trace_open_fds apple sys =
     (if apple then
        case sys (PROC_PIDLISTFD_SIZE * MAX_FDS) of
          Inl err \<Rightarrow> (if err = ENOMEM then Inr MAX_FDS else Inl (Failure ''proc_pidinfo failed''))
        | Inr sz \<Rightarrow> Inr (sz div PROC_PIDLISTFD_SIZE)
      else Inl (Failure ''function is available only on macos''))"

definition dune_trace_available :: "bool \<Rightarrow> bool" where
  "dune_trace_available apple = apple"

section \<open>MD5\<close>

text \<open>The functions of the OCaml runtime.\<close>

record 's md5_functions =
  MD5Init :: 's
  MD5Update :: "'s \<Rightarrow> byte list \<Rightarrow> 's"
  MD5Final :: "'s \<Rightarrow> byte list"

definition dune_pkg_md5_fd :: "'s md5_functions \<Rightarrow> (errno + byte list) list \<Rightarrow> (exn + byte list) option" where
  "dune_pkg_md5_fd M reads =
     map_option (\<lambda>r. case r of
         Inl (err, ctx) \<Rightarrow> Inl (Unix_error err ''read'' [])
       | Inr ctx \<Rightarrow> Inr (MD5Final M ctx)) (fd_loop (MD5Update M) (MD5Init M) reads)"

section \<open>Subreaper and memo tables\<close>

definition dune_scheduler_set_child_subreaper :: "bool \<Rightarrow> errno option \<Rightarrow> exn + bool" where
  "dune_scheduler_set_child_subreaper linux prctl =
     (if linux then
        case prctl of
          None \<Rightarrow> Inr True
        | Some err \<Rightarrow> (if err = EINVAL then Inr False else Inl (Unix_error err ''prctl'' []))
      else Inr False)"

definition dune_memo_max_young_wosize :: int where
  "dune_memo_max_young_wosize = Val_long 256"

section \<open>Properties\<close>

lemma int_of_long_small: "- (2 ^ 31) \<le> n \<Longrightarrow> n < 2 ^ 31 \<Longrightarrow> int_of_long n = n"
  by (simp add: int_of_long_def signed_of_int signed_take_bit_int_eq_self)

text \<open>Sending with one call: the range is in bounds, at most one buffer is offered, and the result counts it.\<close>

lemma send_in_range:
  assumes "0 \<le> pos" "0 \<le> len" "pos + len \<le> int (length bs)" "int (length bs) < 2 ^ 31"
  shows "dune_send True sys bs pos len =
    Sent (case sys (take (nat (min len UNIX_BUFFER_SIZE)) (drop (nat pos) bs)) of
            Inl err \<Rightarrow> Inl (Unix_error err ''send'' []) | Inr ret \<Rightarrow> Inr ret)"
proof -
  have "int_of_long pos = pos" "int_of_long len = len"
    using assms by (auto intro!: int_of_long_small)
  then show ?thesis
    using assms by (auto simp: dune_send_def Let_def min_def UNIX_BUFFER_SIZE_def split: sum.split)
qed

text \<open>A length of two gigabytes wraps to a negative \<open>int\<close>, which the test against the buffer size lets through.\<close>

lemma send_length_wraps:
  assumes "length bs = 2 ^ 31"
  shows "dune_send True sys bs 0 (2 ^ 31) = Out_of_range"
  by (simp add: dune_send_def int_of_long_def UNIX_BUFFER_SIZE_def signed_of_int signed_take_bit_eq_take_bit_shift)

text \<open>What a context has absorbed, whatever the pieces were.\<close>

definition absorbed :: "'s md5_functions \<Rightarrow> byte list \<Rightarrow> 's \<Rightarrow> bool" where
  "absorbed M bs ctx \<longleftrightarrow> (\<exists>pieces. ctx = foldl (MD5Update M) (MD5Init M) pieces \<and> bs = concat pieces)"

interpretation md5: byte_sink "MD5Update M" "absorbed M" cap for M cap
proof
  fix bs ctx and d :: "byte list"
  assume "absorbed M bs ctx"
  then obtain pieces where "ctx = foldl (MD5Update M) (MD5Init M) pieces" "bs = concat pieces"
    by (auto simp: absorbed_def)
  then show "absorbed M (bs @ d) (MD5Update M ctx d)"
    unfolding absorbed_def by (intro exI [of _ "pieces @ [d]"]) simp
qed

text \<open>The documented behaviour of the MD5 functions: the digest depends on the bytes only, not on how they were
  cut into pieces.\<close>

definition computes :: "'s md5_functions \<Rightarrow> (byte list \<Rightarrow> byte list) \<Rightarrow> bool" where
  "computes M digest \<longleftrightarrow> (\<forall>pieces. MD5Final M (foldl (MD5Update M) (MD5Init M) pieces) = digest (concat pieces))"

text \<open>C40. The MD5 of a descriptor: with reads of any sizes and any interruptions the result is the digest of all
  bytes up to the end of the file; another error of \<open>read\<close> is raised; and the call returns as soon as the
  end of the file or such an error arrives.\<close>

theorem md5_fd_spec:
  assumes "computes M digest"
  shows "dune_pkg_md5_fd M reads =
    (case read_end reads of
       None \<Rightarrow> None
     | Some (Inl err) \<Rightarrow> Some (Inl (Unix_error err ''read'' []))
     | Some (Inr _) \<Rightarrow> Some (Inr (digest (read_bytes reads))))"
proof -
  have "absorbed M [] (MD5Init M)"
    unfolding absorbed_def by (intro exI [of _ "[]"]) simp
  note run = md5.fd_loop_holds [OF this, of reads "Suc (length (read_bytes reads))"]
  consider "read_end reads = None" | err where "read_end reads = Some (Inl err)" | "read_end reads = Some (Inr ())"
    by (metis not_None_eq old.unit.exhaust sum.exhaust)
  then show ?thesis
  proof cases
    case 3
    then obtain ctx where "fd_loop (MD5Update M) (MD5Init M) reads = Some (Inr ctx)" "absorbed M (read_bytes reads) ctx"
      using run by auto
    then show ?thesis
      using 3 assms by (auto simp: dune_pkg_md5_fd_def computes_def absorbed_def)
  qed (use run in \<open>auto simp: dune_pkg_md5_fd_def\<close>)
qed

theorem md5_fd_spec_witness:
  "dune_pkg_md5_fd \<lparr>MD5Init = [], MD5Update = (@), MD5Final = rev\<rparr> [Inr [1, 2], Inl EINTR, Inr [3], Inr []] = Some (Inr [3, 2, 1])"
proof -
  let ?M = "\<lparr>MD5Init = [], MD5Update = (@), MD5Final = rev\<rparr> :: byte list md5_functions"
  have "foldl (@) s pieces = s @ concat pieces" for s :: "byte list" and pieces
    by (induction pieces arbitrary: s) simp_all
  then have "computes ?M rev"
    by (simp add: computes_def)
  from md5_fd_spec [OF this, of "[Inr [1, 2], Inl EINTR, Inr [3], Inr []]"] show ?thesis
    by simp
qed

end
